(* ===== verification/Prelude.thy ===== *)
theory Prelude
  imports Main "HOL-Library.Word" "HOL-Library.Char_ord" "HOL-Library.List_Lexorder" "HOL-Library.Signed_Division"
begin

text \<open>
  Shared vocabulary of the development: the machine types of the C and C++ sources, the
  result type with which every model reports undefined behaviour, exceptions and calls
  that never return, byte-list helpers (slices, writes into a buffer, big-endian
  encoding), and the theorem collections \<open>bench_simps\<close> and \<open>byte_simps\<close>.
\<close>

section \<open>Machine types\<close>

unbundle bit_operations_syntax

type_synonym u8 = "8 word"
type_synonym u32 = "32 word"
type_synonym u64 = "64 word"
type_synonym bytes = "u8 list"

named_theorems bench_simps "rewrite rules for the result type and the loops of the models"
named_theorems byte_simps "rewrite rules for slices, buffer writes and big-endian numbers"

section \<open>Results: values, undefined behaviour, exceptions, calls that do not return\<close>

text \<open>
  \<open>None\<close> is a call that never returns (it blocks or loops for ever), \<open>Inl\<close> a fault and
  \<open>Inr\<close> a value. \<open>Undefined\<close> is behaviour the C or C++ standard leaves undefined
  (an access outside an object, a division by zero, a signed overflow, reading an
  uninitialised object); \<open>Throw\<close> is a C++ exception.
\<close>

datatype cxx_exception = Invalid_Argument | Out_Of_Range | Runtime_Error

datatype fault = Undefined | Throw cxx_exception

type_synonym 'a result = "(fault + 'a) option"

abbreviation ret :: "'a \<Rightarrow> 'a result" where
  "ret x \<equiv> Some (Inr x)"

abbreviation undef :: "'a result" where
  "undef \<equiv> Some (Inl Undefined)"

abbreviation throw :: "cxx_exception \<Rightarrow> 'a result" where
  "throw e \<equiv> Some (Inl (Throw e))"

abbreviation never :: "'a result" where
  "never \<equiv> None"

definition rbind :: "'a result \<Rightarrow> ('a \<Rightarrow> 'b result) \<Rightarrow> 'b result" where
  "rbind m f = Option.bind m (\<lambda>x. case x of Inl e \<Rightarrow> Some (Inl e) | Inr a \<Rightarrow> f a)"

lemma rbind_simps [simp, bench_simps]:
  "rbind (ret x) f = f x"
  "rbind undef f = undef"
  "rbind (throw e) f = throw e"
  "rbind (Some (Inl t)) f = Some (Inl t)"
  "rbind never f = never"
  by (simp_all add: rbind_def)

lemma rbind_eq_ret:
  "rbind m f = ret y \<longleftrightarrow> (\<exists>x. m = ret x \<and> f x = ret y)"
  by (cases m) (auto simp: rbind_def split: sum.splits)

lemma rbind_eq_fault:
  "rbind m f = Some (Inl e) \<longleftrightarrow> m = Some (Inl e) \<or> (\<exists>x. m = ret x \<and> f x = Some (Inl e))"
  by (cases m) (auto simp: rbind_def split: sum.splits)

lemma rbind_cong [fundef_cong]:
  "m = m' \<Longrightarrow> (\<And>x. m' = ret x \<Longrightarrow> f x = f' x) \<Longrightarrow> rbind m f = rbind m' f'"
  by (cases m') (auto simp: rbind_def split: sum.splits)

lemma rbind_mono [partial_function_mono]:
  assumes m: "mono_option M" and f: "\<And>y. mono_option (\<lambda>g. F y g)"
  shows "mono_option (\<lambda>g. rbind (M g) (\<lambda>y. F y g))"
proof -
  have "mono_option (\<lambda>g. case y of Inl e \<Rightarrow> Some (Inl e) | Inr a \<Rightarrow> F a g)"
    for y
    by (cases y) (auto intro: f option.const_mono)
  then show ?thesis
    unfolding rbind_def by (intro bind_mono m)
qed

text \<open>Signed 64-bit arithmetic: a value outside the range of \<open>long\<close> is undefined.\<close>

definition checked64 :: "int \<Rightarrow> int result" where
  "checked64 v = (if - (2 ^ 63) \<le> v \<and> v < 2 ^ 63 then ret v else undef)"

lemma checked64_ok [bench_simps]: "- (2 ^ 63) \<le> v \<Longrightarrow> v < 2 ^ 63 \<Longrightarrow> checked64 v = ret v"
  by (simp add: checked64_def)

section \<open>Bytes and buffers\<close>

definition bslice :: "nat \<Rightarrow> nat \<Rightarrow> 'a list \<Rightarrow> 'a list" where
  "bslice off n xs = take n (drop off xs)"

text \<open>Writing \<open>bs\<close> into a buffer at an offset, as a read call does with its destination.\<close>

definition write_at :: "nat \<Rightarrow> 'a list \<Rightarrow> 'a list \<Rightarrow> 'a list" where
  "write_at off bs buf = take off buf @ bs @ drop (off + length bs) buf"

definition ascii :: "string \<Rightarrow> bytes" where
  "ascii s = map of_char s"

lemma length_slice [simp, byte_simps]: "off + n \<le> length xs \<Longrightarrow> length (bslice off n xs) = n"
  by (simp add: bslice_def)

lemma length_write_at [simp, byte_simps]:
  "off + length bs \<le> length buf \<Longrightarrow> length (write_at off bs buf) = length buf"
  by (simp add: write_at_def)

lemma write_at_Nil [simp]: "write_at off [] buf = buf"
  by (simp add: write_at_def)

lemma write_at_update: "i < length buf \<Longrightarrow> write_at (Suc i) xs (buf[i := x]) = write_at i (x # xs) buf"
  by (simp add: write_at_def take_Suc_conv_app_nth)

lemma write_at_all: "length xs = length buf \<Longrightarrow> write_at 0 xs buf = xs"
  by (simp add: write_at_def)

lemma concat_replicate_replicate: "concat (replicate k (replicate n x)) = replicate (k * n) x"
  by (induction k) (simp_all add: replicate_add)

lemma write_at_append:
  assumes "off + length as + length bs \<le> length buf"
  shows "write_at (off + length as) bs (write_at off as buf) = write_at off (as @ bs) buf"
  using assms by (simp add: write_at_def ac_simps)

lemma slice_append_skip [byte_simps]:
  "length xs \<le> off \<Longrightarrow> bslice off n (xs @ ys) = bslice (off - length xs) n ys"
  by (simp add: bslice_def)

lemma slice_append_take [byte_simps]:
  "n = length xs \<Longrightarrow> bslice 0 n (xs @ ys) = xs"
  by (simp add: bslice_def)

lemma take_slice_append: "take a xs @ bslice a n xs = take (a + n) xs"
  by (simp add: bslice_def take_add)

lemma bslice_Cons: "i < length xs \<Longrightarrow> i < j \<Longrightarrow> bslice i (j - i) xs = xs ! i # bslice (Suc i) (j - Suc i) xs"
  by (simp add: bslice_def Cons_nth_drop_Suc [symmetric] take_Cons' Suc_diff_Suc)

section \<open>Big-endian numbers\<close>

fun be_bytes :: "nat \<Rightarrow> nat \<Rightarrow> bytes" where
  "be_bytes 0 n = []"
| "be_bytes (Suc k) n = be_bytes k (n div 256) @ [of_nat n]"

lemma be_bytes_numeral: "be_bytes (numeral k) n = be_bytes (pred_numeral k) (n div 256) @ [of_nat n]"
  by (simp only: numeral_eq_Suc [of k] be_bytes.simps)

definition be_nat :: "bytes \<Rightarrow> nat" where
  "be_nat bs = fold (\<lambda>b n. n * 256 + unat b) bs 0"

lemma length_be_bytes [simp, byte_simps]: "length (be_bytes k n) = k"
  by (induction k arbitrary: n) auto

lemma be_nat_Nil [simp]: "be_nat [] = 0"
  by (simp add: be_nat_def)

lemma be_nat_snoc [simp, byte_simps]: "be_nat (bs @ [b]) = be_nat bs * 256 + unat b"
  by (simp add: be_nat_def)

lemma unat_u8_less [simp]: "unat (b :: u8) < 256"
proof -
  have "unat b < 2 ^ LENGTH(8)" by (rule unsigned_less)
  then show ?thesis by simp
qed

lemma unat_u64_less: "unat (w :: u64) < 2 ^ 64"
proof -
  have "unat w < 2 ^ LENGTH(64)" by (rule unsigned_less)
  then show ?thesis by simp
qed

lemma unat_ucast_u32 [simp]: "unat (ucast (w :: u32) :: u64) = unat w"
proof -
  have "unat w < 2 ^ LENGTH(32)" by (rule unsigned_less)
  then show ?thesis by (simp add: unsigned_ucast_eq take_bit_nat_eq_self)
qed

lemma unat_of_nat_u8: "unat (of_nat n :: u8) = n mod 256"
  by (simp add: unat_of_nat)

lemma be_nat_be_bytes [byte_simps]: "be_nat (be_bytes k n) = n mod 256 ^ k"
proof (induction k arbitrary: n)
  case (Suc k)
  have "n mod (256 * 256 ^ k) = n div 256 mod 256 ^ k * 256 + n mod 256"
    by (simp add: mod_mult2_eq)
  then show ?case by (simp add: Suc unat_of_nat_u8)
qed simp

lemma be_nat_bound: "be_nat bs < 256 ^ length bs"
proof (induction bs rule: rev_induct)
  case (snoc b bs)
  have "unat b < 256" using unsigned_less [of b] by simp
  with snoc have "be_nat bs * 256 + unat b < (be_nat bs + 1) * 256" by simp
  also from snoc have "\<dots> \<le> 256 ^ length bs * 256" by (intro mult_right_mono) auto
  finally show ?case by (simp add: mult.commute)
qed simp

lemma be_bytes_be_nat [byte_simps]: "be_bytes (length bs) (be_nat bs) = bs"
proof (induction bs rule: rev_induct)
  case (snoc b bs)
  have b: "unat b < 256" using unsigned_less [of b] by simp
  have "of_nat (be_nat bs * 256 + unat b) = b"
    by (simp add: word_unat_eq_iff unat_of_nat_u8 b del: of_nat_add of_nat_mult)
  with snoc b show ?case by (simp del: of_nat_add of_nat_mult)
qed simp

lemma unat_succ_u64: "i < j \<Longrightarrow> unat (i + 1 :: u64) = Suc (unat i)"
  using unat_u64_less [of j] by (simp add: word_less_nat_alt unat_word_ariths)

lemma unat_pred_u64: "0 < i \<Longrightarrow> unat (i - 1 :: u64) = unat i - 1"
  by (simp add: unat_sub word_le_nat_alt unat_gt_0 Suc_le_eq word_gt_0)

lemma sint_small: "0 \<le> v \<Longrightarrow> v < 2 ^ 63 \<Longrightarrow> sint (of_int v :: u64) = v"
  by (simp add: sint_sbintrunc' signed_take_bit_int_eq_self)

lemma sint_small_unat:
  assumes "unat (x :: u64) < 2 ^ 63"
  shows "sint x = int (unat x)"
proof -
  have "int (unat x) < int (2 ^ 63)" using assms by (simp only: of_nat_less_iff)
  then have "uint x < 2 ^ 63" by simp
  moreover have "- (2 ^ 63) \<le> uint x" by (rule order.trans [OF _ uint_ge_0]) simp
  ultimately have "signed_take_bit 63 (uint x) = uint x" by (intro signed_take_bit_int_eq_self)
  then show ?thesis by (simp add: sint_uint)
qed

end
