(* ===== verification/Wire.thy ===== *)
theory Wire
  imports Prelude
begin

text \<open>
  The wire format of the YCSB server: \<open>struct Package\<close> of \<^verbatim>\<open>apps/ycsbserver/ops.h\<close> and
  the decoder \<open>OpHandler::read_u64\<close> / \<open>OpHandler::from_bytes\<close> of
  \<^verbatim>\<open>apps/ycsbserver/handler.cc\<close>, with an abstract encoder that says which byte strings
  are packages, and the lemmas that relate the two.
\<close>

section \<open>Package\<close>

record package =
  pkg_op :: u8
  pkg_table :: u8
  pkg_num_kvs :: u8
  pkg_key :: u64
  pkg_scan_length :: u64
  kv_pairs :: "(bytes \<times> bytes) list"

section \<open>The decoder\<close>

text \<open>
  \<open>__BIG_ENDIAN\<close> is the constant 4321 of \<^verbatim>\<open>endian.h\<close>, so the first branch of the
  conditional is the one compiled on every host: byte 0 is the most significant one.
\<close>

definition read_u64 :: "bytes \<Rightarrow> u64" where
  "read_u64 bs = fold (\<lambda>i res. res OR push_bit (56 - i * 8) (ucast (bs ! i))) [0..<8] 0"

text \<open>
  The loop over the key/value pairs. \<open>buf\<close> is the object \<open>package_buffer\<close> points into,
  from the pointer on; \<open>sz\<close> the value of \<open>package_size\<close>; \<open>n\<close> the iterations left.
  A read outside \<open>buf\<close> is undefined. The position stays below \<open>19 + 255 * 512\<close>, so no
  addition here can wrap around in a \<open>size_t\<close>.
\<close>

fun from_bytes_kvs ::
  "bytes \<Rightarrow> nat \<Rightarrow> nat \<Rightarrow> nat \<Rightarrow> (bytes \<times> bytes) list \<Rightarrow> (nat \<times> (bytes \<times> bytes) list) result"
where
  "from_bytes_kvs buf sz 0 pos kvs = ret (pos, kvs)"
| "from_bytes_kvs buf sz (Suc n) pos kvs =
     (if pos + 2 > sz then ret (0, kvs)
      else if length buf < pos + 2 then undef
      else
        let key_len = unat (buf ! pos);
            val_len = unat (buf ! (pos + 1));
            pos' = pos + 2
        in if pos' + key_len + val_len > sz then ret (0, kvs)
           else if length buf < pos' + key_len + val_len then undef
           else from_bytes_kvs buf sz n (pos' + key_len + val_len)
                  (kvs @ [(bslice pos' key_len buf, bslice (pos' + key_len) val_len buf)]))"

lemma from_bytes_kvs_numeral:
  "from_bytes_kvs buf sz (numeral k) pos kvs =
     (if pos + 2 > sz then ret (0, kvs)
      else if length buf < pos + 2 then undef
      else
        let key_len = unat (buf ! pos);
            val_len = unat (buf ! (pos + 1));
            pos' = pos + 2
        in if pos' + key_len + val_len > sz then ret (0, kvs)
           else if length buf < pos' + key_len + val_len then undef
           else from_bytes_kvs buf sz (pred_numeral k) (pos' + key_len + val_len)
                  (kvs @ [(bslice pos' key_len buf, bslice (pos' + key_len) val_len buf)]))"
  by (simp only: numeral_eq_Suc [of k] from_bytes_kvs.simps)

text \<open>
  The 19 header bytes are read without a look at \<open>package_size\<close>. The pairs are pushed
  onto whatever \<open>pkg\<close> already holds; on a short package the ones read so far stay.
\<close>

definition from_bytes :: "bytes \<Rightarrow> nat \<Rightarrow> package \<Rightarrow> (nat \<times> package) result" where
  "from_bytes buf sz pkg =
     (if length buf < 19 then undef
      else
        let pkg' = pkg\<lparr>pkg_op := buf ! 0, pkg_table := buf ! 1, pkg_num_kvs := buf ! 2,
                       pkg_key := read_u64 (drop 3 buf),
                       pkg_scan_length := read_u64 (drop 11 buf)\<rparr>
        in rbind (from_bytes_kvs buf sz (unat (pkg_num_kvs pkg')) 19 (kv_pairs pkg'))
             (\<lambda>(pos, kvs). ret (pos, pkg'\<lparr>kv_pairs := kvs\<rparr>)))"

section \<open>The format, as an encoder\<close>

fun encode_kv :: "bytes \<times> bytes \<Rightarrow> bytes" where
  "encode_kv (k, v) = of_nat (length k) # of_nat (length v) # k @ v"

definition encode_kvs :: "(bytes \<times> bytes) list \<Rightarrow> bytes" where
  "encode_kvs kvs = concat (map encode_kv kvs)"

definition encode_header :: "package \<Rightarrow> bytes" where
  "encode_header p =
     [pkg_op p, pkg_table p, pkg_num_kvs p] @ be_bytes 8 (unat (pkg_key p))
     @ be_bytes 8 (unat (pkg_scan_length p))"

definition encode_package :: "package \<Rightarrow> bytes" where
  "encode_package p = encode_header p @ encode_kvs (kv_pairs p)"

text \<open>What the format can carry: the count and every length fit a byte.\<close>

definition short_pair :: "bytes \<times> bytes \<Rightarrow> bool" where
  "short_pair kv \<longleftrightarrow> length (fst kv) < 256 \<and> length (snd kv) < 256"

definition wf_package :: "package \<Rightarrow> bool" where
  "wf_package p \<longleftrightarrow> unat (pkg_num_kvs p) = length (kv_pairs p) \<and> list_all short_pair (kv_pairs p)"

lemma encode_kvs_simps [simp]:
  "encode_kvs [] = []"
  "encode_kvs ((k, v) # kvs) = of_nat (length k) # of_nat (length v) # k @ v @ encode_kvs kvs"
  by (simp_all add: encode_kvs_def)

lemma length_encode_header [simp]: "length (encode_header p) = 19"
  by (simp add: encode_header_def)

lemma length_encode_package: "length (encode_package p) = 19 + length (encode_kvs (kv_pairs p))"
  by (simp add: encode_package_def)

lemma encode_header_kvs_update [simp]: "encode_header (p\<lparr>kv_pairs := kvs\<rparr>) = encode_header p"
  by (simp add: encode_header_def)

section \<open>Eight bytes, big-endian\<close>

lemma be_step_word:
  fixes w :: u64 and b :: u8
  assumes "k < 8"
  shows "push_bit (64 - 8 * k) w OR push_bit (56 - k * 8) (ucast b)
       = push_bit (64 - 8 * Suc k) (w * 256 + ucast b)"
proof -
  have "push_bit 8 w AND ucast b = 0"
    by (rule bit_word_eqI) (auto simp: bit_simps dest: bit_imp_le_length)
  then have "push_bit 8 w + ucast b = push_bit 8 w OR ucast b"
    by (simp add: disjunctive_add_eq_or)
  moreover have "w * 256 = push_bit 8 w" by (simp add: push_bit_eq_mult)
  moreover have "56 - k * 8 + 8 = 64 - 8 * k" "64 - 8 * Suc k = 56 - k * 8" using assms by auto
  ultimately show ?thesis by (simp add: push_bit_or push_bit_push_bit)
qed

lemma read_u64_prefix:
  assumes "k \<le> 8" "8 \<le> length bs"
  shows "fold (\<lambda>i res. res OR push_bit (56 - i * 8) (ucast (bs ! i))) [0..<k] (0 :: u64)
       = push_bit (64 - 8 * k) (of_nat (be_nat (take k bs)))"
  using assms(1)
proof (induction k)
  case (Suc k)
  have "take (Suc k) bs = take k bs @ [bs ! k]"
    using Suc.prems assms(2) by (simp add: take_Suc_conv_app_nth)
  moreover have "(of_nat (unat (bs ! k)) :: u64) = ucast (bs ! k)"
    by (simp add: unsigned_ucast_eq)
  ultimately show ?case
    using Suc be_step_word [of k "of_nat (be_nat (take k bs))" "bs ! k"] by simp
qed simp

lemma unat_read_u64: "8 \<le> length bs \<Longrightarrow> unat (read_u64 bs) = be_nat (take 8 bs)"
  using read_u64_prefix [of 8 bs] be_nat_bound [of "take 8 bs"]
  by (simp add: read_u64_def unat_of_nat)

lemma read_u64_be_bytes [byte_simps]: "read_u64 (be_bytes 8 (unat w) @ rest) = w"
proof -
  have "unat w < 256 ^ 8" using unsigned_less [of w] by simp
  then have "unat (read_u64 (be_bytes 8 (unat w) @ rest)) = unat w"
    by (subst unat_read_u64) (simp_all add: be_nat_be_bytes)
  then show ?thesis by (simp add: word_unat_eq_iff)
qed

lemma be_bytes_read_u64: "8 \<le> length bs \<Longrightarrow> be_bytes 8 (unat (read_u64 bs)) = take 8 bs"
  using be_bytes_be_nat [of "take 8 bs"] by (simp add: unat_read_u64)

section \<open>The decoder and the format\<close>

text \<open>Decoding what the encoder wrote, with any bytes before and behind it.\<close>

lemma from_bytes_kvs_encode:
  assumes "list_all short_pair kvs" "length pre = pos" "pos + length (encode_kvs kvs) \<le> sz"
  shows "from_bytes_kvs (pre @ encode_kvs kvs @ rest) sz (length kvs) pos acc
       = ret (pos + length (encode_kvs kvs), acc @ kvs)"
  using assms
proof (induction kvs arbitrary: pre pos acc)
  case (Cons kv kvs)
  obtain k v where kv: "kv = (k, v)" by (cases kv)
  let ?pre' = "pre @ encode_kv kv"
  have len: "length k < 256" "length v < 256"
    using Cons.prems(1) kv by (auto simp: short_pair_def)
  have "from_bytes_kvs (?pre' @ encode_kvs kvs @ rest) sz (length kvs) (pos + 2 + length k + length v)
          (acc @ [kv])
      = ret (pos + 2 + length k + length v + length (encode_kvs kvs), (acc @ [kv]) @ kvs)"
    using Cons.prems kv by (intro Cons.IH) (auto simp: encode_kvs_def)
  then show ?case
    using Cons.prems len kv by (simp add: nth_append bslice_def unat_of_nat)
qed simp

text \<open>
  What a successful run of the loop has read: well-formed pairs whose encoding is the
  piece of the buffer between the two positions.
\<close>

lemma from_bytes_kvs_sound:
  assumes "from_bytes_kvs buf sz n pos acc = ret (q, acc')" "q \<noteq> 0"
  shows "\<exists>kvs. acc' = acc @ kvs \<and> length kvs = n \<and> list_all short_pair kvs
     \<and> q = pos + length (encode_kvs kvs) \<and> bslice pos (length (encode_kvs kvs)) buf = encode_kvs kvs
     \<and> (0 < n \<longrightarrow> q \<le> sz \<and> q \<le> length buf)"
  using assms
proof (induction n arbitrary: pos acc)
  case 0
  then show ?case by (intro exI [of _ "[]"]) (simp add: bslice_def)
next
  case (Suc n)
  define kl where "kl = unat (buf ! pos)"
  define vl where "vl = unat (buf ! (pos + 1))"
  define k where "k = bslice (pos + 2) kl buf"
  define v where "v = bslice (pos + 2 + kl) vl buf"
  define pos' where "pos' = pos + 2 + kl + vl"
  have bounds: "pos' \<le> sz" "pos' \<le> length buf"
    and run: "from_bytes_kvs buf sz n pos' (acc @ [(k, v)]) = ret (q, acc')"
    using Suc.prems by (auto simp: kl_def vl_def k_def v_def pos'_def Let_def split: if_splits)
  obtain kvs where kvs: "acc' = acc @ [(k, v)] @ kvs" "length kvs = n" "list_all short_pair kvs"
    "q = pos' + length (encode_kvs kvs)" "bslice pos' (length (encode_kvs kvs)) buf = encode_kvs kvs"
    "0 < n \<longrightarrow> q \<le> sz \<and> q \<le> length buf"
    using Suc.IH [OF run Suc.prems(2)] by auto
  have kl: "length k = kl" "length v = vl" "kl < 256" "vl < 256"
    using bounds unsigned_less [of "buf ! pos"] unsigned_less [of "buf ! (pos + 1)"]
    by (auto simp: k_def v_def pos'_def kl_def vl_def)
  have split: "bslice pos (2 + kl + vl + m) buf = buf ! pos # buf ! (pos + 1) # k @ v @ bslice pos' m buf" for m
  proof -
    have "drop pos buf = buf ! pos # buf ! (pos + 1) # drop (pos + 2) buf"
      using bounds by (simp add: pos'_def Cons_nth_drop_Suc)
    then show ?thesis
      by (simp add: bslice_def k_def v_def pos'_def take_add add.assoc)
        (simp add: ac_simps)
  qed
  have "of_nat kl = buf ! pos" "of_nat vl = buf ! (pos + 1)" by (simp_all add: kl_def vl_def)
  then have "bslice pos (length (encode_kvs ((k, v) # kvs))) buf = encode_kvs ((k, v) # kvs)"
    using split [of "length (encode_kvs kvs)"] kvs(5) kl by (simp add: add.assoc)
  moreover have "q = pos + length (encode_kvs ((k, v) # kvs))"
    using kvs(4) kl by (simp add: pos'_def)
  moreover have "q \<le> sz \<and> q \<le> length buf" using kvs bounds by (cases n) auto
  moreover have "short_pair (k, v)" using kl by (simp add: short_pair_def)
  ultimately show ?case
    using kvs by (intro exI [of _ "(k, v) # kvs"]) auto
qed

text \<open>A package cut short: the loop notices at the pair that does not fit.\<close>

lemma from_bytes_kvs_short:
  assumes "list_all short_pair kvs" "length pre = pos" "pos \<le> sz"
    "sz < pos + length (encode_kvs kvs)" "sz \<le> length buf"
    "take sz buf = take sz (pre @ encode_kvs kvs)"
  shows "\<exists>acc'. from_bytes_kvs buf sz (length kvs) pos acc = ret (0, acc')"
  using assms
proof (induction kvs arbitrary: pre pos acc)
  case (Cons kv kvs)
  obtain k v where kv: "kv = (k, v)" by (cases kv)
  define pos' where "pos' = pos + 2 + length k + length v"
  have len: "unat (of_nat (length k) :: u8) = length k" "unat (of_nat (length v) :: u8) = length v"
    using Cons.prems(1) kv by (auto simp: short_pair_def unat_of_nat)
  have nth: "buf ! i = (pre @ encode_kvs (kv # kvs)) ! i" if "i < sz" for i
    using that Cons.prems by (metis nth_take)
  show ?case
  proof (cases "pos' \<le> sz")
    case True
    then have head: "buf ! pos = of_nat (length k)" "buf ! Suc pos = of_nat (length v)"
      using Cons.prems(2) kv by (auto simp: nth pos'_def nth_append)
    have "\<exists>acc'. from_bytes_kvs buf sz (length kvs) pos'
            (acc @ [(bslice (pos + 2) (length k) buf, bslice (pos + 2 + length k) (length v) buf)])
          = ret (0, acc')"
      using Cons.prems True kv
      by (intro Cons.IH [of "pre @ encode_kv kv"]) (auto simp: pos'_def)
    then show ?thesis
      using True Cons.prems kv head len by (simp add: pos'_def Let_def)
  next
    case False
    then show ?thesis
    proof (cases "pos + 2 \<le> sz")
      case True
      then have "buf ! pos = of_nat (length k)" "buf ! Suc pos = of_nat (length v)"
        using Cons.prems(2) kv by (auto simp: nth nth_append)
      then show ?thesis using False True Cons.prems len by (simp add: pos'_def)
    qed simp
  qed
qed simp

text \<open>No read leaves the object as long as \<open>package_size\<close> does not exceed it.\<close>

lemma from_bytes_kvs_total:
  "sz \<le> length buf \<Longrightarrow> \<exists>q acc'. from_bytes_kvs buf sz n pos acc = ret (q, acc')"
  by (induction n arbitrary: pos acc) (auto simp: Let_def)

lemma from_bytes_kvs_pos:
  assumes "from_bytes_kvs buf sz n pos acc = ret (q, acc')" "q \<noteq> 0"
  shows "pos + 2 * n \<le> q"
  using assms
proof (induction n arbitrary: pos acc)
  case (Suc n)
  from Suc.prems Suc.IH show ?case
    by (fastforce simp: Let_def split: if_splits dest!: Suc.IH)
qed simp

text \<open>Whatever the result, the pairs pushed are short and no more than the count.\<close>

lemma from_bytes_kvs_pairs:
  "from_bytes_kvs buf sz n pos acc = ret (q, acc') \<Longrightarrow>
   \<exists>kvs. acc' = acc @ kvs \<and> length kvs \<le> n \<and> list_all short_pair kvs"
proof (induction n arbitrary: pos acc)
  case (Suc n)
  show ?case
  proof (cases "acc' = acc")
    case False
    define kl where "kl = unat (buf ! pos)"
    define vl where "vl = unat (buf ! (pos + 1))"
    define kv where "kv = (bslice (pos + 2) kl buf, bslice (pos + 2 + kl) vl buf)"
    from Suc.prems False have "from_bytes_kvs buf sz n (pos + 2 + kl + vl) (acc @ [kv]) = ret (q, acc')"
      by (auto simp: Let_def kl_def vl_def kv_def split: if_splits)
    from Suc.IH [OF this] obtain kvs where
      "acc' = acc @ kv # kvs" "length kvs \<le> n" "list_all short_pair kvs" by auto
    moreover have "short_pair kv"
      by (simp add: short_pair_def kv_def bslice_def kl_def vl_def min_less_iff_disj)
    ultimately show ?thesis by (intro exI [of _ "kv # kvs"]) simp
  qed simp
qed simp

section \<open>What \<open>from_bytes\<close> computes\<close>

lemma from_bytes_header:
  assumes "19 \<le> length buf"
  shows "encode_header (pkg\<lparr>pkg_op := buf ! 0, pkg_table := buf ! 1, pkg_num_kvs := buf ! 2,
           pkg_key := read_u64 (drop 3 buf), pkg_scan_length := read_u64 (drop 11 buf)\<rparr>) = take 19 buf"
proof -
  have "take 19 buf = take 3 buf @ take 8 (drop 3 buf) @ take 8 (drop 11 buf)"
    using take_add [of 3 16 buf] take_add [of 8 8 "drop 3 buf"] by simp
  moreover have "take 3 buf = [buf ! 0, buf ! 1, buf ! 2]"
    using assms by (intro nth_equalityI) (auto simp: nth_Cons' less_Suc_eq numeral_3_eq_3 numeral_2_eq_2)
  moreover have "8 \<le> length (drop 3 buf)" "8 \<le> length (drop 11 buf)" using assms by simp_all
  ultimately show ?thesis by (simp add: encode_header_def be_bytes_read_u64)
qed

lemma encode_header_inject:
  assumes "encode_header p = encode_header q"
  shows "p\<lparr>kv_pairs := kvs\<rparr> = q\<lparr>kv_pairs := kvs\<rparr>"
proof -
  have be: "a = b \<and> xs = ys" if "be_bytes 8 (unat a) @ xs = be_bytes 8 (unat b) @ ys"
    for a b :: u64 and xs ys
  proof
    from that show "xs = ys" by simp
    from that have "read_u64 (be_bytes 8 (unat a) @ xs) = read_u64 (be_bytes 8 (unat b) @ ys)"
      by (rule arg_cong)
    then show "a = b" by (simp only: read_u64_be_bytes)
  qed
  from assms have fields: "pkg_op p = pkg_op q" "pkg_table p = pkg_table q"
    "pkg_num_kvs p = pkg_num_kvs q"
    and rest: "be_bytes 8 (unat (pkg_key p)) @ be_bytes 8 (unat (pkg_scan_length p))
             = be_bytes 8 (unat (pkg_key q)) @ be_bytes 8 (unat (pkg_scan_length q))"
    by (simp_all add: encode_header_def)
  from be [OF rest] have "pkg_key p = pkg_key q"
    and last: "be_bytes 8 (unat (pkg_scan_length p)) @ [] = be_bytes 8 (unat (pkg_scan_length q)) @ []"
    by simp_all
  with be [OF last] fields show ?thesis by (cases p; cases q) simp
qed

lemma from_bytes_encode:
  assumes "wf_package p" "kv_pairs p0 = []" "length (encode_package p) \<le> sz"
  shows "from_bytes (encode_package p @ rest) sz p0 = ret (length (encode_package p), p)"
proof -
  let ?buf = "encode_package p @ rest"
  let ?p1 = "p0\<lparr>pkg_op := ?buf ! 0, pkg_table := ?buf ! 1, pkg_num_kvs := ?buf ! 2,
                pkg_key := read_u64 (drop 3 ?buf), pkg_scan_length := read_u64 (drop 11 ?buf)\<rparr>"
  have len: "19 \<le> length ?buf" by (simp add: length_encode_package)
  then have "encode_header ?p1 = encode_header p"
    by (subst from_bytes_header) (simp_all add: encode_package_def)
  then have same: "?p1\<lparr>kv_pairs := kvs\<rparr> = p\<lparr>kv_pairs := kvs\<rparr>" for kvs
    by (rule encode_header_inject)
  have num: "pkg_num_kvs ?p1 = pkg_num_kvs p" by (simp add: encode_package_def encode_header_def)
  have "from_bytes_kvs (encode_header p @ encode_kvs (kv_pairs p) @ rest) sz (length (kv_pairs p)) 19 []
      = ret (19 + length (encode_kvs (kv_pairs p)), [] @ kv_pairs p)"
    using assms by (intro from_bytes_kvs_encode) (auto simp: wf_package_def length_encode_package)
  then have "from_bytes_kvs ?buf sz (unat (pkg_num_kvs p)) 19 []
      = ret (length (encode_package p), kv_pairs p)"
    using assms(1) by (simp add: encode_package_def wf_package_def)
  with same [of "kv_pairs p"] num len assms(2) show ?thesis
    by (simp add: from_bytes_def Let_def)
qed

text \<open>
  C5: the decoder inverts the encoder. A well-formed package, written at the start of a
  buffer with anything behind it, is decoded to the same package, and the count returned
  is exactly the length of its encoding, provided \<open>package_size\<close> covers it.
\<close>

theorem from_bytes_roundtrip:
  assumes "wf_package p" "kv_pairs p0 = []" "length (encode_package p) \<le> sz"
  shows "from_bytes (encode_package p @ rest) sz p0 = ret (length (encode_package p), p)"
  using from_bytes_encode [OF assms] .

theorem from_bytes_roundtrip_witness:
  "let p = \<lparr>pkg_op = 1, pkg_table = 0, pkg_num_kvs = 1, pkg_key = 258, pkg_scan_length = 0,
            kv_pairs = [([48], [97, 98])]\<rparr>
   in from_bytes (encode_package p @ [7]) 24 (p\<lparr>kv_pairs := []\<rparr>) = ret (24, p)"
  using from_bytes_roundtrip [where rest = "[7]" and sz = 24 and
      p = "\<lparr>pkg_op = 1, pkg_table = 0, pkg_num_kvs = 1, pkg_key = 258, pkg_scan_length = 0,
            kv_pairs = [([48], [97, 98])]\<rparr>" and
      p0 = "\<lparr>pkg_op = 1, pkg_table = 0, pkg_num_kvs = 1, pkg_key = 258, pkg_scan_length = 0,
            kv_pairs = []\<rparr>"]
  by (simp add: wf_package_def short_pair_def length_encode_package)

lemma from_bytes_inverse:
  assumes "from_bytes buf sz p0 = ret (n, p)" "n \<noteq> 0" "kv_pairs p0 = []"
  shows "wf_package p \<and> n = length (encode_package p) \<and> take n buf = encode_package p"
proof -
  define p1 where "p1 = p0\<lparr>pkg_op := buf ! 0, pkg_table := buf ! 1, pkg_num_kvs := buf ! 2,
                pkg_key := read_u64 (drop 3 buf), pkg_scan_length := read_u64 (drop 11 buf)\<rparr>"
  have len: "19 \<le> length buf" using assms(1) by (simp add: from_bytes_def split: if_splits)
  then have hdr: "encode_header p1 = take 19 buf" unfolding p1_def by (rule from_bytes_header)
  from assms(1,3) len obtain kvs where
    run: "from_bytes_kvs buf sz (unat (pkg_num_kvs p1)) 19 [] = ret (n, kvs)" and p: "p = p1\<lparr>kv_pairs := kvs\<rparr>"
    by (auto simp: from_bytes_def Let_def p1_def rbind_eq_ret)
  from from_bytes_kvs_sound [OF run assms(2)]
  have kvs: "length kvs = unat (pkg_num_kvs p1)" "list_all short_pair kvs"
    "n = 19 + length (encode_kvs kvs)" "bslice 19 (length (encode_kvs kvs)) buf = encode_kvs kvs"
    by auto
  have "take n buf = take 19 buf @ encode_kvs kvs"
    using kvs(3,4) take_slice_append [of 19 buf "length (encode_kvs kvs)"] by simp
  then show ?thesis
    using kvs p hdr len by (simp add: wf_package_def encode_package_def)
qed

lemma from_bytes_wf:
  "from_bytes buf sz p0 = ret (n, p) \<Longrightarrow> n \<noteq> 0 \<Longrightarrow> kv_pairs p0 = [] \<Longrightarrow> wf_package p"
  using from_bytes_inverse by blast

lemma from_bytes_pairs:
  assumes "from_bytes buf sz p0 = ret (n, p)" "kv_pairs p0 = []"
  shows "list_all short_pair (kv_pairs p) \<and> length (kv_pairs p) \<le> unat (pkg_num_kvs p)"
  using assms from_bytes_kvs_pairs [of buf sz "unat (buf ! 2)" 19 "[]"]
  by (auto simp: from_bytes_def Let_def rbind_eq_ret split: if_splits)

text \<open>
  C6: nothing else is accepted. Whatever bytes a package is decoded from, a non-zero
  count means that the package is well formed and that the bytes consumed are its
  encoding, so no two packages are read from the same bytes.
\<close>

theorem from_bytes_sound:
  assumes "from_bytes buf sz p0 = ret (n, p)" "n \<noteq> 0" "kv_pairs p0 = []"
  shows "wf_package p \<and> n = length (encode_package p) \<and> take n buf = encode_package p"
  using from_bytes_inverse [OF assms] .

theorem from_bytes_sound_witness:
  "let buf = [4, 0, 1, 0, 0, 0, 0, 0, 0, 0, 0, 1, 1, 1, 1, 1, 1, 1, 1, 1, 0, 65, 9];
       p = \<lparr>pkg_op = 4, pkg_table = 0, pkg_num_kvs = 1, pkg_key = 0,
            pkg_scan_length = 0x0101010101010101, kv_pairs = [([65], [])]\<rparr>
   in from_bytes buf 23 (p\<lparr>kv_pairs := []\<rparr>) = ret (22, p) \<and> take 22 buf = encode_package p"
proof -
  have "from_bytes [4, 0, 1, 0, 0, 0, 0, 0, 0, 0, 0, 1, 1, 1, 1, 1, 1, 1, 1, 1, 0, 65, 9] 23
      \<lparr>pkg_op = 4, pkg_table = 0, pkg_num_kvs = 1, pkg_key = 0,
       pkg_scan_length = 0x0101010101010101, kv_pairs = []\<rparr>
    = ret (22, \<lparr>pkg_op = 4, pkg_table = 0, pkg_num_kvs = 1, pkg_key = 0,
       pkg_scan_length = 0x0101010101010101, kv_pairs = [([65], [])]\<rparr>)"
    by (simp add: from_bytes_def read_u64_def upt_rec bslice_def)
  from from_bytes_sound [OF this] this show ?thesis by simp
qed

text \<open>
  C12: a package that is cut short is reported as incomplete. If only the first
  \<open>sz\<close> bytes of an encoding have arrived (at least the 19 header bytes, not all of
  it), the count is 0, whatever stale bytes the buffer holds behind them.
\<close>

theorem from_bytes_truncated:
  assumes "wf_package p" "kv_pairs p0 = []" "19 \<le> sz" "sz < length (encode_package p)"
    "sz \<le> length buf" "take sz buf = take sz (encode_package p)"
  shows "\<exists>p'. from_bytes buf sz p0 = ret (0, p')"
proof -
  have "take 19 buf = encode_header p"
  proof -
    have "take 19 (take sz buf) = take 19 (take sz (encode_package p))" using assms(6) by simp
    then show ?thesis using assms(3) by (simp add: min_absorb1 encode_package_def)
  qed
  then have "take 19 buf ! 2 = encode_header p ! 2" by (rule arg_cong)
  then have "buf ! 2 = pkg_num_kvs p" by (simp add: encode_header_def)
  moreover have "\<exists>kvs. from_bytes_kvs buf sz (length (kv_pairs p)) 19 [] = ret (0, kvs)"
    using assms
    by (intro from_bytes_kvs_short [where pre = "encode_header p"])
      (auto simp: wf_package_def encode_package_def)
  ultimately show ?thesis
    using assms by (auto simp: from_bytes_def Let_def wf_package_def)
qed

theorem from_bytes_truncated_witness:
  "\<exists>p'. from_bytes [1, 0, 1, 0, 0, 0, 0, 0, 0, 0, 5, 0, 0, 0, 0, 0, 0, 0, 0, 1, 200] 20
         \<lparr>pkg_op = 0, pkg_table = 0, pkg_num_kvs = 0, pkg_key = 0, pkg_scan_length = 0, kv_pairs = []\<rparr>
       = ret (0, p')"
proof -
  define p where "p = \<lparr>pkg_op = 1, pkg_table = 0, pkg_num_kvs = 1, pkg_key = 5,
          pkg_scan_length = 0, kv_pairs = [([48 :: u8], [97])]\<rparr>"
  have "encode_package p = [1, 0, 1, 0, 0, 0, 0, 0, 0, 0, 5, 0, 0, 0, 0, 0, 0, 0, 0, 1, 1, 48, 97]"
    by (simp add: p_def encode_package_def encode_header_def be_bytes_numeral)
  moreover have "wf_package p" by (simp add: p_def wf_package_def short_pair_def)
  ultimately show ?thesis by (intro from_bytes_truncated [of p]) simp_all
qed

lemma from_bytes_defined:
  assumes "19 \<le> length buf" "sz \<le> length buf"
  shows "\<exists>n p. from_bytes buf sz p0 = ret (n, p) \<and> (n = 0 \<or> 19 \<le> n \<and> n \<le> length buf)"
proof -
  let ?n = "unat (buf ! 2)"
  obtain q kvs where run: "from_bytes_kvs buf sz ?n 19 (kv_pairs p0) = ret (q, kvs)"
    using from_bytes_kvs_total [OF assms(2)] by blast
  have "q = 0 \<or> 19 \<le> q \<and> q \<le> length buf"
  proof (cases "q = 0 \<or> ?n = 0")
    case True
    then show ?thesis using run assms(1) by auto
  next
    case False
    then show ?thesis using from_bytes_kvs_pos [OF run] from_bytes_kvs_sound [OF run] by auto
  qed
  with run assms show ?thesis by (auto simp: from_bytes_def Let_def)
qed

text \<open>
  C13: memory safety and bounds. With a buffer of at least 19 bytes that
  \<open>package_size\<close> does not exceed, decoding reads no byte outside the buffer, always
  returns, and reports 0 or a count of at least 19 that stays inside the buffer.
\<close>

theorem from_bytes_safe:
  assumes "19 \<le> length buf" "sz \<le> length buf"
  shows "\<exists>n p. from_bytes buf sz p0 = ret (n, p) \<and> (n = 0 \<or> 19 \<le> n \<and> n \<le> length buf)"
  using from_bytes_defined [OF assms] .

theorem from_bytes_safe_witness:
  "\<exists>n p. from_bytes (replicate 40 9) 30 (\<lparr>pkg_op = 0, pkg_table = 0, pkg_num_kvs = 0, pkg_key = 0,
         pkg_scan_length = 0, kv_pairs = []\<rparr>) = ret (n, p) \<and> (n = 0 \<or> 19 \<le> n \<and> n \<le> length (replicate 40 (9 :: u8)))"
  by (rule from_bytes_safe) simp_all

text \<open>
  The header is not checked against \<open>package_size\<close>. A package of fewer than 19
  bytes whose third byte is 0 is accepted, and the count returned, 19, is larger than
  the number of bytes it was given; the fields come from whatever the buffer holds.
\<close>

theorem from_bytes_header_unchecked:
  assumes "19 \<le> length buf" "buf ! 2 = 0" "sz < 19"
  shows "\<exists>p. from_bytes buf sz p0 = ret (19, p) \<and> sz < 19 \<and> pkg_key p = read_u64 (bslice 3 8 buf)
       \<and> kv_pairs p = kv_pairs p0"
proof -
  have "read_u64 (drop 3 buf) = read_u64 (bslice 3 8 buf)"
    using assms(1) by (auto simp: word_unat_eq_iff unat_read_u64 bslice_def)
  with assms show ?thesis by (simp add: from_bytes_def Let_def)
qed

theorem from_bytes_header_unchecked_witness:
  "\<exists>p. from_bytes (replicate 8192 0) 1 \<lparr>pkg_op = 0, pkg_table = 0, pkg_num_kvs = 0, pkg_key = 0,
         pkg_scan_length = 0, kv_pairs = []\<rparr> = ret (19, p) \<and> (1 :: nat) < 19
       \<and> pkg_key p = read_u64 (bslice 3 8 (replicate 8192 0)) \<and> kv_pairs p = []"
  using from_bytes_header_unchecked [of "replicate 8192 0" 1 "\<lparr>pkg_op = 0, pkg_table = 0,
         pkg_num_kvs = 0, pkg_key = 0, pkg_scan_length = 0, kv_pairs = []\<rparr>"]
  by simp

end
