(* ===== verification/Posix.thy ===== *)
theory Posix
  imports Prelude
begin

text \<open>
  What the programs use of the operating system's descriptors. The outcome of every
  \<open>read\<close> and \<open>write\<close> is chosen by the kernel: a script lists what the kernel will do,
  and a theorem that holds for every script holds for every behaviour of the kernel.
  A read with an exhausted script blocks for ever. The section ends with the loop
  \<^verbatim>\<open>for(i = 0; i < size; ) i += read(fd, buf + i, size - i)\<close> of
  \<^verbatim>\<open>apps/ycsbserver/tcp_handler.cc\<close>, whose counter is a \<open>size_t\<close> and wraps around.
\<close>

section \<open>Reading\<close>

text \<open>
  \<open>Read_Error\<close>: the call returns -1. \<open>Read_Data bs\<close>: the bytes \<open>bs\<close> are available; a
  call that asks for fewer leaves the others; \<open>Read_Data []\<close> is the end of the input.
\<close>

datatype read_ev = Read_Error | Read_Data bytes

fun os_read :: "read_ev list \<Rightarrow> nat \<Rightarrow> (int \<times> bytes \<times> read_ev list) option" where
  "os_read [] n = None"
| "os_read (Read_Error # es) n = Some (-1, [], es)"
| "os_read (Read_Data bs # es) n =
     Some (int (length (take n bs)), take n bs,
           if length bs \<le> n then es else Read_Data (drop n bs) # es)"

definition ev_size :: "read_ev \<Rightarrow> nat" where
  "ev_size e = (case e of Read_Error \<Rightarrow> 1 | Read_Data bs \<Rightarrow> Suc (length bs))"

definition script_size :: "read_ev list \<Rightarrow> nat" where
  "script_size es = sum_list (map ev_size es)"

lemma os_read_shrinks:
  "os_read es n = Some (r, bs, es') \<Longrightarrow> 0 < n \<Longrightarrow> script_size es' < script_size es"
  by (induction es n rule: os_read.induct) (auto simp: script_size_def ev_size_def split: if_splits)

lemma os_read_progress:
  "os_read es n = Some (r, bs, es') \<Longrightarrow> r \<noteq> 0 \<Longrightarrow> script_size es' < script_size es"
  by (induction es n rule: os_read.induct) (auto simp: script_size_def ev_size_def split: if_splits)

lemma os_read_bounds:
  "os_read es n = Some (r, bs, es') \<Longrightarrow> (r = -1 \<and> bs = []) \<or> (r = int (length bs) \<and> length bs \<le> n)"
  by (induction es n rule: os_read.induct) (auto split: if_splits)

text \<open>A well-behaved stream: no error, no end of file. Its bytes, whatever the chunks.\<close>

definition flowing :: "read_ev list \<Rightarrow> bool" where
  "flowing es \<longleftrightarrow> (\<forall>e \<in> set es. \<exists>bs. e = Read_Data bs \<and> bs \<noteq> [])"

fun ev_bytes :: "read_ev \<Rightarrow> bytes" where
  "ev_bytes Read_Error = []"
| "ev_bytes (Read_Data bs) = bs"

definition stream_of :: "read_ev list \<Rightarrow> bytes" where
  "stream_of es = concat (map ev_bytes es)"

definition no_error :: "read_ev list \<Rightarrow> bool" where
  "no_error es \<longleftrightarrow> Read_Error \<notin> set es"

lemma flowing_simps [simp]:
  "flowing []" "flowing (e # es) \<longleftrightarrow> (\<exists>bs. e = Read_Data bs \<and> bs \<noteq> []) \<and> flowing es"
  by (auto simp: flowing_def)

lemma stream_of_simps [simp]:
  "stream_of [] = []" "stream_of (e # es) = ev_bytes e @ stream_of es"
  by (simp_all add: stream_of_def)

lemma os_read_flowing:
  assumes "os_read es n = Some (r, bs, es')" "flowing es" "0 < n"
  shows "flowing es' \<and> bs \<noteq> [] \<and> stream_of es = bs @ stream_of es'"
  using assms by (cases "(es, n)" rule: os_read.cases) (auto split: if_splits)

lemma os_read_no_error:
  "os_read es n = Some (r, bs, es') \<Longrightarrow> no_error es \<Longrightarrow> no_error es' \<and> 0 \<le> r"
  by (cases "(es, n)" rule: os_read.cases) (auto simp: no_error_def split: if_splits)

section \<open>Writing\<close>

text \<open>
  \<open>out_log\<close> is what the program handed to \<open>write\<close> or \<open>sendto\<close>, one entry per call,
  \<open>out_res\<close> the return values the kernel will give; once they are used up every call
  takes all its bytes.
\<close>

record outchan =
  out_res :: "int list"
  out_log :: "bytes list"

definition os_write :: "outchan \<Rightarrow> bytes \<Rightarrow> int \<times> outchan" where
  "os_write c d =
     (case out_res c of
        [] \<Rightarrow> (int (length d), c\<lparr>out_log := out_log c @ [d]\<rparr>)
      | r # rs \<Rightarrow> (r, c\<lparr>out_res := rs, out_log := out_log c @ [d]\<rparr>))"

lemma os_write_log [simp]: "out_log (snd (os_write c d)) = out_log c @ [d]"
  by (simp add: os_write_def split: list.splits)

lemma os_write_reliable [simp]:
  "out_res c = [] \<Longrightarrow> os_write c d = (int (length d), c\<lparr>out_log := out_log c @ [d]\<rparr>)"
  by (simp add: os_write_def)

section \<open>Filling a buffer from a descriptor\<close>

text \<open>
  The result is the final counter, the buffer and the rest of the script. A failing read
  adds -1 to the counter: at 0 it wraps around to \<open>2 ^ 64 - 1\<close> and the loop ends.
\<close>

function recv_loop :: "u64 \<Rightarrow> u64 \<Rightarrow> bytes \<Rightarrow> read_ev list \<Rightarrow> (u64 \<times> bytes \<times> read_ev list) option" where
  "recv_loop sz i buf es =
     (if i < sz then
        (case os_read es (unat (sz - i)) of
           None \<Rightarrow> None
         | Some (r, bs, es') \<Rightarrow> recv_loop sz (i + of_int r) (write_at (unat i) bs buf) es')
      else Some (i, buf, es))"
  by pat_completeness auto
termination
proof (relation "measure (\<lambda>(sz, i, buf, es). script_size es)")
  fix sz i :: u64 and buf es x y z bs es'
  assume "i < sz" "os_read es (unat (sz - i)) = Some x" "(y, z) = x" "(bs, es') = z"
  moreover from \<open>i < sz\<close> have "0 < unat (sz - i)" by (simp add: unat_gt_0)
  ultimately show "((sz, i + of_int y, write_at (unat i) bs buf, es'), sz, i, buf, es)
       \<in> measure (\<lambda>(sz, i, buf, es). script_size es)"
    using os_read_shrinks [of es "unat (sz - i)" y bs es'] by auto
qed simp

declare recv_loop.simps [simp del]

lemma unat_sub_pos: "i < sz \<Longrightarrow> unat (sz - i) = unat sz - unat (i :: u64)"
  by (simp add: unat_sub less_imp_le)

lemma unat_advance:
  fixes i sz :: u64
  assumes "r = int m" "m \<le> unat sz - unat i"
  shows "unat (i + of_int r) = unat i + m"
proof -
  have "unat sz < 2 ^ LENGTH(64)" "unat i < 2 ^ LENGTH(64)" by (rule unsigned_less)+
  with assms(2) have "unat i + m < 2 ^ 64" by (cases "unat i \<le> unat sz") auto
  then show ?thesis by (simp add: assms(1) unat_word_ariths unat_of_nat)
qed

text \<open>
  Reassembly: from a flowing stream with enough bytes the loop stores exactly the next
  \<open>sz - i\<close> bytes, however the kernel cuts them into chunks, and leaves the others.
\<close>

lemma recv_loop_flowing:
  assumes "flowing es" "i \<le> sz" "unat sz - unat i \<le> length (stream_of es)" "unat sz \<le> length buf"
  shows "\<exists>es'. recv_loop sz i buf es
       = Some (sz, write_at (unat i) (take (unat sz - unat i) (stream_of es)) buf, es')
       \<and> flowing es' \<and> stream_of es' = drop (unat sz - unat i) (stream_of es)"
  using assms
proof (induction sz i buf es rule: recv_loop.induct)
  case (1 sz i buf es)
  show ?case
  proof (cases "i < sz")
    case False
    with "1.prems" have "i = sz" by simp
    with "1.prems" show ?thesis by (intro exI [of _ es]) (simp add: recv_loop.simps [of sz sz buf es])
  next
    case True
    then have pos: "0 < unat sz - unat i" by (simp add: word_less_nat_alt)
    with "1.prems" have "es \<noteq> []" by auto
    with "1.prems"(1) obtain r bs es' where
      rd: "os_read es (unat (sz - i)) = Some (r, bs, es')"
      by (cases es) (auto simp: flowing_def)
    have n: "unat (sz - i) = unat sz - unat i" using True by (rule unat_sub_pos)
    note fl = os_read_flowing [OF rd "1.prems"(1)] os_read_bounds [OF rd]
    have bs: "bs \<noteq> []" "stream_of es = bs @ stream_of es'" "flowing es'" "r = int (length bs)"
      "length bs \<le> unat sz - unat i"
      using fl pos n by auto
    have ui: "unat (i + of_int r) = unat i + length bs"
      using bs(4,5) by (rule unat_advance)
    have "\<exists>es''. recv_loop sz (i + of_int r) (write_at (unat i) bs buf) es'
        = Some (sz, write_at (unat (i + of_int r)) (take (unat sz - unat (i + of_int r)) (stream_of es'))
                      (write_at (unat i) bs buf), es'')
        \<and> flowing es'' \<and> stream_of es'' = drop (unat sz - unat (i + of_int r)) (stream_of es')"
      using "1.prems" True rd bs ui pos
      by (intro "1.IH" [of "(r, bs, es')" r "(bs, es')" bs es']) (auto simp: word_le_nat_alt)
    then show ?thesis
      using True rd bs ui pos "1.prems"
      by (simp add: recv_loop.simps [of sz i buf es] write_at_append)
  qed
qed

text \<open>With too few bytes on the stream the call does not return.\<close>

lemma recv_loop_blocks:
  assumes "flowing es" "i \<le> sz" "length (stream_of es) < unat sz - unat i"
  shows "recv_loop sz i buf es = None"
  using assms
proof (induction sz i buf es rule: recv_loop.induct)
  case (1 sz i buf es)
  then have True: "i < sz" by (simp add: word_less_nat_alt)
  show ?case
  proof (cases "os_read es (unat (sz - i))")
    case (Some x)
    obtain r bs es' where x: "x = (r, bs, es')" by (cases x) auto
    have n: "unat (sz - i) = unat sz - unat i" using True by (rule unat_sub_pos)
    have bs: "stream_of es = bs @ stream_of es'" "flowing es'" "r = int (length bs)"
      "length bs \<le> unat sz - unat i"
      using os_read_flowing [of es "unat (sz - i)" r bs es'] os_read_bounds [of es "unat (sz - i)" r bs es']
        Some x n "1.prems" by auto
    have ui: "unat (i + of_int r) = unat i + length bs"
      using bs(3,4) by (rule unat_advance)
    have "recv_loop sz (i + of_int r) (write_at (unat i) bs buf) es' = None"
      using True Some x bs ui "1.prems"
      by (intro "1.IH" [of x r "(bs, es')" bs es']) (auto simp: word_le_nat_alt)
    then show ?thesis using True Some x by (simp add: recv_loop.simps [of sz i buf es])
  qed (simp add: True recv_loop.simps [of sz i buf es])
qed

text \<open>Without a failing read the counter ends exactly at the size asked for.\<close>

lemma recv_loop_no_error:
  assumes "recv_loop sz i buf es = Some (j, buf', es')" "no_error es" "i \<le> sz" "unat sz \<le> length buf"
  shows "j = sz \<and> no_error es' \<and> length buf' = length buf"
  using assms
proof (induction sz i buf es rule: recv_loop.induct)
  case (1 sz i buf es)
  show ?case
  proof (cases "i < sz")
    case False
    with "1.prems" show ?thesis by (simp add: recv_loop.simps [of sz i buf es])
  next
    case True
    with "1.prems"(1) obtain r bs es1 where rd: "os_read es (unat (sz - i)) = Some (r, bs, es1)"
      and run: "recv_loop sz (i + of_int r) (write_at (unat i) bs buf) es1 = Some (j, buf', es')"
      by (auto simp: recv_loop.simps [of sz i buf es] split: option.splits)
    have n: "unat (sz - i) = unat sz - unat i" using True by (rule unat_sub_pos)
    have bs: "r = int (length bs)" "length bs \<le> unat sz - unat i" "no_error es1"
      using os_read_no_error [OF rd "1.prems"(2)] os_read_bounds [OF rd] n by auto
    have ui: "unat (i + of_int r) = unat i + length bs"
      using bs(1,2) by (rule unat_advance)
    have "j = sz \<and> no_error es' \<and> length buf' = length (write_at (unat i) bs buf)"
      using True rd run bs ui "1.prems"
      by (intro "1.IH" [of "(r, bs, es1)" r "(bs, es1)" bs es1])
        (auto simp: word_le_nat_alt word_less_nat_alt)
    then show ?thesis
      using bs True "1.prems"(4) by (simp add: word_less_nat_alt)
  qed
qed

text \<open>A read that fails before the first byte ends the loop; the end of the input does not.\<close>

lemma recv_loop_first_error:
  "0 < sz \<Longrightarrow> recv_loop sz 0 buf (Read_Error # es) = Some (-1, buf, es)"
  by (simp add: recv_loop.simps [of sz 0] recv_loop.simps [of sz "-1"] word_gt_0)

lemma recv_loop_eof:
  "i < sz \<Longrightarrow> recv_loop sz i buf (replicate n (Read_Data [])) = None"
  by (induction n) (simp_all add: recv_loop.simps [of sz i])

end
