(* ===== verification/Op_Handler.thy ===== *)
theory Op_Handler
  imports Wire Posix
begin

text \<open>
  The class \<open>OpHandler\<close> of \<^verbatim>\<open>apps/ycsbserver/handler.h\<close>: the result of \<open>receive\<close>, the
  shared method \<open>respond\<close> of \<^verbatim>\<open>apps/ycsbserver/handler.cc\<close> over the virtual \<open>send\<close>, and
  the interface itself as a locale, which the TCP and the UDP handler interpret and the
  server's main loop is a client of.
\<close>

section \<open>Results of receive\<close>

datatype recv_result = READY | INCOMPLETE | STOP

section \<open>respond\<close>

text \<open>
  The payload loop sends chunks of the zeroed 1024-byte buffer. \<open>snd\<close> is the handler's
  \<open>send\<close>; a short or failed call makes \<open>respond\<close> give up.
\<close>

function respond_loop :: "('h \<Rightarrow> bytes \<Rightarrow> int \<times> 'h) \<Rightarrow> nat \<Rightarrow> 'h \<Rightarrow> bool \<times> 'h" where
  "respond_loop send n h =
     (if 0 < n then
        let amount = (if n < 1024 then n else 1024);
            (r, h') = send h (replicate amount 0)
        in if r \<noteq> int amount then (False, h') else respond_loop send (n - amount) h'
      else (True, h))"
  by pat_completeness auto
termination
  by (relation "measure (\<lambda>(send, n, h). n)") auto

declare respond_loop.simps [simp del]

definition respond :: "('h \<Rightarrow> bytes \<Rightarrow> int \<times> 'h) \<Rightarrow> u64 \<Rightarrow> 'h \<Rightarrow> bool \<times> 'h" where
  "respond send n h =
     (let (r, h') = send h (be_bytes 8 (unat n))
      in if r \<noteq> 8 then (False, h') else respond_loop send (unat n) h')"

section \<open>What a response looks like\<close>

text \<open>
  The client reads an 8-byte big-endian length and then that many bytes: the abstract
  response. \<open>response_writes\<close> lists the calls that produce it.
\<close>

definition response_bytes :: "nat \<Rightarrow> bytes" where
  "response_bytes n = be_bytes 8 n @ replicate n 0"

definition payload_writes :: "nat \<Rightarrow> bytes list" where
  "payload_writes n = replicate (n div 1024) (replicate 1024 0)
     @ (if n mod 1024 = 0 then [] else [replicate (n mod 1024) 0])"

definition response_writes :: "nat \<Rightarrow> bytes list" where
  "response_writes n = be_bytes 8 n # payload_writes n"

lemma payload_writes_step:
  assumes "0 < n"
  shows "payload_writes n
       = replicate (min n 1024) 0 # payload_writes (n - min n 1024)"
proof (cases "n < 1024")
  case True
  with assms show ?thesis by (simp add: payload_writes_def)
next
  case False
  then have "n div 1024 = Suc ((n - 1024) div 1024)" "n mod 1024 = (n - 1024) mod 1024"
    by (simp_all add: le_div_geq le_mod_geq)
  with False show ?thesis by (simp add: payload_writes_def)
qed

lemma payload_writes_0 [simp]: "payload_writes 0 = []"
  by (simp add: payload_writes_def)

lemma concat_replicate_zero: "concat (replicate k (replicate m x)) = replicate (k * m) x"
  by (induction k) (simp_all add: replicate_add)

lemma concat_payload_writes: "concat (payload_writes n) = replicate n 0"
proof -
  have "n div 1024 * 1024 + n mod 1024 = n" by simp
  then show ?thesis
    by (cases "n mod 1024 = 0")
      (simp_all add: payload_writes_def concat_replicate_zero flip: replicate_add)
qed

lemma concat_response_writes: "concat (response_writes n) = response_bytes n"
  by (simp add: response_writes_def response_bytes_def concat_payload_writes)

lemma length_payload_writes: "length (payload_writes n) = (n + 1023) div 1024"
proof -
  define q r where "q = n div 1024" and "r = n mod 1024"
  have n: "n = r + q * 1024" and r: "r < 1024" by (simp_all add: q_def r_def)
  have "(n + 1023) div 1024 = q + (r + 1023) div 1024" by (simp add: n add.assoc [symmetric] add.commute)
  moreover have "(r + 1023) div 1024 = (if r = 0 then 0 else 1)"
    using r by (auto intro: div_nat_eqI)
  ultimately show ?thesis by (simp add: payload_writes_def q_def r_def)
qed

lemma payload_writes_small: "w \<in> set (payload_writes n) \<Longrightarrow> length w \<le> 1024"
  by (auto simp: payload_writes_def split: if_splits)

section \<open>Using a handler\<close>

text \<open>The handlers reached from one by any sequence of calls of the virtual methods.\<close>

inductive handler_reach ::
  "('h \<Rightarrow> package \<Rightarrow> (recv_result \<times> package \<times> 'h) result) \<Rightarrow> ('h \<Rightarrow> bytes \<Rightarrow> int \<times> 'h) \<Rightarrow> ('h \<Rightarrow> 'h) \<Rightarrow> 'h \<Rightarrow> 'h \<Rightarrow> bool"
  for recv send reset h0
where
  hr_start: "handler_reach recv send reset h0 h0"
| hr_recv: "handler_reach recv send reset h0 h \<Longrightarrow> recv h pkg = ret (r, pkg', h') \<Longrightarrow> handler_reach recv send reset h0 h'"
| hr_send: "handler_reach recv send reset h0 h \<Longrightarrow> send h d = (r, h') \<Longrightarrow> handler_reach recv send reset h0 h'"
| hr_reset: "handler_reach recv send reset h0 h \<Longrightarrow> handler_reach recv send reset h0 (reset h)"

section \<open>The interface\<close>

text \<open>
  \<open>recv\<close>, \<open>send\<close> and \<open>reset\<close> are the virtual methods, \<open>inv\<close> the representation
  invariant of the concrete class and \<open>sent\<close> the data handed to the kernel so far. The
  laws: every method keeps the invariant; output is only appended, by \<open>send\<close> exactly its
  argument; and a package that is \<open>READY\<close> carries no pair longer than its length bytes
  allow and no more pairs than its count byte says.
\<close>

locale op_handler =
  fixes recv :: "'h \<Rightarrow> package \<Rightarrow> (recv_result \<times> package \<times> 'h) result"
    and send :: "'h \<Rightarrow> bytes \<Rightarrow> int \<times> 'h"
    and reset :: "'h \<Rightarrow> 'h"
    and inv :: "'h \<Rightarrow> bool"
    and sent :: "'h \<Rightarrow> bytes list"
  assumes recv_inv: "inv h \<Longrightarrow> recv h pkg = ret (r, pkg', h') \<Longrightarrow> inv h'"
    and send_inv: "inv h \<Longrightarrow> inv (snd (send h d))"
    and reset_inv: "inv h \<Longrightarrow> inv (reset h)"
    and send_log: "sent (snd (send h d)) = sent h @ [d]"
    and reset_log: "sent (reset h) = sent h"
    and recv_log: "inv h \<Longrightarrow> recv h pkg = ret (r, pkg', h') \<Longrightarrow> \<exists>ds. sent h' = sent h @ ds"
    and recv_ready: "inv h \<Longrightarrow> kv_pairs pkg = [] \<Longrightarrow> recv h pkg = ret (READY, pkg', h') \<Longrightarrow>
          list_all short_pair (kv_pairs pkg') \<and> length (kv_pairs pkg') \<le> unat (pkg_num_kvs pkg')"
begin

lemma send_log': "send h d = (r, h') \<Longrightarrow> sent h' = sent h @ [d]"
  using send_log [of h d] by simp

text \<open>The invariant may fix a part \<open>k\<close> of the state that no method changes.\<close>

lemma op_handler_keeps:
  assumes "\<And>h pkg r pkg' h'. recv h pkg = ret (r, pkg', h') \<Longrightarrow> k h' = k h"
    "\<And>h d. k (snd (send h d)) = k h" "\<And>h. k (reset h) = k h"
  shows "op_handler recv send reset (\<lambda>h. inv h \<and> k h = c) sent"
proof
  fix h pkg r pkg' h'
  assume "inv h \<and> k h = c" "recv h pkg = ret (r, pkg', h')"
  then show "inv h' \<and> k h' = c" "\<exists>ds. sent h' = sent h @ ds"
    using recv_inv [of h pkg r pkg' h'] recv_log [of h pkg r pkg' h'] assms(1) [of h pkg r pkg' h'] by auto
qed (use send_inv reset_inv send_log reset_log recv_ready assms in auto)

lemma reach_typed:
  "handler_reach recv send reset h0 h \<Longrightarrow> inv h0 \<Longrightarrow> inv h \<and> (\<exists>ds. sent h = sent h0 @ ds)"
proof (induction rule: handler_reach.induct)
  case (hr_recv h pkg r pkg' h')
  then have inv: "inv h" by blast
  from recv_inv [OF inv hr_recv.hyps(2)] recv_log [OF inv hr_recv.hyps(2)] hr_recv show ?case by auto
next
  case (hr_send h d r h')
  then have "inv h" by blast
  from send_inv [OF this, of d] send_log' [OF hr_send.hyps(2)] hr_send show ?case by auto
next
  case (hr_reset h)
  then show ?case using reset_inv [of h] reset_log [of h] by auto
qed simp

lemma respond_loop_inv: "inv h \<Longrightarrow> inv (snd (respond_loop send n h))"
proof (induction n arbitrary: h rule: less_induct)
  case (less n)
  show ?case
  proof (cases "0 < n")
    case True
    obtain r h' where s: "send h (replicate (min n 1024) 0) = (r, h')" by fastforce
    then have "inv h'" using send_inv [OF less.prems, of "replicate (min n 1024) 0"] by simp
    with less.IH [of "n - min n 1024" h'] True s less.prems show ?thesis
      by (auto simp: respond_loop.simps [of send n h] Let_def min_def split: if_splits)
  next
    case False
    then show ?thesis by (simp add: less.prems respond_loop.simps [of send 0 h])
  qed
qed

lemma respond_inv: "inv h \<Longrightarrow> inv (snd (respond send n h))"
proof -
  assume h: "inv h"
  obtain r h' where s: "send h (be_bytes 8 (unat n)) = (r, h')" by fastforce
  then have "inv h'" using send_inv [OF h, of "be_bytes 8 (unat n)"] by simp
  then show ?thesis using s by (simp add: respond_def respond_loop_inv)
qed

text \<open>What a response leaves in the log: a prefix of its writes, all of them on success.\<close>

lemma respond_loop_log:
  "respond_loop send n h = (ok, h') \<Longrightarrow>
   \<exists>k. sent h' = sent h @ take k (payload_writes n) \<and> (ok \<longrightarrow> length (payload_writes n) \<le> k)"
proof (induction n arbitrary: h rule: less_induct)
  case (less n)
  show ?case
  proof (cases "0 < n")
    case True
    obtain r h1 where s: "send h (replicate (min n 1024) 0) = (r, h1)" by fastforce
    note log = send_log' [OF s]
    show ?thesis
    proof (cases "r = int (min n 1024)")
      case False
      then have "ok = False" "h' = h1"
        using less.prems True s
        by (auto simp: respond_loop.simps [of send n h] Let_def min_def split: if_splits)
      with log True show ?thesis
        by (intro exI [of _ 1]) (simp add: payload_writes_step)
    next
      case r: True
      then have "respond_loop send (n - min n 1024) h1 = (ok, h')"
        using less.prems True s
        by (auto simp: respond_loop.simps [of send n h] Let_def min_def split: if_splits)
      from less.IH [OF _ this] True obtain k where
        "sent h' = sent h1 @ take k (payload_writes (n - min n 1024))"
        "ok \<longrightarrow> length (payload_writes (n - min n 1024)) \<le> k" by auto
      with log True show ?thesis
        by (intro exI [of _ "Suc k"]) (simp add: payload_writes_step [of n])
    qed
  next
    case False
    with less.prems show ?thesis
      by (intro exI [of _ 0]) (simp add: respond_loop.simps [of send n h])
  qed
qed

lemma respond_log:
  assumes "respond send n h = (ok, h')"
  shows "\<exists>k. sent h' = sent h @ take k (response_writes (unat n))
     \<and> (ok \<longrightarrow> length (response_writes (unat n)) \<le> k)"
proof -
  obtain r h1 where s: "send h (be_bytes 8 (unat n)) = (r, h1)" by fastforce
  note log = send_log' [OF s]
  show ?thesis
  proof (cases "r = 8")
    case True
    with assms s have "respond_loop send (unat n) h1 = (ok, h')" by (simp add: respond_def)
    from respond_loop_log [OF this] obtain k where
      "sent h' = sent h1 @ take k (payload_writes (unat n))"
      "ok \<longrightarrow> length (payload_writes (unat n)) \<le> k" by blast
    with log show ?thesis by (intro exI [of _ "Suc k"]) (simp add: response_writes_def)
  next
    case False
    with assms s log show ?thesis
      by (intro exI [of _ 1]) (auto simp: respond_def response_writes_def)
  qed
qed

lemma respond_ok_log:
  "respond send n h = (True, h') \<Longrightarrow> sent h' = sent h @ response_writes (unat n)"
  using respond_log [of n h True h'] by auto

end

section \<open>A handler with work to deliver\<close>

text \<open>\<open>n\<close> calls of \<open>receive\<close> in a row, each on a fresh package, and what they return.\<close>

fun recv_seq ::
  "('h \<Rightarrow> package \<Rightarrow> (recv_result \<times> package \<times> 'h) result) \<Rightarrow> package \<Rightarrow> nat \<Rightarrow> 'h
     \<Rightarrow> ((recv_result \<times> package) list \<times> 'h) result"
where
  "recv_seq recv p0 0 h = ret ([], h)"
| "recv_seq recv p0 (Suc n) h =
     rbind (recv h p0) (\<lambda>(r, p, h'). rbind (recv_seq recv p0 n h') (\<lambda>(rs, h''). ret ((r, p) # rs, h'')))"

text \<open>
  \<open>feeds h ps\<close>: the handler will deliver the packages \<open>ps\<close>, in that order, and then
  \<open>STOP\<close>; sending does not change it. The two handlers establish it from the bytes of the
  connection and of the workload file, and the main loop is verified against it.
\<close>

locale op_feed = op_handler +
  fixes feeds :: "'a \<Rightarrow> package list \<Rightarrow> bool"
  assumes feeds_Cons: "feeds h (p # ps) \<Longrightarrow> kv_pairs p0 = [] \<Longrightarrow>
            \<exists>h'. recv h p0 = ret (READY, p, h') \<and> feeds h' ps"
    and feeds_Nil: "feeds h [] \<Longrightarrow> \<exists>h'. recv h p0 = ret (STOP, p0, h')"
    and feeds_send: "feeds h ps \<Longrightarrow> feeds (snd (send h d)) ps"
    and feeds_inv: "feeds h ps \<Longrightarrow> inv h"
begin

lemma recv_seq_feeds:
  "feeds h ps \<Longrightarrow> kv_pairs p0 = [] \<Longrightarrow>
   \<exists>h' h''. recv_seq recv p0 (length ps) h = ret (map (Pair READY) ps, h') \<and> recv h' p0 = ret (STOP, p0, h'')"
proof (induction ps arbitrary: h)
  case Nil
  then show ?case using feeds_Nil by simp
next
  case (Cons p ps)
  from feeds_Cons [OF Cons.prems] obtain h1 where h1: "recv h p0 = ret (READY, p, h1)" "feeds h1 ps"
    by blast
  from Cons.IH [OF h1(2) Cons.prems(2)] h1(1) show ?case by auto
qed

lemma feeds_send': "feeds h ps \<Longrightarrow> send h d = (r, h') \<Longrightarrow> feeds h' ps"
  using feeds_send [of h ps d] by simp

lemma feeds_respond_loop: "feeds h ps \<Longrightarrow> feeds (snd (respond_loop send n h)) ps"
proof (induction n arbitrary: h rule: less_induct)
  case (less n)
  show ?case
  proof (cases "0 < n")
    case True
    obtain r h' where s: "send h (replicate (min n 1024) 0) = (r, h')" by fastforce
    then have "feeds h' ps" using feeds_send' [OF less.prems] by blast
    with less.IH [of "n - min n 1024" h'] True s less.prems show ?thesis
      by (auto simp: respond_loop.simps [of send n h] Let_def min_def split: if_splits)
  next
    case False
    then show ?thesis by (simp add: less.prems respond_loop.simps [of send 0 h])
  qed
qed

lemma feeds_respond: "feeds h ps \<Longrightarrow> feeds (snd (respond send n h)) ps"
proof -
  assume h: "feeds h ps"
  obtain r h' where s: "send h (be_bytes 8 (unat n)) = (r, h')" by fastforce
  with feeds_send' [OF h] show ?thesis by (simp add: respond_def feeds_respond_loop)
qed

lemma feeds_respond': "feeds h ps \<Longrightarrow> respond send n h = (ok, h') \<Longrightarrow> feeds h' ps"
  using feeds_respond [of h ps n] by simp

end

section \<open>A handler with work to deliver and a channel that takes its output\<close>

text \<open>
  \<open>link h ps echo\<close>: the handler delivers the packages \<open>ps\<close>, \<open>receive\<close> itself sends
  \<open>echo p\<close> when it delivers \<open>p\<close>, and every send is taken in full.
\<close>

locale op_link = op_feed +
  fixes link :: "'a \<Rightarrow> package list \<Rightarrow> (package \<Rightarrow> bytes list) \<Rightarrow> bool"
  assumes link_Cons: "link h (p # ps) echo \<Longrightarrow> kv_pairs p0 = [] \<Longrightarrow>
            \<exists>h'. recv h p0 = ret (READY, p, h') \<and> link h' ps echo \<and> sent h' = sent h @ echo p"
    and link_Nil: "link h [] echo \<Longrightarrow> \<exists>h'. recv h p0 = ret (STOP, p0, h') \<and> sent h' = sent h"
    and link_send: "link h ps echo \<Longrightarrow> \<exists>h'. send h d = (int (length d), h') \<and> link h' ps echo"
begin

lemma link_respond_loop: "link h ps echo \<Longrightarrow> \<exists>h'. respond_loop send n h = (True, h') \<and> link h' ps echo"
proof (induction n arbitrary: h rule: less_induct)
  case (less n)
  show ?case
  proof (cases "0 < n")
    case True
    obtain h1 where "send h (replicate (min n 1024) 0) = (int (min n 1024), h1)" "link h1 ps echo"
      using link_send [OF less.prems, of "replicate (min n 1024) 0"] by auto
    with less.IH [of "n - min n 1024" h1] True show ?thesis
      by (auto simp: respond_loop.simps [of send n h] Let_def min_def split: if_splits)
  next
    case False
    then show ?thesis by (simp add: less.prems respond_loop.simps [of send 0 h])
  qed
qed

lemma link_respond:
  assumes "link h ps echo"
  shows "\<exists>h'. respond send n h = (True, h') \<and> link h' ps echo \<and> sent h' = sent h @ response_writes (unat n)"
proof -
  obtain h1 where s: "send h (be_bytes 8 (unat n)) = (8, h1)" "link h1 ps echo"
    using link_send [OF assms, of "be_bytes 8 (unat n)"] by auto
  then obtain h' where "respond send n h = (True, h')" "link h' ps echo"
    using link_respond_loop [of h1 ps echo "unat n"] by (auto simp: respond_def)
  with respond_ok_log show ?thesis by blast
qed

end

end
