(* ===== verification/Tcp_Handler.thy ===== *)
theory Tcp_Handler
  imports Op_Handler
begin

text \<open>
  The class \<open>TCPOpHandler\<close> of \<^verbatim>\<open>apps/ycsbserver/tcp_handler.cc\<close>: construction,
  \<open>send\<close>, the framed \<open>receive\<close> over the static 8 KiB \<open>package_buffer\<close>, and its
  interpretation of the handler interface. The members \<open>_lfd\<close> and \<open>_cfd\<close> are kept with
  the kernel's side of the connection: what will arrive (\<open>tcp_in\<close>) and what was sent.
\<close>

section \<open>State and construction\<close>

record tcp =
  tcp_lfd :: int
  tcp_cfd :: int
  tcp_buf :: bytes
  tcp_in :: "read_ev list"
  tcp_out :: outchan

abbreviation package_buffer_size :: nat where
  "package_buffer_size \<equiv> 8192"

text \<open>
  The arguments: the result of \<open>socket\<close>, that of \<open>bind\<close> for each port of the machine, the
  port, and the results of \<open>listen\<close> and \<open>accept\<close>. Only \<open>bind\<close> and \<open>listen\<close> are looked at;
  \<open>htons\<close> takes the port to 16 bits. The static buffer starts zeroed.
\<close>

definition tcp_open ::
  "int \<Rightarrow> (16 word \<Rightarrow> int) \<Rightarrow> int \<Rightarrow> int \<Rightarrow> int \<Rightarrow> read_ev list \<Rightarrow> outchan \<Rightarrow> tcp result"
where
  "tcp_open sock_fd bind_res port listen_res conn_fd input out =
     (if bind_res (of_int port) = -1 then throw Runtime_Error
      else if listen_res = -1 then throw Runtime_Error
      else ret \<lparr>tcp_lfd = sock_fd, tcp_cfd = conn_fd, tcp_buf = replicate package_buffer_size 0,
                tcp_in = input, tcp_out = out\<rparr>)"

definition tcp_send :: "tcp \<Rightarrow> bytes \<Rightarrow> int \<times> tcp" where
  "tcp_send h d = (let (r, c) = os_write (tcp_out h) d in (r, h\<lparr>tcp_out := c\<rparr>))"

section \<open>receive\<close>

text \<open>
  The header union is uninitialised. Its loop runs until all four bytes are there, unless
  a read fails at offset 0: then the counter wraps around and the loop ends with at least
  the last byte never written, and reading \<open>header_word\<close> is undefined. The second loop
  has no such problem, its buffer is static: there a failed read means a stale package.
\<close>

definition tcp_receive :: "tcp \<Rightarrow> package \<Rightarrow> (recv_result \<times> package \<times> tcp) result" where
  "tcp_receive h pkg =
     (case recv_loop 4 0 [0, 0, 0, 0] (tcp_in h) of
        None \<Rightarrow> never
      | Some (i, header_bytes, es) \<Rightarrow>
          if i \<noteq> 4 then undef
          else
            let package_size = (of_nat (be_nat header_bytes) :: u32)
            in if unat package_size > package_buffer_size then ret (STOP, pkg, h\<lparr>tcp_in := es\<rparr>)
               else
                 (case recv_loop (ucast package_size) 0 (tcp_buf h) es of
                    None \<Rightarrow> never
                  | Some (_, buf, es') \<Rightarrow>
                      let h' = h\<lparr>tcp_buf := buf, tcp_in := es'\<rparr>
                      in if package_size = 6 \<and> take 6 buf = ascii ''ENDNOW'' then ret (STOP, pkg, h')
                         else rbind (from_bytes buf (unat package_size) pkg)
                                (\<lambda>(n, pkg'). ret (if n = 0 then INCOMPLETE else READY, pkg', h'))))"

text \<open>\<open>TCPOpHandler\<close> does not override \<open>reset\<close>.\<close>

definition tcp_reset :: "tcp \<Rightarrow> tcp" where
  "tcp_reset h = h"

text \<open>The destructor: the descriptors it closes.\<close>

definition tcp_destroy :: "tcp \<Rightarrow> int list" where
  "tcp_destroy h = [tcp_cfd h, tcp_lfd h]"

definition tcp_inv :: "tcp \<Rightarrow> bool" where
  "tcp_inv h \<longleftrightarrow> length (tcp_buf h) = package_buffer_size"

definition tcp_sent :: "tcp \<Rightarrow> bytes list" where
  "tcp_sent h = out_log (tcp_out h)"

section \<open>The handler interface\<close>

lemma recv_loop_length:
  assumes "recv_loop sz i buf es = Some (j, buf', es')" "unat sz \<le> length buf"
  shows "length buf' = length buf"
  using assms
proof (induction sz i buf es rule: recv_loop.induct)
  case (1 sz i buf es)
  show ?case
  proof (cases "i < sz")
    case False
    with "1.prems" show ?thesis by (simp add: recv_loop.simps [of sz i buf es])
  next
    case True
    with "1.prems"(1) obtain r bs es1 where rd: "os_read es (unat (sz - i)) = Some (r, bs, es1)"
      and run: "recv_loop sz (i + of_int r) (write_at (unat i) bs buf) es1 = Some (j, buf', es')"
      by (auto simp: recv_loop.simps [of sz i buf es] split: option.splits)
    have "unat i + length bs \<le> length buf"
      using os_read_bounds [OF rd] True "1.prems"(2)
      by (auto simp: unat_sub_pos [OF True] word_less_nat_alt)
    with "1.IH" [OF True rd refl refl run] "1.prems"(2) show ?thesis by simp
  qed
qed

lemma tcp_receive_cases:
  assumes "tcp_receive h pkg = ret (r, pkg', h')"
  shows "tcp_out h' = tcp_out h" "tcp_inv h \<Longrightarrow> tcp_inv h'"
    "r = READY \<Longrightarrow> \<exists>buf sz n. from_bytes buf sz pkg = ret (n, pkg') \<and> n \<noteq> 0"
  using assms recv_loop_length [of _ 0 "tcp_buf h"]
  by (auto simp: tcp_receive_def tcp_inv_def Let_def rbind_eq_ret
      split: option.splits if_splits prod.splits)

interpretation tcp_op: op_handler tcp_receive tcp_send tcp_reset tcp_inv tcp_sent
proof
  fix h :: tcp and d
  show "tcp_inv h \<Longrightarrow> tcp_inv (snd (tcp_send h d))"
    by (simp add: tcp_send_def tcp_inv_def split: prod.splits)
  show "tcp_sent (snd (tcp_send h d)) = tcp_sent h @ [d]"
    using os_write_log [of "tcp_out h" d]
    by (auto simp: tcp_send_def tcp_sent_def simp del: os_write_log split: prod.splits)
  show "tcp_inv h \<Longrightarrow> tcp_inv (tcp_reset h)" "tcp_sent (tcp_reset h) = tcp_sent h"
    by (simp_all add: tcp_reset_def)
next
  fix h pkg r pkg' h'
  assume run: "tcp_receive h pkg = ret (r, pkg', h')"
  show "tcp_inv h \<Longrightarrow> tcp_inv h'" using tcp_receive_cases(2) [OF run] .
  show "\<exists>ds. tcp_sent h' = tcp_sent h @ ds"
    using tcp_receive_cases(1) [OF run] by (simp add: tcp_sent_def)
next
  fix h pkg pkg' h'
  assume run: "tcp_receive h pkg = ret (READY, pkg', h')" and empty: "kv_pairs pkg = []"
  from tcp_receive_cases(3) [OF run] obtain buf sz n
    where "from_bytes buf sz pkg = ret (n, pkg')" "n \<noteq> 0" by blast
  then have "wf_package pkg'" using empty by (rule from_bytes_wf)
  then show "list_all short_pair (kv_pairs pkg') \<and> length (kv_pairs pkg') \<le> unat (pkg_num_kvs pkg')"
    by (simp add: wf_package_def)
qed

text \<open>No method replaces the descriptors.\<close>

lemma tcp_destroy_kept:
  "tcp_receive h pkg = ret (r, pkg', h') \<Longrightarrow> tcp_destroy h' = tcp_destroy h"
  "tcp_destroy (snd (tcp_send h d)) = tcp_destroy h" "tcp_destroy (tcp_reset h) = tcp_destroy h"
  by (auto simp: tcp_receive_def tcp_send_def tcp_reset_def tcp_destroy_def rbind_eq_ret Let_def
      split: option.splits if_splits prod.splits)

interpretation tcp_fds: op_handler tcp_receive tcp_send tcp_reset "\<lambda>h. tcp_inv h \<and> tcp_destroy h = fds" tcp_sent
  by (rule tcp_op.op_handler_keeps) (fact tcp_destroy_kept)+

lemma tcp_open_ret:
  assumes "tcp_open s b p l c es out = ret h"
  shows "tcp_inv h \<and> tcp_sent h = out_log out \<and> tcp_destroy h = [c, s]"
  using assms by (auto simp: tcp_open_def tcp_inv_def tcp_sent_def tcp_destroy_def split: if_splits)

section \<open>Framing\<close>

text \<open>A frame is a 4-byte big-endian length and then the body.\<close>

definition frame :: "bytes \<Rightarrow> bytes" where
  "frame body = be_bytes 4 (length body) @ body"

lemma recv_header:
  assumes "flowing es" "stream_of es = be_bytes 4 n @ behind" "n < 2 ^ 32"
  shows "\<exists>es'. recv_loop 4 0 [0, 0, 0, 0] es = Some (4, be_bytes 4 n, es')
       \<and> flowing es' \<and> stream_of es' = behind"
proof -
  have "\<exists>es'. recv_loop 4 0 [0, 0, 0, 0] es
      = Some (4, write_at (unat (0 :: u64)) (take (unat (4 :: u64) - unat (0 :: u64)) (stream_of es)) [0, 0, 0, 0], es')
      \<and> flowing es' \<and> stream_of es' = drop (unat (4 :: u64) - unat (0 :: u64)) (stream_of es)"
    using assms by (intro recv_loop_flowing) auto
  then show ?thesis using assms(2) by (auto simp: write_at_def)
qed

lemma recv_body:
  fixes sz :: u32
  assumes "flowing es" "stream_of es = body @ behind" "length body = unat sz" "unat sz \<le> length buf"
  shows "\<exists>es'. recv_loop (ucast sz) 0 buf es
       = Some (ucast sz, body @ drop (length body) buf, es') \<and> flowing es' \<and> stream_of es' = behind"
proof -
  have "\<exists>es'. recv_loop (ucast sz) 0 buf es
      = Some (ucast sz, write_at (unat (0 :: u64)) (take (unat (ucast sz :: u64) - unat (0 :: u64)) (stream_of es)) buf, es')
      \<and> flowing es' \<and> stream_of es' = drop (unat (ucast sz :: u64) - unat (0 :: u64)) (stream_of es)"
    using assms by (intro recv_loop_flowing) auto
  then show ?thesis using assms(2,3) by (auto simp: write_at_def)
qed

text \<open>
  One frame: whatever the chunks, the body lands at the start of the package buffer, the
  stream moves on to the next frame, and the body decides the result.
\<close>

lemma tcp_receive_frame:
  assumes "tcp_inv h" "flowing (tcp_in h)" "stream_of (tcp_in h) = frame body @ behind"
    "length body \<le> package_buffer_size"
  defines "buf \<equiv> body @ drop (length body) (tcp_buf h)"
  shows "\<exists>es. flowing es \<and> stream_of es = behind \<and> length buf = package_buffer_size
     \<and> tcp_receive h pkg =
         (if body = ascii ''ENDNOW'' then ret (STOP, pkg, h\<lparr>tcp_buf := buf, tcp_in := es\<rparr>)
          else rbind (from_bytes buf (length body) pkg)
            (\<lambda>(n, pkg'). ret (if n = 0 then INCOMPLETE else READY, pkg',
                              h\<lparr>tcp_buf := buf, tcp_in := es\<rparr>)))"
proof -
  obtain es1 where hdr: "recv_loop 4 0 [0, 0, 0, 0] (tcp_in h) = Some (4, be_bytes 4 (length body), es1)"
    and es1: "flowing es1" "stream_of es1 = body @ behind"
    using recv_header [of "tcp_in h" "length body" "body @ behind"] assms by (auto simp: frame_def)
  define sz :: u32 where "sz = of_nat (be_nat (be_bytes 4 (length body)))"
  have sz: "unat sz = length body"
    using assms(4) by (simp add: sz_def be_nat_be_bytes unat_of_nat)
  obtain es2 where bod: "recv_loop (ucast sz) 0 (tcp_buf h) es1 = Some (ucast sz, buf, es2)"
    and es2: "flowing es2" "stream_of es2 = behind"
    using recv_body [OF es1, of sz "tcp_buf h"] assms(1,4) sz by (auto simp: buf_def tcp_inv_def)
  have "sz = 6 \<and> take 6 buf = ascii ''ENDNOW'' \<longleftrightarrow> body = ascii ''ENDNOW''"
  proof
    assume "sz = 6 \<and> take 6 buf = ascii ''ENDNOW''"
    moreover then have "length body = 6" using sz by simp
    ultimately show "body = ascii ''ENDNOW''" by (simp add: buf_def)
  next
    assume b: "body = ascii ''ENDNOW''"
    then have "length body = 6" by (simp add: ascii_def)
    with sz have "unat sz = unat (6 :: u32)" by simp
    then have "sz = 6" by (simp only: word_unat_eq_iff)
    with b \<open>length body = 6\<close> show "sz = 6 \<and> take 6 buf = ascii ''ENDNOW''" by (simp add: buf_def)
  qed
  moreover have "length buf = package_buffer_size"
    using assms(1,4) by (simp add: buf_def tcp_inv_def)
  ultimately show ?thesis
    using hdr bod es2 assms(4) sz
    by (intro exI [of _ es2]) (simp add: tcp_receive_def Let_def flip: sz_def)
qed

lemma length_encode_package_ge: "19 \<le> length (encode_package p)"
  by (simp add: length_encode_package)

lemma tcp_receive_ready:
  assumes "tcp_inv h" "flowing (tcp_in h)" "stream_of (tcp_in h) = frame (encode_package p) @ behind"
    "wf_package p" "length (encode_package p) \<le> package_buffer_size" "kv_pairs p0 = []"
  shows "\<exists>h'. tcp_receive h p0 = ret (READY, p, h') \<and> tcp_inv h' \<and> flowing (tcp_in h')
     \<and> stream_of (tcp_in h') = behind \<and> tcp_out h' = tcp_out h"
proof -
  let ?body = "encode_package p"
  let ?buf = "?body @ drop (length ?body) (tcp_buf h)"
  obtain es where es: "flowing es" "stream_of es = behind" "length ?buf = package_buffer_size"
    and run: "tcp_receive h p0 =
         (if ?body = ascii ''ENDNOW'' then ret (STOP, p0, h\<lparr>tcp_buf := ?buf, tcp_in := es\<rparr>)
          else rbind (from_bytes ?buf (length ?body) p0)
            (\<lambda>(n, pkg'). ret (if n = 0 then INCOMPLETE else READY, pkg',
                              h\<lparr>tcp_buf := ?buf, tcp_in := es\<rparr>)))"
    using tcp_receive_frame [OF assms(1-3,5), of p0] by blast
  have "length ?body \<noteq> length (ascii ''ENDNOW'')"
    using length_encode_package_ge [of p] by (simp add: ascii_def)
  then have "?body \<noteq> ascii ''ENDNOW''" by metis
  moreover have "?body \<noteq> []" using length_encode_package_ge [of p] by auto
  moreover have "from_bytes ?buf (length ?body) p0 = ret (length ?body, p)"
    using assms(4,6) by (intro from_bytes_encode) simp_all
  ultimately show ?thesis using run es by (auto simp: tcp_inv_def)
qed

lemma tcp_receive_endnow:
  assumes "tcp_inv h" "flowing (tcp_in h)" "stream_of (tcp_in h) = frame (ascii ''ENDNOW'') @ behind"
  shows "\<exists>h'. tcp_receive h p0 = ret (STOP, p0, h') \<and> tcp_inv h' \<and> flowing (tcp_in h')
     \<and> stream_of (tcp_in h') = behind \<and> tcp_out h' = tcp_out h"
proof -
  have "length (ascii ''ENDNOW'') \<le> package_buffer_size" by (simp add: ascii_def)
  from tcp_receive_frame [OF assms this, of p0] show ?thesis by (auto simp: tcp_inv_def)
qed

text \<open>A client that has sent the packages \<open>ps\<close> and then \<open>ENDNOW\<close>.\<close>

definition tcp_feeds :: "tcp \<Rightarrow> package list \<Rightarrow> bool" where
  "tcp_feeds h ps \<longleftrightarrow> tcp_inv h \<and> flowing (tcp_in h)
     \<and> list_all (\<lambda>p. wf_package p \<and> length (encode_package p) \<le> package_buffer_size) ps
     \<and> (\<exists>behind. stream_of (tcp_in h)
          = concat (map (\<lambda>p. frame (encode_package p)) ps) @ frame (ascii ''ENDNOW'') @ behind)"

interpretation tcp_op: op_feed tcp_receive tcp_send tcp_reset tcp_inv tcp_sent tcp_feeds
proof
  fix h p ps and p0 :: package
  assume "tcp_feeds h (p # ps)" "kv_pairs p0 = []"
  then show "\<exists>h'. tcp_receive h p0 = ret (READY, p, h') \<and> tcp_feeds h' ps"
    using tcp_receive_ready [of h p _ p0] by (fastforce simp: tcp_feeds_def)
next
  fix h and p0 :: package
  assume "tcp_feeds h []"
  then show "\<exists>h'. tcp_receive h p0 = ret (STOP, p0, h')"
    using tcp_receive_endnow [of h _ p0] by (fastforce simp: tcp_feeds_def)
next
  fix h ps d
  show "tcp_feeds h ps \<Longrightarrow> tcp_feeds (snd (tcp_send h d)) ps"
    by (simp add: tcp_feeds_def tcp_send_def tcp_inv_def split: prod.splits)
  show "tcp_feeds h ps \<Longrightarrow> tcp_inv h" by (simp add: tcp_feeds_def)
qed

definition tcp_link :: "tcp \<Rightarrow> package list \<Rightarrow> (package \<Rightarrow> bytes list) \<Rightarrow> bool" where
  "tcp_link h ps echo \<longleftrightarrow> tcp_feeds h ps \<and> out_res (tcp_out h) = [] \<and> echo = (\<lambda>_. [])"

interpretation tcp_op: op_link tcp_receive tcp_send tcp_reset tcp_inv tcp_sent tcp_feeds tcp_link
proof
  fix h p ps echo and p0 :: package
  assume link: "tcp_link h (p # ps) echo" and "kv_pairs p0 = []"
  with tcp_op.feeds_Cons [of h p ps p0] obtain h' where
    "tcp_receive h p0 = ret (READY, p, h')" "tcp_feeds h' ps" by (auto simp: tcp_link_def)
  with tcp_receive_cases(1) link
  show "\<exists>h'. tcp_receive h p0 = ret (READY, p, h') \<and> tcp_link h' ps echo \<and> tcp_sent h' = tcp_sent h @ echo p"
    by (fastforce simp: tcp_link_def tcp_sent_def)
next
  fix h echo and p0 :: package
  assume "tcp_link h [] echo"
  with tcp_op.feeds_Nil [of h p0] tcp_receive_cases(1)
  show "\<exists>h'. tcp_receive h p0 = ret (STOP, p0, h') \<and> tcp_sent h' = tcp_sent h"
    by (fastforce simp: tcp_link_def tcp_sent_def)
next
  fix h ps echo d
  assume link: "tcp_link h ps echo"
  then have "tcp_feeds (snd (tcp_send h d)) ps" by (intro tcp_op.feeds_send) (simp add: tcp_link_def)
  with link show "\<exists>h'. tcp_send h d = (int (length d), h') \<and> tcp_link h' ps echo"
    by (simp add: tcp_link_def tcp_send_def)
qed

text \<open>
  C7: one framed package over TCP. However the kernel cuts the stream into chunks, a
  well-formed package that fits the 8 KiB buffer is received whole and decoded to itself;
  exactly its frame is consumed, nothing is sent, and the invariant of the handler is kept.
\<close>

theorem tcp_receive_package:
  assumes "tcp_inv h" "flowing (tcp_in h)" "stream_of (tcp_in h) = frame (encode_package p) @ behind"
    "wf_package p" "length (encode_package p) \<le> package_buffer_size" "kv_pairs p0 = []"
  shows "\<exists>h'. tcp_receive h p0 = ret (READY, p, h') \<and> tcp_inv h' \<and> flowing (tcp_in h')
     \<and> stream_of (tcp_in h') = behind \<and> tcp_out h' = tcp_out h"
  using tcp_receive_ready [OF assms] .

theorem tcp_receive_package_witness:
  "let p = \<lparr>pkg_op = 3, pkg_table = 0, pkg_num_kvs = 0, pkg_key = 7, pkg_scan_length = 0, kv_pairs = []\<rparr>;
       f = frame (encode_package p);
       h = \<lparr>tcp_lfd = 3, tcp_cfd = 4, tcp_buf = replicate 8192 1,
            tcp_in = [Read_Data (take 2 f), Read_Data (drop 2 f @ [9])],
            tcp_out = \<lparr>out_res = [], out_log = []\<rparr>\<rparr>
   in \<exists>h'. tcp_receive h p = ret (READY, p, h') \<and> tcp_inv h' \<and> flowing (tcp_in h')
        \<and> stream_of (tcp_in h') = [9] \<and> tcp_out h' = tcp_out h"
proof -
  define p where "p = \<lparr>pkg_op = 3, pkg_table = 0, pkg_num_kvs = 0, pkg_key = 7,
    pkg_scan_length = 0, kv_pairs = []\<rparr>"
  define f where "f = frame (encode_package p)"
  have len: "length f = 23" by (simp add: f_def frame_def length_encode_package p_def)
  then have "take 2 f \<noteq> []" by auto
  with len show ?thesis
    unfolding Let_def p_def [symmetric] f_def [symmetric]
    by (intro tcp_receive_package)
      (simp_all add: tcp_inv_def f_def [symmetric], simp_all add: p_def wf_package_def length_encode_package)
qed

text \<open>
  C14: the two ways the client stops the server. The 6-byte package \<open>ENDNOW\<close> gives
  \<open>STOP\<close> and consumes its frame; a header that announces more than the package buffer
  holds gives \<open>STOP\<close> with not one byte of the body read and the buffer untouched.
\<close>

theorem tcp_receive_stop:
  assumes "tcp_inv h" "flowing (tcp_in h)"
  shows "(stream_of (tcp_in h) = frame (ascii ''ENDNOW'') @ behind \<longrightarrow>
            (\<exists>h'. tcp_receive h p0 = ret (STOP, p0, h') \<and> stream_of (tcp_in h') = behind))
       \<and> (stream_of (tcp_in h) = be_bytes 4 n @ behind \<and> package_buffer_size < n \<and> n < 2 ^ 32 \<longrightarrow>
            (\<exists>h'. tcp_receive h p0 = ret (STOP, p0, h') \<and> stream_of (tcp_in h') = behind
                \<and> tcp_buf h' = tcp_buf h))"
proof (intro conjI impI)
  assume "stream_of (tcp_in h) = frame (ascii ''ENDNOW'') @ behind"
  from tcp_receive_endnow [OF assms this]
  show "\<exists>h'. tcp_receive h p0 = ret (STOP, p0, h') \<and> stream_of (tcp_in h') = behind" by blast
next
  assume *: "stream_of (tcp_in h) = be_bytes 4 n @ behind \<and> package_buffer_size < n \<and> n < 2 ^ 32"
  then obtain es where "recv_loop 4 0 [0, 0, 0, 0] (tcp_in h) = Some (4, be_bytes 4 n, es)"
    "flowing es" "stream_of es = behind"
    using recv_header [OF assms(2)] by blast
  moreover have "unat (of_nat (be_nat (be_bytes 4 n)) :: u32) = n"
    using * by (simp add: be_nat_be_bytes unat_of_nat)
  ultimately show "\<exists>h'. tcp_receive h p0 = ret (STOP, p0, h') \<and> stream_of (tcp_in h') = behind
      \<and> tcp_buf h' = tcp_buf h"
    using * by (simp add: tcp_receive_def Let_def)
qed

theorem tcp_receive_stop_witness:
  "let h = \<lparr>tcp_lfd = 3, tcp_cfd = 4, tcp_buf = replicate 8192 0,
            tcp_in = [Read_Data (be_bytes 4 8193), Read_Data [1, 2]],
            tcp_out = \<lparr>out_res = [], out_log = []\<rparr>\<rparr>;
       p0 = \<lparr>pkg_op = 0, pkg_table = 0, pkg_num_kvs = 0, pkg_key = 0, pkg_scan_length = 0, kv_pairs = []\<rparr>
   in \<exists>h'. tcp_receive h p0 = ret (STOP, p0, h') \<and> stream_of (tcp_in h') = [1, 2] \<and> tcp_buf h' = tcp_buf h"
proof -
  define h where "h = \<lparr>tcp_lfd = 3, tcp_cfd = 4, tcp_buf = replicate 8192 0,
            tcp_in = [Read_Data (be_bytes 4 8193), Read_Data [1, 2]],
            tcp_out = \<lparr>out_res = [], out_log = []\<rparr>\<rparr>"
  have "be_bytes 4 8193 \<noteq> []" by (simp add: be_bytes_numeral)
  then show ?thesis
    unfolding Let_def h_def [symmetric]
    using tcp_receive_stop [of h "[1, 2]" _ 8193] by (simp add: h_def tcp_inv_def)
qed

text \<open>
  Memory safety of \<open>receive\<close>. As long as no read fails, whatever bytes arrive and
  however they are cut, receiving never reads an uninitialised header and never touches a
  byte outside the package buffer: it blocks, or it returns a result that keeps the
  invariant, so the next call is safe too.
\<close>

lemma tcp_receive_safe:
  assumes "tcp_inv h" "no_error (tcp_in h)"
  shows "tcp_receive h p0 = never
       \<or> (\<exists>r p h'. tcp_receive h p0 = ret (r, p, h') \<and> tcp_inv h' \<and> no_error (tcp_in h'))"
proof (cases "recv_loop 4 0 [0, 0, 0, 0] (tcp_in h)")
  case None
  then show ?thesis by (simp add: tcp_receive_def)
next
  case (Some x)
  then obtain i hdr es where hdr: "recv_loop 4 0 [0, 0, 0, 0] (tcp_in h) = Some (i, hdr, es)"
    by (cases x) auto
  from recv_loop_no_error [OF this assms(2)] have i: "i = 4" "no_error es" by simp_all
  define sz :: u32 where "sz = of_nat (be_nat hdr)"
  show ?thesis
  proof (cases "unat sz > package_buffer_size \<or> recv_loop (ucast sz) 0 (tcp_buf h) es = None")
    case True
    then show ?thesis
      using hdr i assms(1) by (auto simp: tcp_receive_def Let_def tcp_inv_def simp flip: sz_def)
  next
    case False
    then obtain j buf es' where bod: "recv_loop (ucast sz) 0 (tcp_buf h) es = Some (j, buf, es')"
      by auto
    from recv_loop_no_error [OF this i(2)] False assms(1)
    have buf: "no_error es'" "length buf = package_buffer_size" by (simp_all add: tcp_inv_def)
    with False obtain n p where "from_bytes buf (unat sz) p0 = ret (n, p)"
      using from_bytes_defined [of buf "unat sz" p0] by auto
    with hdr bod i buf False show ?thesis
      by (auto simp: tcp_receive_def Let_def tcp_inv_def simp flip: sz_def)
  qed
qed

lemma tcp_receive_blocks:
  assumes "flowing (tcp_in h)"
    "length (stream_of (tcp_in h)) < 4 \<or> stream_of (tcp_in h) = be_bytes 4 k @ part \<and> length part < k \<and> k \<le> package_buffer_size"
  shows "tcp_receive h p0 = never"
proof (cases "length (stream_of (tcp_in h)) < 4")
  case True
  then show ?thesis using recv_loop_blocks [OF assms(1), of 0 4 "[0, 0, 0, 0]"] by (simp add: tcp_receive_def)
next
  case False
  with assms(2) have str: "stream_of (tcp_in h) = be_bytes 4 k @ part" and k: "length part < k" "k \<le> package_buffer_size" by auto
  obtain es where hdr: "recv_loop 4 0 [0, 0, 0, 0] (tcp_in h) = Some (4, be_bytes 4 k, es)" and es: "flowing es" "stream_of es = part"
    using recv_header [OF assms(1) str] k by auto
  have "unat (of_nat k :: u32) = k" using k(2) by (simp add: unat_of_nat)
  with hdr k recv_loop_blocks [OF es(1), of 0 "ucast (of_nat k :: u32)" "tcp_buf h"] es(2) show ?thesis
    by (simp add: tcp_receive_def be_nat_be_bytes Let_def)
qed

text \<open>
  C20: what \<open>receive\<close> makes of a bad connection. A peer that has closed it keeps the
  server in the read loop for ever (a read of 0 bytes makes no progress, for any number
  of reads); a read that fails before the first header byte ends the loop by wrap-around
  and the uninitialised header is used; a peer that falls silent in the middle of a header
  or of a package blocks the server, which has no timeout.
\<close>

theorem tcp_receive_bad_connection:
  "tcp_receive (h\<lparr>tcp_in := replicate n (Read_Data [])\<rparr>) p0 = never
   \<and> tcp_receive (h\<lparr>tcp_in := Read_Error # es\<rparr>) p0 = undef
   \<and> (flowing (tcp_in h) \<and> (length (stream_of (tcp_in h)) < 4
        \<or> stream_of (tcp_in h) = be_bytes 4 k @ part \<and> length part < k \<and> k \<le> package_buffer_size) \<longrightarrow>
      tcp_receive h p0 = never)"
  using recv_loop_eof [of 0 4 "[0, 0, 0, 0]" n] recv_loop_first_error [of 4 "[0, 0, 0, 0]" es] tcp_receive_blocks [of h k part p0]
  by (simp add: tcp_receive_def)

theorem tcp_receive_bad_connection_witness:
  "let h = \<lparr>tcp_lfd = 3, tcp_cfd = 4, tcp_buf = replicate 8192 0, tcp_in = [Read_Data [0, 0], Read_Data [0, 6, 69]],
            tcp_out = \<lparr>out_res = [], out_log = []\<rparr>\<rparr>;
       p0 = \<lparr>pkg_op = 0, pkg_table = 0, pkg_num_kvs = 0, pkg_key = 0, pkg_scan_length = 0, kv_pairs = []\<rparr>
   in tcp_receive (h\<lparr>tcp_in := [Read_Data [], Read_Data []]\<rparr>) p0 = never \<and> tcp_receive h p0 = never"
proof -
  let ?h = "\<lparr>tcp_lfd = 3, tcp_cfd = 4, tcp_buf = replicate 8192 0, tcp_in = [Read_Data [0, 0], Read_Data [0, 6, 69]],
            tcp_out = \<lparr>out_res = [], out_log = []\<rparr>\<rparr>"
  let ?p = "\<lparr>pkg_op = 0, pkg_table = 0, pkg_num_kvs = 0, pkg_key = 0, pkg_scan_length = 0, kv_pairs = []\<rparr>"
  have "be_bytes 4 6 = [0, 0, 0, 6]" by (simp add: be_bytes_numeral)
  then show ?thesis
    using tcp_receive_bad_connection [of 2 ?h ?p "[]" 6 "[69]"] by (simp add: numeral_2_eq_2)
qed

end
