(* ===== verification/Udp_Handler.thy ===== *)
theory Udp_Handler
  imports Op_Handler
begin

text \<open>
  The class \<open>UDPOpHandler\<close> of \<^verbatim>\<open>apps/ycsbserver/udp_handler.cc\<close>: it loads a workload
  file into a 4 MiB buffer, replays the packages in it and sends a datagram of each
  package's length. The file-static \<open>wl_buffer\<close>, \<open>wl_pos\<close>, \<open>wl_size\<close> and the members are
  one record.
\<close>

section \<open>State\<close>

record udp =
  udp_cfd :: int
  udp_port :: "16 word"
  udp_addr :: u32
  udp_out :: outchan
  wl_buffer :: bytes
  wl_pos :: u64
  wl_size :: u64
  udp_ops :: u64
  udp_total_ops :: u64

abbreviation max_file_size :: nat where
  "max_file_size \<equiv> 4194304"

definition wl_read4b :: "udp \<Rightarrow> (u32 \<times> udp) result" where
  "wl_read4b h =
     (if length (wl_buffer h) < unat (wl_pos h) + 4 then undef
      else ret (of_nat (be_nat (bslice (unat (wl_pos h)) 4 (wl_buffer h))),
                h\<lparr>wl_pos := wl_pos h + 4\<rparr>))"

section \<open>Construction\<close>

text \<open>
  The load loop stores the result of \<open>read\<close> in a \<open>size_t\<close>, so a failing read is a huge
  positive length: \<open>wl_size\<close> goes down by one and the loop goes on. Reading to an address
  outside the buffer is undefined.
\<close>

function wl_load :: "bytes \<Rightarrow> u64 \<Rightarrow> read_ev list \<Rightarrow> (bytes \<times> u64) result" where
  "wl_load buf sz es =
     (case os_read es (unat (of_nat max_file_size - sz)) of
        None \<Rightarrow> never
      | Some (r, bs, es') \<Rightarrow>
          if r \<noteq> 0 then
            if bs \<noteq> [] \<and> length buf < unat sz + length bs then undef
            else wl_load (write_at (unat sz) bs buf) (sz + of_int r) es'
          else ret (buf, sz))"
  by pat_completeness auto
termination
  by (relation "measure (\<lambda>(buf, sz, es). script_size es)") (auto dest: os_read_progress)

declare wl_load.simps [simp del]

text \<open>
  The arguments: the workload, the address and the port; and what the machine does for
  them: the result of \<open>socket\<close>, that of \<open>inet_aton\<close> with the address it stores if it
  stores one, the result of \<open>open\<close> with the reads of the file, the uninitialised contents
  of the new buffer, and the output.
\<close>

definition udp_open ::
  "bytes \<Rightarrow> bytes \<Rightarrow> int \<Rightarrow> int \<Rightarrow> (bytes \<Rightarrow> int \<times> u32 option) \<Rightarrow> (bytes \<Rightarrow> int \<times> read_ev list)
     \<Rightarrow> bytes \<Rightarrow> outchan \<Rightarrow> udp result"
where
  "udp_open workload_file ip port sock_fd aton fs mem out =
     (if sock_fd = -1 then throw Runtime_Error
      else if fst (aton ip) = -1 then throw Runtime_Error
      else if fst (fs workload_file) = -1 then throw Runtime_Error
      else
        rbind (wl_load mem 0 (snd (fs workload_file))) (\<lambda>(buf, sz).
        let h = \<lparr>udp_cfd = sock_fd, udp_port = of_int port,
                 udp_addr = (case snd (aton ip) of None \<Rightarrow> 0 | Some a \<Rightarrow> a), udp_out = out,
                 wl_buffer = buf, wl_pos = 0, wl_size = sz, udp_ops = 0, udp_total_ops = 0\<rparr>
        in rbind (wl_read4b h) (\<lambda>(_, h1).
           rbind (wl_read4b h1) (\<lambda>(n, h2).
             ret (h2\<lparr>udp_total_ops := ucast n\<rparr>)))))"

section \<open>The virtual methods\<close>

definition udp_send :: "udp \<Rightarrow> bytes \<Rightarrow> int \<times> udp" where
  "udp_send h d = (let (r, c) = os_write (udp_out h) d in (r, h\<lparr>udp_out := c\<rparr>))"

definition udp_reset :: "udp \<Rightarrow> udp" where
  "udp_reset h = h\<lparr>wl_pos := 8, udp_ops := 0\<rparr>"

text \<open>
  The size handed to the decoder is a difference of \<open>size_t\<close> values; the count it returns
  is not looked at, and the datagram is the beginning of the workload buffer.
\<close>

definition udp_receive :: "udp \<Rightarrow> package \<Rightarrow> (recv_result \<times> package \<times> udp) result" where
  "udp_receive h pkg =
     (if udp_ops h \<ge> udp_total_ops h then ret (STOP, pkg, h)
      else
        rbind (from_bytes (drop (unat (wl_pos h)) (wl_buffer h)) (unat (wl_size h - wl_pos h)) pkg)
          (\<lambda>(read_size, pkg').
             let h1 = h\<lparr>wl_pos := wl_pos h + of_nat read_size\<rparr>;
                 (_, h2) = udp_send h1 (take read_size (wl_buffer h1))
             in ret (READY, pkg', h2\<lparr>udp_ops := udp_ops h2 + 1\<rparr>)))"

text \<open>The destructor: the descriptors it closes; the buffer is never freed.\<close>

definition udp_destroy :: "udp \<Rightarrow> int list" where
  "udp_destroy h = [udp_cfd h]"

definition udp_inv :: "udp \<Rightarrow> bool" where
  "udp_inv h \<longleftrightarrow> unat (wl_size h) \<le> length (wl_buffer h) \<and> length (wl_buffer h) < 2 ^ 64"

definition udp_sent :: "udp \<Rightarrow> bytes list" where
  "udp_sent h = out_log (udp_out h)"

section \<open>The handler interface\<close>

lemma udp_send_fields [simp]:
  "wl_buffer (snd (udp_send h d)) = wl_buffer h" "wl_pos (snd (udp_send h d)) = wl_pos h"
  "wl_size (snd (udp_send h d)) = wl_size h" "udp_ops (snd (udp_send h d)) = udp_ops h"
  "udp_total_ops (snd (udp_send h d)) = udp_total_ops h"
  "udp_sent (snd (udp_send h d)) = udp_sent h @ [d]"
  using os_write_log [of "udp_out h" d]
  by (auto simp: udp_send_def udp_sent_def simp del: os_write_log split: prod.splits)

lemma udp_receive_READY:
  assumes "udp_receive h pkg = ret (r, pkg', h')" "udp_ops h < udp_total_ops h"
  shows "\<exists>n. from_bytes (drop (unat (wl_pos h)) (wl_buffer h)) (unat (wl_size h - wl_pos h)) pkg = ret (n, pkg')
     \<and> r = READY \<and> wl_buffer h' = wl_buffer h \<and> wl_size h' = wl_size h
     \<and> wl_pos h' = wl_pos h + of_nat n \<and> udp_ops h' = udp_ops h + 1 \<and> udp_total_ops h' = udp_total_ops h
     \<and> udp_sent h' = udp_sent h @ [take n (wl_buffer h)]"
proof -
  from assms obtain n where fb:
    "from_bytes (drop (unat (wl_pos h)) (wl_buffer h)) (unat (wl_size h - wl_pos h)) pkg = ret (n, pkg')"
    by (auto simp: udp_receive_def rbind_eq_ret Let_def case_prod_beta not_le [symmetric])
  let ?s = "udp_send (h\<lparr>wl_pos := wl_pos h + of_nat n\<rparr>) (take n (wl_buffer h))"
  from assms fb have "r = READY" "h' = (snd ?s)\<lparr>udp_ops := udp_ops h + 1\<rparr>"
    using udp_send_fields(4) [of "h\<lparr>wl_pos := wl_pos h + of_nat n\<rparr>" "take n (wl_buffer h)"]
    by (auto simp: udp_receive_def Let_def case_prod_beta not_le [symmetric])
  moreover have "udp_sent (h\<lparr>wl_pos := wl_pos h + of_nat n\<rparr>) = udp_sent h"
    "udp_sent (k\<lparr>udp_ops := j\<rparr>) = udp_sent k" for k j
    by (simp_all add: udp_sent_def)
  ultimately show ?thesis using fb by simp
qed

lemma udp_receive_STOP: "\<not> udp_ops h < udp_total_ops h \<Longrightarrow> udp_receive h pkg = ret (STOP, pkg, h)"
  by (simp add: udp_receive_def not_less)

interpretation udp_op: op_handler udp_receive udp_send udp_reset udp_inv udp_sent
proof
  fix h :: udp and d
  show "udp_inv h \<Longrightarrow> udp_inv (snd (udp_send h d))" by (simp add: udp_inv_def)
  show "udp_sent (snd (udp_send h d)) = udp_sent h @ [d]" by simp
  show "udp_inv h \<Longrightarrow> udp_inv (udp_reset h)" "udp_sent (udp_reset h) = udp_sent h"
    by (simp_all add: udp_reset_def udp_inv_def udp_sent_def)
next
  fix h pkg r pkg' h'
  assume inv: "udp_inv h" and run: "udp_receive h pkg = ret (r, pkg', h')"
  show "udp_inv h'"
    using udp_receive_READY [OF run] udp_receive_STOP [of h pkg] inv run
    by (cases "udp_ops h < udp_total_ops h") (auto simp: udp_inv_def)
  show "\<exists>ds. udp_sent h' = udp_sent h @ ds"
    using udp_receive_READY [OF run] udp_receive_STOP [of h pkg] run
    by (cases "udp_ops h < udp_total_ops h") auto
next
  fix h pkg pkg' h'
  assume run: "udp_receive h pkg = ret (READY, pkg', h')" and empty: "kv_pairs pkg = []"
  then have "udp_ops h < udp_total_ops h"
    by (rule_tac ccontr) (simp add: udp_receive_STOP)
  from udp_receive_READY [OF run this] from_bytes_pairs [OF _ empty]
  show "list_all short_pair (kv_pairs pkg') \<and> length (kv_pairs pkg') \<le> unat (pkg_num_kvs pkg')"
    by blast
qed

text \<open>No method replaces the descriptor, the address or the number of packages.\<close>

definition udp_peer :: "udp \<Rightarrow> int \<times> 16 word \<times> u32 \<times> u64" where
  "udp_peer h = (udp_cfd h, udp_port h, udp_addr h, udp_total_ops h)"

lemma udp_peer_kept:
  "udp_receive h pkg = ret (r, pkg', h') \<Longrightarrow> udp_peer h' = udp_peer h"
  "udp_peer (snd (udp_send h d)) = udp_peer h" "udp_peer (udp_reset h) = udp_peer h"
  by (auto simp: udp_receive_def udp_send_def udp_reset_def udp_peer_def rbind_eq_ret Let_def
      case_prod_unfold split: if_splits)

interpretation udp_fds: op_handler udp_receive udp_send udp_reset "\<lambda>h. udp_inv h \<and> udp_peer h = peer" udp_sent
  by (rule udp_op.op_handler_keeps) (fact udp_peer_kept)+

lemma udp_open_fds:
  assumes "udp_open wl ip p s aton fs mem out = ret h"
  shows "udp_destroy h = [s] \<and> udp_port h = of_int p \<and> udp_addr h = (case snd (aton ip) of None \<Rightarrow> 0 | Some a \<Rightarrow> a)"
  using assms by (auto simp: udp_open_def udp_destroy_def wl_read4b_def rbind_eq_ret Let_def split: if_splits)

section \<open>Replaying a workload\<close>

text \<open>The workload file: two counters (the first is ignored) and the packages.\<close>

definition workload :: "nat \<Rightarrow> package list \<Rightarrow> bytes" where
  "workload preins ps = be_bytes 4 preins @ be_bytes 4 (length ps) @ concat (map encode_package ps)"

text \<open>The packages \<open>ps\<close> lie at the read position and are all the handler still has to do.\<close>

definition udp_feeds :: "udp \<Rightarrow> package list \<Rightarrow> bool" where
  "udp_feeds h ps \<longleftrightarrow> udp_inv h \<and> list_all wf_package ps \<and> wl_pos h \<le> wl_size h
     \<and> unat (udp_total_ops h) = unat (udp_ops h) + length ps
     \<and> (\<exists>rest. bslice (unat (wl_pos h)) (unat (wl_size h) - unat (wl_pos h)) (wl_buffer h)
               = concat (map encode_package ps) @ rest)"

lemma udp_feeds_STOP: "udp_feeds h [] \<Longrightarrow> udp_receive h p0 = ret (STOP, p0, h)"
  by (simp add: udp_feeds_def udp_receive_STOP word_less_nat_alt)

lemma udp_feeds_READY:
  assumes "udp_feeds h (p # ps)" "kv_pairs p0 = []"
  shows "\<exists>h'. udp_receive h p0 = ret (READY, p, h') \<and> udp_feeds h' ps
       \<and> udp_sent h' = udp_sent h @ [take (length (encode_package p)) (wl_buffer h)]"
proof -
  let ?n = "length (encode_package p)"
  let ?pos = "unat (wl_pos h)" and ?sz = "unat (wl_size h)"
  from assms(1) obtain rest where ops: "udp_ops h < udp_total_ops h"
    and tot: "unat (udp_total_ops h) = Suc (unat (udp_ops h) + length ps)"
    and wf: "wf_package p" "list_all wf_package ps"
    and pos: "?pos \<le> ?sz" "?sz \<le> length (wl_buffer h)" "length (wl_buffer h) < 2 ^ 64"
    and dat: "bslice ?pos (?sz - ?pos) (wl_buffer h) = encode_package p @ concat (map encode_package ps) @ rest"
    by (auto simp: udp_feeds_def udp_inv_def word_less_nat_alt word_le_nat_alt)
  have len: "?sz - ?pos = ?n + length (concat (map encode_package ps) @ rest)"
    using arg_cong [OF dat, of length] pos by simp
  have sub: "unat (wl_size h - wl_pos h) = ?sz - ?pos"
    using pos by (simp add: unat_sub word_le_nat_alt)
  have buf: "drop ?pos (wl_buffer h)
      = encode_package p @ (concat (map encode_package ps) @ rest) @ drop ?sz (wl_buffer h)"
  proof -
    have "drop ?pos (wl_buffer h) = bslice ?pos (?sz - ?pos) (wl_buffer h) @ drop ?sz (wl_buffer h)"
      using pos append_take_drop_id [of "?sz - ?pos" "drop ?pos (wl_buffer h)"] by (simp add: bslice_def)
    then show ?thesis using dat by simp
  qed
  have "from_bytes (drop ?pos (wl_buffer h)) (unat (wl_size h - wl_pos h)) p0 = ret (?n, p)"
    unfolding buf sub using wf assms(2) len by (intro from_bytes_encode) auto
  then obtain h' where run: "udp_receive h p0 = ret (READY, p, h')"
    using ops by (auto simp: udp_receive_def not_le [symmetric] Let_def case_prod_beta)
  from udp_receive_READY [OF run ops] \<open>from_bytes _ _ _ = _\<close>
  have h': "wl_buffer h' = wl_buffer h" "wl_size h' = wl_size h" "wl_pos h' = wl_pos h + of_nat ?n"
    "udp_ops h' = udp_ops h + 1" "udp_total_ops h' = udp_total_ops h"
    "udp_sent h' = udp_sent h @ [take ?n (wl_buffer h)]" by auto
  have pos': "unat (wl_pos h') = ?pos + ?n"
    using unat_advance [of "int ?n" ?n "wl_size h" "wl_pos h"] len h' by simp
  have ops': "unat (udp_ops h') = Suc (unat (udp_ops h))"
    using unat_advance [of 1 1 "udp_total_ops h" "udp_ops h"] tot h' by simp
  have "bslice (?pos + ?n) (?sz - (?pos + ?n)) (wl_buffer h) = drop ?n (bslice ?pos (?sz - ?pos) (wl_buffer h))"
    by (simp add: bslice_def drop_take add.commute)
  then have "udp_feeds h' ps"
    using pos pos' ops' tot wf len h' dat by (auto simp: udp_feeds_def udp_inv_def word_le_nat_alt)
  with run h' show ?thesis by blast
qed

interpretation udp_op: op_feed udp_receive udp_send udp_reset udp_inv udp_sent udp_feeds
proof
  fix h p ps and p0 :: package
  assume "udp_feeds h (p # ps)" "kv_pairs p0 = []"
  then show "\<exists>h'. udp_receive h p0 = ret (READY, p, h') \<and> udp_feeds h' ps"
    using udp_feeds_READY by blast
next
  fix h and p0 :: package
  assume "udp_feeds h []"
  then show "\<exists>h'. udp_receive h p0 = ret (STOP, p0, h')" using udp_feeds_STOP by blast
next
  fix h ps d
  show "udp_feeds h ps \<Longrightarrow> udp_feeds (snd (udp_send h d)) ps"
    by (simp add: udp_feeds_def udp_inv_def)
  show "udp_feeds h ps \<Longrightarrow> udp_inv h" by (simp add: udp_feeds_def)
qed

text \<open>Each delivery sends the first bytes of the workload buffer, as many as the package has.\<close>

definition udp_echo :: "bytes \<Rightarrow> package \<Rightarrow> bytes list" where
  "udp_echo buf p = [take (length (encode_package p)) buf]"

definition udp_link :: "udp \<Rightarrow> package list \<Rightarrow> (package \<Rightarrow> bytes list) \<Rightarrow> bool" where
  "udp_link h ps echo \<longleftrightarrow> udp_feeds h ps \<and> out_res (udp_out h) = [] \<and> echo = udp_echo (wl_buffer h)"

lemma udp_receive_out:
  "udp_receive h pkg = ret (r, pkg', h') \<Longrightarrow> out_res (udp_out h) = [] \<Longrightarrow>
   out_res (udp_out h') = [] \<and> wl_buffer h' = wl_buffer h"
  by (auto simp: udp_receive_def udp_send_def rbind_eq_ret Let_def split: if_splits)

interpretation udp_op: op_link udp_receive udp_send udp_reset udp_inv udp_sent udp_feeds udp_link
proof
  fix h p ps echo and p0 :: package
  assume link: "udp_link h (p # ps) echo" and "kv_pairs p0 = []"
  with udp_feeds_READY [of h p ps p0] obtain h' where
    run: "udp_receive h p0 = ret (READY, p, h')" "udp_feeds h' ps"
    "udp_sent h' = udp_sent h @ [take (length (encode_package p)) (wl_buffer h)]"
    by (auto simp: udp_link_def)
  with udp_receive_out [OF run(1)] link
  show "\<exists>h'. udp_receive h p0 = ret (READY, p, h') \<and> udp_link h' ps echo \<and> udp_sent h' = udp_sent h @ echo p"
    by (auto simp: udp_link_def udp_echo_def)
next
  fix h echo and p0 :: package
  assume "udp_link h [] echo"
  then show "\<exists>h'. udp_receive h p0 = ret (STOP, p0, h') \<and> udp_sent h' = udp_sent h"
    using udp_feeds_STOP by (auto simp: udp_link_def)
next
  fix h ps echo d
  assume link: "udp_link h ps echo"
  then have "udp_feeds (snd (udp_send h d)) ps" by (intro udp_op.feeds_send) (simp add: udp_link_def)
  with link show "\<exists>h'. udp_send h d = (int (length d), h') \<and> udp_link h' ps echo"
    by (simp add: udp_link_def udp_send_def)
qed

section \<open>Loading the workload\<close>

lemma wl_load_flowing:
  assumes "flowing es" "k + length (stream_of es) \<le> max_file_size" "length buf = max_file_size"
  shows "wl_load buf (of_nat k) (es @ Read_Data [] # rest)
       = ret (write_at k (stream_of es) buf, of_nat (k + length (stream_of es)))"
  using assms
proof (induction es arbitrary: k buf)
  case Nil
  then show ?case by (simp add: wl_load.simps [of buf "of_nat k"])
next
  case (Cons e es)
  then obtain bs where e: "e = Read_Data bs" "bs \<noteq> []" and es: "flowing es" by auto
  have k: "unat (of_nat k :: u64) = k" using Cons.prems by (simp add: unat_of_nat)
  have "of_nat k \<le> (of_nat max_file_size :: u64)"
    using Cons.prems k by (simp add: word_le_nat_alt)
  then have "unat (of_nat max_file_size - of_nat k :: u64) = max_file_size - k"
    using k by (simp add: unat_sub)
  then have rd: "os_read (Read_Data bs # es @ Read_Data [] # rest) (unat (of_nat max_file_size - of_nat k :: u64))
      = Some (int (length bs), bs, es @ Read_Data [] # rest)"
    using Cons.prems e by simp
  have len: "k + length bs \<le> length buf" using Cons.prems e by simp
  from Cons.IH [OF es, of "k + length bs" "write_at k bs buf"] Cons.prems e len
  have "wl_load (write_at k bs buf) (of_nat (k + length bs)) (es @ Read_Data [] # rest)
      = ret (write_at (k + length bs) (stream_of es) (write_at k bs buf),
             of_nat (k + length bs + length (stream_of es)))"
    by (simp add: add.assoc)
  then show ?case
    using rd e k len Cons.prems
    by (simp add: wl_load.simps [of buf "of_nat k"] write_at_append add.assoc)
qed

lemma udp_open_feeds:
  assumes "sock_fd \<noteq> -1" "fst (aton ip) \<noteq> -1" "fst (fs wl) \<noteq> -1" "length mem = max_file_size"
    "snd (fs wl) = es @ Read_Data [] # rest" "flowing es"
    "stream_of es = workload preins ps" "length (workload preins ps) \<le> max_file_size"
    "list_all wf_package ps"
  shows "\<exists>h. udp_open wl ip port sock_fd aton fs mem out = ret h
     \<and> udp_feeds h ps \<and> udp_reset h = h \<and> udp_out h = out
     \<and> take (length (workload preins ps)) (wl_buffer h) = workload preins ps"
proof -
  let ?w = "workload preins ps"
  let ?buf = "?w @ drop (length ?w) mem"
  let ?a = "case snd (aton ip) of None \<Rightarrow> 0 | Some a \<Rightarrow> a"
  let ?h = "\<lparr>udp_cfd = sock_fd, udp_port = of_int port, udp_addr = ?a, udp_out = out, wl_buffer = ?buf,
             wl_pos = 0, wl_size = of_nat (length ?w), udp_ops = 0, udp_total_ops = 0\<rparr>"
  let ?n = "of_nat (length ps) :: u32"
  have load: "wl_load mem 0 (es @ Read_Data [] # rest) = ret (?buf, of_nat (length ?w))"
    using wl_load_flowing [of es 0 mem rest] assms(4,6-8) by (simp add: write_at_def)
  have w8: "8 \<le> length ?w" by (simp add: workload_def)
  have few: "19 * length ps \<le> length (concat (map encode_package ps))"
    by (induction ps) (auto simp: length_encode_package)
  then have n: "length ps < 2 ^ 32" using assms(8) by (simp add: workload_def)
  have len: "length ?buf = max_file_size" using assms(4,8) by simp
  have second: "bslice 4 4 ?buf = be_bytes 4 (length ps)"
    by (simp add: workload_def bslice_def)
  have "wl_read4b ?h = ret (of_nat (be_nat (bslice 0 4 ?buf)), ?h\<lparr>wl_pos := 4\<rparr>)"
    using len by (simp add: wl_read4b_def)
  moreover have "wl_read4b (?h\<lparr>wl_pos := 4\<rparr>) = ret (?n, ?h\<lparr>wl_pos := 8\<rparr>)"
    using len n second by (simp add: wl_read4b_def be_nat_be_bytes)
  ultimately have opened: "udp_open wl ip port sock_fd aton fs mem out
      = ret (?h\<lparr>wl_pos := 8, udp_total_ops := ucast ?n\<rparr>)"
    using assms(1-3,5) load by (simp add: udp_open_def Let_def)
  have sz: "unat (of_nat (length ?w) :: u64) = length ?w"
    using assms(8) by (simp add: unat_of_nat)
  have cnt: "unat (ucast ?n :: u64) = length ps" using n by (simp add: unat_of_nat)
  have "drop 8 ?w = concat (map encode_package ps)" by (simp add: workload_def)
  moreover have "length ?w = 8 + length (concat (map encode_package ps))" by (simp add: workload_def)
  ultimately have "bslice 8 (length ?w - 8) ?buf = concat (map encode_package ps) @ []"
    using w8 by (simp add: bslice_def)
  then have "udp_feeds (?h\<lparr>wl_pos := 8, udp_total_ops := ucast ?n\<rparr>) ps"
    using sz cnt w8 len assms(8,9) by (auto simp: udp_feeds_def udp_inv_def word_le_nat_alt)
  then show ?thesis using opened by (auto simp: udp_reset_def)
qed

text \<open>
  C8: workload replay. A workload file that starts with its two counters and holds that
  many well-formed packages (at most 4 MiB in all, read in any chunks) is loaded by the
  constructor, \<open>reset\<close> leaves the handler as constructed, and \<open>receive\<close> returns exactly
  the packages of the file, in order, each \<open>READY\<close>, and then \<open>STOP\<close>.
\<close>

theorem udp_workload_replay:
  assumes "sock_fd \<noteq> -1" "fst (aton ip) \<noteq> -1" "fst (fs wl) \<noteq> -1" "length mem = max_file_size"
    "snd (fs wl) = es @ Read_Data [] # rest" "flowing es"
    "stream_of es = workload preins ps" "length (workload preins ps) \<le> max_file_size"
    "list_all wf_package ps" "kv_pairs p0 = []"
  shows "\<exists>h h' h''. udp_open wl ip port sock_fd aton fs mem out = ret h
     \<and> udp_reset h = h
     \<and> recv_seq udp_receive p0 (length ps) h = ret (map (Pair READY) ps, h')
     \<and> udp_receive h' p0 = ret (STOP, p0, h'')"
proof -
  obtain h where "udp_open wl ip port sock_fd aton fs mem out = ret h"
    "udp_feeds h ps" "udp_reset h = h"
    using udp_open_feeds [of sock_fd aton ip fs wl mem es rest preins ps port out] assms(1-9) by blast
  then show ?thesis using udp_op.recv_seq_feeds [OF _ assms(10)] by blast
qed

theorem udp_workload_replay_witness:
  "let p = \<lparr>pkg_op = 3, pkg_table = 0, pkg_num_kvs = 0, pkg_key = 7, pkg_scan_length = 0, kv_pairs = []\<rparr>;
       w = workload 0 [p, p]
   in \<exists>h h' h''. udp_open (ascii ''w'') (ascii ''::'') 1337 3 (\<lambda>_. (0, None))
          (\<lambda>_. (4, [Read_Data (take 5 w), Read_Data (drop 5 w), Read_Data []]))
          (replicate 4194304 0) \<lparr>out_res = [], out_log = []\<rparr> = ret h
     \<and> udp_reset h = h \<and> recv_seq udp_receive p 2 h = ret ([(READY, p), (READY, p)], h')
     \<and> udp_receive h' p = ret (STOP, p, h'')"
proof -
  define p where "p = \<lparr>pkg_op = 3, pkg_table = 0, pkg_num_kvs = 0, pkg_key = 7,
    pkg_scan_length = 0, kv_pairs = []\<rparr>"
  define w where "w = workload 0 [p, p]"
  have len: "length w = 46" by (simp add: w_def workload_def length_encode_package p_def)
  have p: "wf_package p" "kv_pairs p = []" by (simp_all add: p_def wf_package_def)
  have fl: "flowing [Read_Data (take 5 w), Read_Data (drop 5 w)]" using len by auto
  have st: "stream_of [Read_Data (take 5 w), Read_Data (drop 5 w)] = workload 0 [p, p]"
    by (simp add: w_def)
  show ?thesis
    unfolding Let_def p_def [symmetric] w_def [symmetric]
    using udp_workload_replay [OF _ _ _ _ _ fl st, of 3 "\<lambda>_. (0, None)" "ascii ''::''"
        "\<lambda>_. (4, [Read_Data (take 5 w), Read_Data (drop 5 w), Read_Data []])" "ascii ''w''" "replicate 4194304 0" "[]" p
        1337 "\<lparr>out_res = [], out_log = []\<rparr>"] len p
    by (simp add: w_def [symmetric] numeral_2_eq_2)
qed

text \<open>
  An incomplete package is executed. Where the decoder reports a package that does
  not fit the file (count 0), \<open>receive\<close> still returns \<open>READY\<close> with the pairs decoded so
  far, does not move on in the workload, sends an empty datagram and counts an operation.
\<close>

theorem udp_incomplete_is_ready:
  assumes "udp_ops h < udp_total_ops h"
    "from_bytes (drop (unat (wl_pos h)) (wl_buffer h)) (unat (wl_size h - wl_pos h)) p0 = ret (0, p)"
  shows "\<exists>h'. udp_receive h p0 = ret (READY, p, h') \<and> wl_pos h' = wl_pos h
     \<and> udp_ops h' = udp_ops h + 1 \<and> udp_sent h' = udp_sent h @ [[]]"
proof -
  obtain h' where run: "udp_receive h p0 = ret (READY, p, h')"
    using assms by (auto simp: udp_receive_def not_le [symmetric] Let_def case_prod_beta)
  from udp_receive_READY [OF run assms(1)] assms(2) show ?thesis using run by auto
qed

theorem udp_incomplete_is_ready_witness:
  "let h = \<lparr>udp_cfd = 3, udp_port = 1, udp_addr = 0, udp_out = \<lparr>out_res = [], out_log = []\<rparr>,
            wl_buffer = [0, 0, 0, 0, 0, 0, 0, 1, 1, 0, 2, 0, 0, 0, 0, 0, 0, 0, 5, 0, 0, 0, 0, 0, 0, 0, 0, 1, 0, 48],
            wl_pos = 8, wl_size = 30, udp_ops = 0, udp_total_ops = 1\<rparr>;
       p0 = \<lparr>pkg_op = 0, pkg_table = 0, pkg_num_kvs = 0, pkg_key = 0, pkg_scan_length = 0, kv_pairs = []\<rparr>;
       p = \<lparr>pkg_op = 1, pkg_table = 0, pkg_num_kvs = 2, pkg_key = 5, pkg_scan_length = 0, kv_pairs = [([48], [])]\<rparr>
   in \<exists>h'. udp_receive h p0 = ret (READY, p, h') \<and> wl_pos h' = wl_pos h
     \<and> udp_ops h' = udp_ops h + 1 \<and> udp_sent h' = udp_sent h @ [[]]"
  unfolding Let_def
  by (rule udp_incomplete_is_ready)
    (simp_all add: from_bytes_def read_u64_def upt_rec bslice_def from_bytes_kvs_numeral)

text \<open>
  What the load loop makes of a failing read: if every read fails (the workload is a
  directory, say) the constructor never returns; if the first read fails and a later one
  delivers data, the data is stored before the start of the buffer.
\<close>

lemma wl_load_failing_read:
  assumes "bs \<noteq> []" "length buf = max_file_size"
  shows "wl_load buf 0 (replicate n Read_Error) = never
       \<and> wl_load buf 0 (Read_Error # Read_Data bs # es) = undef"
proof
  have "wl_load buf sz (replicate n Read_Error) = never" for sz
  proof (induction n arbitrary: sz)
    case 0
    then show ?case by (simp add: wl_load.simps [of buf sz "[]"])
  next
    case (Suc n)
    then show ?case
      by (simp add: wl_load.simps [of buf sz "Read_Error # replicate n Read_Error"])
  qed
  then show "wl_load buf 0 (replicate n Read_Error) = never" .
  have "wl_load buf 0 (Read_Error # Read_Data bs # es) = wl_load buf (-1) (Read_Data bs # es)"
    by (simp add: wl_load.simps [of buf 0])
  also have "\<dots> = undef"
    using assms by (simp add: wl_load.simps [of buf "-1"] unsigned_minus_1_eq_mask mask_eq_exp_minus_1)
  finally show "wl_load buf 0 (Read_Error # Read_Data bs # es) = undef" .
qed

end
