(* ===== verification/Numtext.thy ===== *)
theory Numtext
  imports Prelude
begin

text \<open>
  What the sources use of the C++ library's text conversions: \<open>ostream << uint64_t\<close>,
  \<open>std::stoll\<close>, \<open>istream >> uint64_t\<close> and \<open>istream >> std::string\<close>, on byte strings in
  the C locale, and \<open>atoi\<close> of the C library.
\<close>

section \<open>Printing\<close>

fun show_nat :: "nat \<Rightarrow> bytes" where
  "show_nat n = (if n < 10 then [of_nat (48 + n)] else show_nat (n div 10) @ [of_nat (48 + n mod 10)])"

declare show_nat.simps [simp del]

definition show_u64 :: "u64 \<Rightarrow> bytes" where
  "show_u64 w = show_nat (unat w)"

section \<open>Reading\<close>

definition is_digit :: "u8 \<Rightarrow> bool" where
  "is_digit b \<longleftrightarrow> 48 \<le> b \<and> b \<le> 57"

definition is_space :: "u8 \<Rightarrow> bool" where
  "is_space b \<longleftrightarrow> b = 32 \<or> 9 \<le> b \<and> b \<le> 13"

definition digits_val :: "bytes \<Rightarrow> nat" where
  "digits_val ds = fold (\<lambda>d n. n * 10 + (unat d - 48)) ds 0"

text \<open>An optional sign: the factor, how many bytes it takes and what follows it.\<close>

definition read_sign :: "bytes \<Rightarrow> int \<times> nat \<times> bytes" where
  "read_sign s =
     (case s of
        [] \<Rightarrow> (1, 0, [])
      | c # cs \<Rightarrow> if c = 45 then (-1, 1, cs) else if c = 43 then (1, 1, cs) else (1, 0, c # cs))"

text \<open>
  \<open>strtoll\<close> in base 10, as \<open>std::stoll\<close> calls it: the value and the number of bytes
  converted, or one of the two exceptions.
\<close>

definition stoll :: "bytes \<Rightarrow> (int \<times> nat) result" where
  "stoll s =
     (let ws = takeWhile is_space s;
          (sgn, k, s') = read_sign (dropWhile is_space s);
          ds = takeWhile is_digit s';
          v = sgn * int (digits_val ds)
      in if ds = [] then throw Invalid_Argument
         else if v < - (2 ^ 63) \<or> 2 ^ 63 - 1 < v then throw Out_Of_Range
         else ret (v, length ws + k + length ds))"

text \<open>
  \<open>is >> key\<close> for an unsigned 64-bit \<open>key\<close>. \<open>None\<close>: nothing but blanks, the variable is
  not assigned. Otherwise the value assigned, the input left and whether the extraction
  succeeded (no digits assigns 0, too large a number the maximum; a minus sign negates
  modulo \<open>2 ^ 64\<close>).
\<close>

definition extract_u64 :: "bytes \<Rightarrow> (u64 \<times> bytes \<times> bool) option" where
  "extract_u64 s =
     (let s1 = dropWhile is_space s
      in if s1 = [] then None
         else
           let (sgn, k, s') = read_sign s1;
               ds = takeWhile is_digit s'
           in Some (if ds = [] then (0, s', False)
                    else if 2 ^ 64 \<le> digits_val ds then (-1, dropWhile is_digit s', False)
                    else (of_int (sgn * int (digits_val ds)), dropWhile is_digit s', True)))"

text \<open>\<open>is >> field\<close> for a string.\<close>

definition extract_word :: "bytes \<Rightarrow> bytes" where
  "extract_word s = takeWhile (\<lambda>b. \<not> is_space b) (dropWhile is_space s)"

text \<open>\<open>atoi\<close>: \<open>strtol\<close>, which stops at the ends of \<open>long\<close>, cut down to 32 bits.\<close>

definition atoi :: "bytes \<Rightarrow> int" where
  "atoi s =
     (let (sgn, k, s') = read_sign (dropWhile is_space s);
          v = sgn * int (digits_val (takeWhile is_digit s'));
          l = max (- (2 ^ 63)) (min (2 ^ 63 - 1) v)
      in sint (of_int l :: 32 word))"

text \<open>
  \<open>strtoul\<close> in base 10: too large a number gives the maximum, a minus sign negates modulo
  \<open>2 ^ 64\<close>.
\<close>

definition strtoul :: "bytes \<Rightarrow> u64" where
  "strtoul s =
     (let (sgn, k, s') = read_sign (dropWhile is_space s);
          v = digits_val (takeWhile is_digit s')
      in if 2 ^ 64 \<le> v then -1 else of_int (sgn * int v))"

text \<open>\<^verbatim>\<open>if(argc > k) x = f(argv[k])\<close> for a variable \<open>x\<close> with a default.\<close>

definition arg_or :: "bytes list \<Rightarrow> nat \<Rightarrow> (bytes \<Rightarrow> 'a) \<Rightarrow> 'a \<Rightarrow> 'a" where
  "arg_or argv k f d = (if length argv > k then f (argv ! k) else d)"

section \<open>Printed numbers read back\<close>

lemma digits_val_Nil [simp]: "digits_val [] = 0"
  by (simp add: digits_val_def)

lemma digits_val_snoc [simp]: "digits_val (ds @ [d]) = digits_val ds * 10 + (unat d - 48)"
  by (simp add: digits_val_def)

lemma unat_digit: "d < 10 \<Longrightarrow> unat (of_nat (48 + d) :: u8) = 48 + d"
  by (simp add: unat_of_nat_u8 del: of_nat_add)

lemma is_digit_of_nat: "d < 10 \<Longrightarrow> is_digit (of_nat (48 + d))"
  by (simp add: is_digit_def word_le_nat_alt unat_digit del: of_nat_add)

lemma show_nat_digits: "list_all is_digit (show_nat n)"
proof (induction n rule: show_nat.induct)
  case (1 n)
  then show ?case
    by (simp add: show_nat.simps [of n] is_digit_of_nat del: of_nat_add)
qed

lemma show_nat_nonempty [simp]: "show_nat n \<noteq> []"
  by (subst show_nat.simps) simp

lemma show_nat_leading: "0 < n \<Longrightarrow> hd (show_nat n) \<noteq> 48"
proof (induction n rule: show_nat.induct)
  case (1 n)
  show ?case
  proof (cases "n < 10")
    case True
    have "unat (of_nat (48 + n) :: u8) = 48 + n" using True by (simp add: unat_of_nat del: of_nat_add)
    with True "1.prems" have "unat (of_nat (48 + n) :: u8) \<noteq> unat (48 :: u8)" by simp
    with True show ?thesis by (auto simp: show_nat.simps [of n] simp del: of_nat_add)
  next
    case False
    with "1.IH" show ?thesis by (simp add: show_nat.simps [of n] del: of_nat_add)
  qed
qed

text \<open>How strings that start with a number and a slash are ordered.\<close>

lemma digits_before:
  "list_all is_digit a \<Longrightarrow> list_all is_digit b \<Longrightarrow>
   a @ 47 # f \<le> b @ 47 # g \<longleftrightarrow> (if a = b then f \<le> g else a @ [47] \<le> b @ [47])"
proof (induction a arbitrary: b)
  case Nil
  then show ?case by (cases b) (auto simp: is_digit_def word_le_nat_alt word_less_nat_alt)
next
  case (Cons d a)
  then show ?case by (cases b) (auto simp: is_digit_def word_le_nat_alt word_less_nat_alt)
qed

lemma digits_val_show_nat [simp]: "digits_val (show_nat n) = n"
proof (induction n rule: show_nat.induct)
  case (1 n)
  then show ?case
    using digits_val_snoc [of "[]"]
    by (simp add: show_nat.simps [of n] unat_digit del: of_nat_add)
qed

lemma not_digit_slash [simp]: "\<not> is_digit 47"
  by (simp add: is_digit_def)

lemma is_digit_not_space: "is_digit b \<Longrightarrow> \<not> is_space b"
  by (auto simp: is_digit_def is_space_def word_le_nat_alt)

lemma is_digit_no_sign: "is_digit b \<Longrightarrow> b \<noteq> 45 \<and> b \<noteq> 43"
  by (auto simp: is_digit_def)

lemma takeWhile_digits: "list_all is_digit ds \<Longrightarrow> takeWhile is_digit (ds @ 47 # r) = ds"
  and dropWhile_digits: "list_all is_digit ds \<Longrightarrow> dropWhile is_digit (ds @ 47 # r) = 47 # r"
  by (induction ds) auto

lemma show_nat_head:
  "takeWhile is_space (show_nat n @ r) = []"
  "dropWhile is_space (show_nat n @ r) = show_nat n @ r"
  "read_sign (show_nat n @ r) = (1, 0, show_nat n @ r)"
proof -
  obtain d ds where n: "show_nat n = d # ds" by (cases "show_nat n") auto
  have "is_digit d" using show_nat_digits [of n] n by simp
  then show "takeWhile is_space (show_nat n @ r) = []"
    "dropWhile is_space (show_nat n @ r) = show_nat n @ r"
    "read_sign (show_nat n @ r) = (1, 0, show_nat n @ r)"
    using n is_digit_not_space is_digit_no_sign by (auto simp: read_sign_def)
qed

lemmas show_nat_scan = show_nat_head takeWhile_digits [OF show_nat_digits] dropWhile_digits [OF show_nat_digits]

lemma stoll_show_nat:
  "stoll (show_nat n @ 47 # r) = (if n < 2 ^ 63 then ret (int n, length (show_nat n)) else throw Out_Of_Range)"
  by (auto simp: stoll_def show_nat_scan Let_def)

lemma extract_show_nat:
  "n < 2 ^ 64 \<Longrightarrow> extract_u64 (show_nat n @ 47 # r) = Some (of_nat n, 47 # r, True)"
  by (simp add: extract_u64_def show_nat_scan Let_def)

lemma show_nat_no_space: "dropWhile is_space (show_nat n) = show_nat n" "read_sign (show_nat n) = (1, 0, show_nat n)"
  using show_nat_head [of n "[]"] by simp_all

lemma takeWhile_show_nat: "takeWhile is_digit (show_nat n) = show_nat n"
  using show_nat_digits [of n] by (simp add: list_all_iff)

lemma strtoul_show_nat: "strtoul (show_nat n) = (if n < 2 ^ 64 then of_nat n else -1)"
  by (simp add: strtoul_def show_nat_no_space takeWhile_show_nat)

lemma atoi_show_nat: "n < 2 ^ 31 \<Longrightarrow> atoi (show_nat n) = int n"
  by (simp add: atoi_def show_nat_no_space takeWhile_show_nat sint_sbintrunc' signed_take_bit_int_eq_self)

lemma atoi_minus_nat:
  assumes "n < 2 ^ 31"
  shows "atoi (ascii ''-'' @ show_nat n) = - int n"
proof -
  have "dropWhile is_space (ascii ''-'' @ show_nat n) = ascii ''-'' @ show_nat n"
    by (simp add: ascii_def is_space_def)
  moreover have "read_sign (ascii ''-'' @ show_nat n) = (-1, 1, show_nat n)"
    by (simp add: ascii_def read_sign_def)
  ultimately show ?thesis
    using assms by (simp add: atoi_def takeWhile_show_nat sint_sbintrunc' signed_take_bit_int_eq_self)
qed

lemma show_nat_inj_prefix:
  assumes "show_nat m @ 47 # r = show_nat n @ 47 # s"
  shows "m = n \<and> r = s"
proof -
  from assms have "takeWhile is_digit (show_nat m @ 47 # r) = takeWhile is_digit (show_nat n @ 47 # s)"
    by (rule arg_cong)
  then have "show_nat m = show_nat n" by (simp add: show_nat_scan)
  then have "m = n" using digits_val_show_nat by metis
  with assms show ?thesis by simp
qed

end
