(* ===== verification/Kv_Store.thy ===== *)
theory Kv_Store
  imports Prelude
begin

text \<open>
  The part of LevelDB the programs call. LevelDB is a git submodule that is not part of
  the sources, so its operations are a parameter of every model that uses it: the record
  \<open>leveldb\<close>. What the callers rely on is the locale \<open>kv_store\<close>, LevelDB's documented
  contract: a map from byte strings to byte strings whose iterators walk a snapshot in
  the order of the default bytewise comparator. An ordered association list provides it.
\<close>

section \<open>Operations\<close>

record ('db, 'it) leveldb =
  db_put :: "'db \<Rightarrow> bytes \<Rightarrow> bytes \<Rightarrow> 'db"
  db_get :: "'db \<Rightarrow> bytes \<Rightarrow> bytes option"
  db_delete :: "'db \<Rightarrow> bytes \<Rightarrow> 'db"
  it_first :: "'db \<Rightarrow> 'it"
  it_seek :: "'db \<Rightarrow> bytes \<Rightarrow> 'it"
  it_valid :: "'it \<Rightarrow> bool"
  it_key :: "'it \<Rightarrow> bytes"
  it_value :: "'it \<Rightarrow> bytes"
  it_next :: "'it \<Rightarrow> 'it"

section \<open>Contract\<close>

locale kv_store =
  fixes L :: "('db, 'it) leveldb"
    and inv :: "'db \<Rightarrow> bool"
    and abs :: "'db \<Rightarrow> bytes \<rightharpoonup> bytes"
    and todo :: "'it \<Rightarrow> (bytes \<times> bytes) list"
  assumes put_inv: "inv db \<Longrightarrow> inv (db_put L db k v)"
    and delete_inv: "inv db \<Longrightarrow> inv (db_delete L db k)"
    and put: "inv db \<Longrightarrow> abs (db_put L db k v) = (abs db)(k \<mapsto> v)"
    and delete: "inv db \<Longrightarrow> abs (db_delete L db k) = (abs db)(k := None)"
    and get: "inv db \<Longrightarrow> db_get L db k = abs db k"
    and first_sorted: "inv db \<Longrightarrow> sorted_wrt (<) (map fst (todo (it_first L db)))"
    and first_map: "inv db \<Longrightarrow> map_of (todo (it_first L db)) = abs db"
    and seek: "inv db \<Longrightarrow> todo (it_seek L db k) = filter (\<lambda>e. k \<le> fst e) (todo (it_first L db))"
    and valid: "it_valid L it \<longleftrightarrow> todo it \<noteq> []"
    and key: "todo it = e # es \<Longrightarrow> it_key L it = fst e"
    and val: "todo it = e # es \<Longrightarrow> it_value L it = snd e"
    and nxt: "todo it = e # es \<Longrightarrow> todo (it_next L it) = es"
begin

lemma first_distinct: "inv db \<Longrightarrow> distinct (map fst (todo (it_first L db)))"
  using first_sorted by (simp add: strict_sorted_iff)

lemma first_entries: "inv db \<Longrightarrow> (k, v) \<in> set (todo (it_first L db)) \<longleftrightarrow> abs db k = Some v"
  using first_map first_distinct by (metis map_of_eq_Some_iff)

lemma first_keys: "inv db \<Longrightarrow> fst ` set (todo (it_first L db)) = dom (abs db)"
  using first_map dom_map_of_conv_image_fst by metis

end

section \<open>An ordered association list\<close>

type_synonym olist = "(bytes \<times> bytes) list"

fun ol_put :: "olist \<Rightarrow> bytes \<Rightarrow> bytes \<Rightarrow> olist" where
  "ol_put [] k v = [(k, v)]"
| "ol_put ((k', v') # es) k v =
     (if k < k' then (k, v) # (k', v') # es
      else if k = k' then (k, v) # es
      else (k', v') # ol_put es k v)"

definition ol_delete :: "olist \<Rightarrow> bytes \<Rightarrow> olist" where
  "ol_delete es k = filter (\<lambda>e. fst e \<noteq> k) es"

definition ol_ops :: "(olist, olist) leveldb" where
  "ol_ops = \<lparr>db_put = ol_put, db_get = map_of, db_delete = ol_delete, it_first = id,
     it_seek = (\<lambda>es k. filter (\<lambda>e. k \<le> fst e) es), it_valid = (\<lambda>es. es \<noteq> []),
     it_key = (\<lambda>es. fst (hd es)), it_value = (\<lambda>es. snd (hd es)), it_next = tl\<rparr>"

lemma ol_ops_simps [simp]:
  "db_put ol_ops = ol_put" "db_get ol_ops = map_of" "db_delete ol_ops = ol_delete"
  "it_first ol_ops es = es" "it_seek ol_ops es k = filter (\<lambda>e. k \<le> fst e) es"
  by (simp_all add: ol_ops_def)

definition ol_inv :: "olist \<Rightarrow> bool" where
  "ol_inv es \<longleftrightarrow> sorted_wrt (<) (map fst es)"

lemma set_ol_put: "fst ` set (ol_put es k v) = insert k (fst ` set es)"
  by (induction es k v rule: ol_put.induct) auto

lemma ol_put_inv: "ol_inv es \<Longrightarrow> ol_inv (ol_put es k v)"
proof (induction es k v rule: ol_put.induct)
  case (2 k' v' es k v)
  then show ?case
    using set_ol_put [of es k v] by (auto simp: ol_inv_def dest: order.strict_trans)
qed (simp add: ol_inv_def)

lemma map_of_ol_put: "ol_inv es \<Longrightarrow> map_of (ol_put es k v) = (map_of es)(k \<mapsto> v)"
proof (induction es k v rule: ol_put.induct)
  case (2 k' v' es k v)
  then show ?case by (auto simp: ol_inv_def fun_eq_iff)
qed simp

lemma map_of_ol_delete: "map_of (ol_delete es k) = (map_of es)(k := None)"
  by (induction es) (auto simp: ol_delete_def fun_eq_iff)

lemma ol_delete_inv: "ol_inv es \<Longrightarrow> ol_inv (ol_delete es k)"
  by (simp add: ol_inv_def ol_delete_def sorted_wrt_map sorted_wrt_filter)

interpretation ol: kv_store ol_ops ol_inv map_of "\<lambda>es. es"
  by unfold_locales
    (auto simp: ol_ops_def ol_put_inv ol_delete_inv map_of_ol_put map_of_ol_delete,
     simp_all add: ol_inv_def)

end
