(* ===== verification/Executor.thy ===== *)
theory Executor
  imports Wire Numtext Kv_Store
begin

text \<open>
  The class \<open>LevelDBExecutor\<close> of \<^verbatim>\<open>apps/ycsbserver/ops.cc\<close>: the key encoding, the four
  database operations, \<open>execute\<close> with its statistics, \<open>reset_stats\<close> and \<open>print_stats\<close>.
  The database is a parameter \<open>L\<close>; cycle-counter readings are a function \<open>clk\<close> from the
  number of earlier readings. Loops over an iterator may in principle not end, so they
  are partial functions, proved to return under the contract of the store.
\<close>

section \<open>Keys\<close>

definition pack_key :: "u64 \<Rightarrow> bytes \<Rightarrow> bytes \<Rightarrow> bytes" where
  "pack_key key field prefix = show_u64 key @ ascii ''/'' @ prefix @ field"

text \<open>\<open>substr\<close> throws when it starts behind the end of the string.\<close>

definition unpack_key :: "bytes \<Rightarrow> (u64 \<times> bytes) result" where
  "unpack_key key_field =
     rbind (stoll key_field) (\<lambda>(v, pos).
       if length key_field < pos + 1 then throw Out_Of_Range
       else ret (of_int v, drop (pos + 1) key_field))"

text \<open>
  The two extractions of \<open>exec_read\<close> from an \<open>istringstream\<close>; \<open>None\<close> if the key is left
  uninitialised. After a failed extraction the second one does nothing.
\<close>

definition istream_key_field :: "bytes \<Rightarrow> (u64 \<times> bytes) option" where
  "istream_key_field s =
     (case extract_u64 s of
        None \<Rightarrow> None
      | Some (key, s', ok) \<Rightarrow> Some (key, if ok then extract_word s' else []))"

section \<open>State\<close>

record 'db ldb_executor =
  t_insert :: u64
  t_read :: u64
  t_scan :: u64
  t_update :: u64
  n_insert :: u64
  n_read :: u64
  n_scan :: u64
  n_update :: u64
  ex_db :: 'db
  ex_now :: nat

definition reset_stats :: "'db ldb_executor \<Rightarrow> 'db ldb_executor" where
  "reset_stats x = x\<lparr>n_insert := 0, n_read := 0, n_scan := 0, n_update := 0,
                     t_insert := 0, t_read := 0, t_scan := 0, t_update := 0\<rparr>"

text \<open>The constructor: \<open>opn\<close> is what \<open>leveldb::DB::Open\<close> finds or creates under a name.\<close>

definition ldb_create :: "(bytes \<Rightarrow> 'db option) \<Rightarrow> bytes \<Rightarrow> nat \<Rightarrow> 'db ldb_executor result" where
  "ldb_create opn name now =
     (case opn name of
        None \<Rightarrow> throw Invalid_Argument
      | Some db \<Rightarrow>
          ret \<lparr>t_insert = 0, t_read = 0, t_scan = 0, t_update = 0, n_insert = 0, n_read = 0,
               n_scan = 0, n_update = 0, ex_db = db, ex_now = now\<rparr>)"

text \<open>The four lines printed: the total and the average, in the order printed.\<close>

definition print_stats :: "'db ldb_executor \<Rightarrow> (u64 \<times> u64) list" where
  "print_stats x =
     [(t_insert x, if n_insert x > 0 then t_insert x div n_insert x else 0),
      (t_read x, if n_read x > 0 then t_read x div n_read x else 0),
      (t_update x, if n_update x > 0 then t_update x div n_update x else 0),
      (t_scan x, if n_scan x > 0 then t_scan x div n_scan x else 0)]"

section \<open>Operations on the database\<close>

text \<open>The status of \<open>Put\<close> is ignored.\<close>

definition exec_insert :: "('db, 'it) leveldb \<Rightarrow> package \<Rightarrow> 'db \<Rightarrow> 'db" where
  "exec_insert L pkg db =
     fold (\<lambda>pair d. db_put L d (pack_key (pkg_key pkg) (fst pair) (ascii ''field'')) (snd pair))
       (kv_pairs pkg) db"

partial_function (option) exec_read_all ::
  "('db, 'it) leveldb \<Rightarrow> u64 \<Rightarrow> 'it \<Rightarrow> (bytes \<times> bytes) list \<Rightarrow> (bytes \<times> bytes) list result"
where
  "exec_read_all L pkey it res =
     (if it_valid L it then
        (case istream_key_field (it_key L it) of
           None \<Rightarrow> undef
         | Some (key, field) \<Rightarrow>
             exec_read_all L pkey (it_next L it)
               (if key = pkey then res @ [(field, it_value L it)] else res))
      else ret res)"

fun exec_read_fields ::
  "('db, 'it) leveldb \<Rightarrow> 'db \<Rightarrow> u64 \<Rightarrow> (bytes \<times> bytes) list \<Rightarrow> (bytes \<times> bytes) list \<Rightarrow> (bytes \<times> bytes) list"
where
  "exec_read_fields L db pkey [] res = res"
| "exec_read_fields L db pkey (pair # pairs) res =
     exec_read_fields L db pkey pairs
       (case db_get L db (pack_key pkey (fst pair) []) of
          Some v \<Rightarrow> res @ [(fst pair, v)]
        | None \<Rightarrow> res)"

definition exec_read :: "('db, 'it) leveldb \<Rightarrow> package \<Rightarrow> 'db \<Rightarrow> (bytes \<times> bytes) list result" where
  "exec_read L pkg db =
     (if kv_pairs pkg = [] then exec_read_all L (pkg_key pkg) (it_first L db) []
      else ret (exec_read_fields L db (pkg_key pkg) (kv_pairs pkg) []))"

definition take_field :: "package \<Rightarrow> bytes \<Rightarrow> bool" where
  "take_field pkg field \<longleftrightarrow> kv_pairs pkg = [] \<or> list_ex (\<lambda>pair. fst pair = field) (kv_pairs pkg)"

partial_function (option) exec_scan_loop ::
  "('db, 'it) leveldb \<Rightarrow> package \<Rightarrow> u64 \<Rightarrow> u64 \<Rightarrow> 'it \<Rightarrow> (bytes \<times> bytes) list \<Rightarrow> (bytes \<times> bytes) list result"
where
  "exec_scan_loop L pkg remain last_key it res =
     (if remain > 0 \<and> it_valid L it then
        rbind (unpack_key (it_key L it)) (\<lambda>(key, field).
          if key \<ge> pkg_key pkg then
            if take_field pkg field then
              exec_scan_loop L pkg
                (if last_key \<noteq> 0 \<and> last_key \<noteq> key then remain - 1 else remain) key (it_next L it)
                (res @ [(field, it_value L it)])
            else exec_scan_loop L pkg remain key (it_next L it) res
          else exec_scan_loop L pkg remain last_key (it_next L it) res)
      else ret res)"

definition exec_scan :: "('db, 'it) leveldb \<Rightarrow> package \<Rightarrow> 'db \<Rightarrow> (bytes \<times> bytes) list result" where
  "exec_scan L pkg db =
     exec_scan_loop L pkg (pkg_scan_length pkg) 0
       (case kv_pairs pkg of
          [pair] \<Rightarrow> it_seek L db (pack_key (pkg_key pkg) (fst pair) [])
        | _ \<Rightarrow> it_first L db) []"

section \<open>execute\<close>

datatype operation = INSERT | DELETE | READ | SCAN | UPDATE

fun operation_code :: "operation \<Rightarrow> u8" where
  "operation_code INSERT = 1"
| "operation_code DELETE = 2"
| "operation_code READ = 3"
| "operation_code SCAN = 4"
| "operation_code UPDATE = 5"

definition pairs_size :: "(bytes \<times> bytes) list \<Rightarrow> u64" where
  "pairs_size vals = fold (\<lambda>pair n. n + of_nat (length (fst pair) + length (snd pair))) vals 0"

definition execute ::
  "('db, 'it) leveldb \<Rightarrow> (nat \<Rightarrow> u64) \<Rightarrow> package \<Rightarrow> 'db ldb_executor \<Rightarrow> (u64 \<times> 'db ldb_executor) result"
where
  "execute L clk pkg x =
     (let start = clk (ex_now x); time = clk (Suc (ex_now x)) - start; now' = ex_now x + 2
      in if pkg_op pkg = operation_code INSERT then
           ret (4, x\<lparr>ex_db := exec_insert L pkg (ex_db x), ex_now := now',
                     t_insert := t_insert x + time, n_insert := n_insert x + 1\<rparr>)
         else if pkg_op pkg = operation_code UPDATE then
           ret (4, x\<lparr>ex_db := exec_insert L pkg (ex_db x), ex_now := now',
                     t_update := t_update x + time, n_update := n_update x + 1\<rparr>)
         else if pkg_op pkg = operation_code READ then
           rbind (exec_read L pkg (ex_db x)) (\<lambda>vals.
             ret (pairs_size vals, x\<lparr>ex_now := now', t_read := t_read x + time, n_read := n_read x + 1\<rparr>))
         else if pkg_op pkg = operation_code SCAN then
           rbind (exec_scan L pkg (ex_db x)) (\<lambda>vals.
             ret (pairs_size vals, x\<lparr>ex_now := now', t_scan := t_scan x + time, n_scan := n_scan x + 1\<rparr>))
         else if pkg_op pkg = operation_code DELETE then ret (4, x)
         else ret (0, x))"

section \<open>The key encoding\<close>

lemma ascii_slash [simp]: "ascii ''/'' = [47]"
  by (simp add: ascii_def)

lemma pack_key_eq: "pack_key k f p = show_nat (unat k) @ 47 # p @ f"
  by (simp add: pack_key_def show_u64_def)

lemma pack_key_iff [simp]:
  "pack_key k f p = pack_key k' f' p' \<longleftrightarrow> k = k' \<and> p @ f = p' @ f'"
  using show_nat_inj_prefix [of "unat k" "p @ f" "unat k'" "p' @ f'"]
  by (auto simp: pack_key_eq word_unat_eq_iff)

lemma unpack_pack:
  "unpack_key (pack_key k f p) = (if unat k < 2 ^ 63 then ret (k, p @ f) else throw Out_Of_Range)"
proof -
  have "of_int (int (unat k)) = k" by simp
  then show ?thesis
    by (simp add: unpack_key_def pack_key_eq stoll_show_nat del: of_int_of_nat_eq)
qed

lemma istream_pack_key:
  "istream_key_field (pack_key k f p) = Some (k, 47 # takeWhile (\<lambda>b. \<not> is_space b) (p @ f))"
proof -
  have "\<not> is_space 47" by (simp add: is_space_def)
  then show ?thesis
    using unat_u64_less [of k]
    by (simp add: istream_key_field_def pack_key_eq extract_show_nat extract_word_def)
qed

text \<open>
  C15: the key encoding. Unpacking a packed key gives the record key and the field back
  for every key below \<open>2 ^ 63\<close>; for the other half of the 64-bit keys \<open>std::stoll\<close>
  throws, so a scan that meets such a record dies.
\<close>

theorem unpack_pack_key:
  "unpack_key (pack_key k f prefix) =
     (if unat k < 2 ^ 63 then ret (k, prefix @ f) else throw Out_Of_Range)"
  by (rule unpack_pack)

section \<open>The loops over an iterator\<close>

text \<open>What the loops compute, on the list of entries the iterator still has to visit.\<close>

fun read_list :: "u64 \<Rightarrow> (bytes \<times> bytes) list \<Rightarrow> (bytes \<times> bytes) list \<Rightarrow> (bytes \<times> bytes) list result" where
  "read_list pkey [] res = ret res"
| "read_list pkey (e # es) res =
     (case istream_key_field (fst e) of
        None \<Rightarrow> undef
      | Some (key, field) \<Rightarrow> read_list pkey es (if key = pkey then res @ [(field, snd e)] else res))"

fun scan_list :: "package \<Rightarrow> u64 \<Rightarrow> u64 \<Rightarrow> (bytes \<times> bytes) list \<Rightarrow> (bytes \<times> bytes) list
  \<Rightarrow> (bytes \<times> bytes) list result" where
  "scan_list pkg remain last_key [] res = ret res"
| "scan_list pkg remain last_key (e # es) res =
     (if remain > 0 then
        rbind (unpack_key (fst e)) (\<lambda>(key, field).
          if key \<ge> pkg_key pkg then
            if take_field pkg field then
              scan_list pkg (if last_key \<noteq> 0 \<and> last_key \<noteq> key then remain - 1 else remain) key es
                (res @ [(field, snd e)])
            else scan_list pkg remain key es res
          else scan_list pkg remain last_key es res)
      else ret res)"

context kv_store
begin

lemmas iterator = valid key val nxt

lemma exec_read_all_list: "exec_read_all L pkey it res = read_list pkey (todo it) res"
proof (induction "todo it" arbitrary: it res)
  case Nil
  then show ?case by (simp add: exec_read_all.simps [of L pkey it] valid)
next
  case (Cons e es)
  from Cons(2) [symmetric] show ?case
    by (subst exec_read_all.simps) (simp add: iterator Cons(1) split: option.split)
qed

lemma exec_scan_loop_list:
  "exec_scan_loop L pkg remain last_key it res = scan_list pkg remain last_key (todo it) res"
proof (induction "todo it" arbitrary: it remain last_key res)
  case Nil
  then show ?case by (simp add: exec_scan_loop.simps [of L pkg remain last_key it] valid)
next
  case (Cons e es)
  from Cons(2) [symmetric] show ?case
    by (subst exec_scan_loop.simps) (simp add: iterator Cons(1) split_def cong: if_cong)
qed

lemma exec_insert_fold:
  assumes "inv db"
  shows "inv (exec_insert L pkg db) \<and> abs (exec_insert L pkg db)
       = fold (\<lambda>pair m. m(pack_key (pkg_key pkg) (fst pair) (ascii ''field'') \<mapsto> snd pair)) (kv_pairs pkg) (abs db)"
proof -
  let ?f = "\<lambda>pair d. db_put L d (pack_key (pkg_key pkg) (fst pair) (ascii ''field'')) (snd pair)"
  let ?g = "\<lambda>pair m. m(pack_key (pkg_key pkg) (fst pair) (ascii ''field'') \<mapsto> snd pair)"
  have "inv (fold ?f ps d) \<and> abs (fold ?f ps d) = fold ?g ps (abs d)" if "inv d" for ps d
    using that by (induction ps arbitrary: d) (simp_all add: put put_inv)
  then show ?thesis using assms unfolding exec_insert_def by blast
qed

lemma exec_read_fields_abs:
  "inv db \<Longrightarrow> exec_read_fields L db pkey ps res = res
     @ concat (map (\<lambda>p. case abs db (pack_key pkey (fst p) []) of Some v \<Rightarrow> [(fst p, v)] | None \<Rightarrow> []) ps)"
  by (induction ps arbitrary: res) (simp_all add: get split: option.split)

end

section \<open>Records\<close>

text \<open>
  A record is a key with its fields; the store holds one entry per field, and the entries
  of one record are neighbours in the store's order.
\<close>

type_synonym ycsb_record = "u64 \<times> (bytes \<times> bytes) list"

definition rec_entries :: "ycsb_record \<Rightarrow> (bytes \<times> bytes) list" where
  "rec_entries r = map (\<lambda>fv. (pack_key (fst r) (fst fv) [], snd fv)) (snd r)"

definition db_entries :: "ycsb_record list \<Rightarrow> (bytes \<times> bytes) list" where
  "db_entries recs = concat (map rec_entries recs)"

text \<open>Keys that \<open>std::stoll\<close> can read and that the scan does not take for \<open>no key yet\<close>.\<close>

definition plain_records :: "ycsb_record list \<Rightarrow> bool" where
  "plain_records recs \<longleftrightarrow> distinct (map fst recs)
     \<and> list_all (\<lambda>r. fst r \<noteq> 0 \<and> unat (fst r) < 2 ^ 63 \<and> snd r \<noteq> []) recs"

text \<open>The records a scan is meant to return, each cut down to the fields asked for.\<close>

definition wanted :: "package \<Rightarrow> ycsb_record list \<Rightarrow> (bytes \<times> bytes) list list" where
  "wanted pkg recs =
     map (\<lambda>r. filter (\<lambda>fv. take_field pkg (fst fv)) (snd r)) (filter (\<lambda>r. pkg_key pkg \<le> fst r) recs)"

lemma wanted_simps [simp]:
  "wanted pkg [] = []"
  "wanted pkg ((k, fs) # recs) =
     (if pkg_key pkg \<le> k then filter (\<lambda>fv. take_field pkg (fst fv)) fs # wanted pkg recs else wanted pkg recs)"
  by (simp_all add: wanted_def)

lemma db_entries_simps [simp]:
  "db_entries [] = []" "db_entries ((k, fs) # recs) = rec_entries (k, fs) @ db_entries recs"
  by (simp_all add: db_entries_def)

lemma rec_entries_simps [simp]:
  "rec_entries (k, []) = []"
  "rec_entries (k, (f, v) # fs) = (pack_key k f [], v) # rec_entries (k, fs)"
  by (simp_all add: rec_entries_def)

subsection \<open>One record under the scan loop\<close>

lemma scan_same_record:
  assumes "pkg_key pkg \<le> k" "unat k < 2 ^ 63" "0 < remain"
  shows "scan_list pkg remain k (rec_entries (k, fs) @ es) acc
       = scan_list pkg remain k es (acc @ filter (\<lambda>fv. take_field pkg (fst fv)) fs)"
  using assms by (induction fs arbitrary: acc) (auto simp: unpack_pack)

lemma scan_free_record:
  assumes "pkg_key pkg \<le> k" "unat k < 2 ^ 63" "0 < remain"
    "last_key = 0 \<or> \<not> take_field pkg (fst (hd fs))" "fs \<noteq> []"
  shows "scan_list pkg remain last_key (rec_entries (k, fs) @ es) acc
       = scan_list pkg remain k es (acc @ filter (\<lambda>fv. take_field pkg (fst fv)) fs)"
proof -
  obtain f v fs' where "fs = (f, v) # fs'" using assms(5) by (cases fs) auto
  with assms show ?thesis
    by (auto simp: unpack_pack scan_same_record)
qed

lemma scan_next_record:
  assumes "pkg_key pkg \<le> k" "unat k < 2 ^ 63" "0 < remain" "last_key \<noteq> 0" "last_key \<noteq> k"
    "take_field pkg (fst (hd fs))" "fs \<noteq> []"
  shows "scan_list pkg remain last_key (rec_entries (k, fs) @ es) acc
       = (if remain = 1 then ret (acc @ [hd fs])
          else scan_list pkg (remain - 1) k es (acc @ filter (\<lambda>fv. take_field pkg (fst fv)) fs))"
proof -
  obtain f v fs' where fs: "fs = (f, v) # fs'" using assms(7) by (cases fs) auto
  show ?thesis
  proof (cases "remain = 1")
    case True
    have "scan_list pkg 0 k es' acc' = ret acc'" for es' acc' by (cases es') simp_all
    with True assms fs show ?thesis by (simp add: unpack_pack)
  next
    case False
    then have "remain - 1 \<noteq> 0" by simp
    then have "0 < remain - 1" by (simp add: word_gt_0)
    with False assms fs show ?thesis by (simp add: unpack_pack scan_same_record)
  qed
qed

lemma scan_skip_record:
  assumes "\<not> pkg_key pkg \<le> k" "unat k < 2 ^ 63" "0 < remain"
  shows "scan_list pkg remain last_key (rec_entries (k, fs) @ es) acc = scan_list pkg remain last_key es acc"
  using assms by (induction fs) (auto simp: unpack_pack)

subsection \<open>All records\<close>

abbreviation heads_taken :: "package \<Rightarrow> ycsb_record list \<Rightarrow> bool" where
  "heads_taken pkg recs \<equiv> list_all (\<lambda>r. take_field pkg (fst (hd (snd r)))) recs"

abbreviation heads_not_taken :: "package \<Rightarrow> ycsb_record list \<Rightarrow> bool" where
  "heads_not_taken pkg recs \<equiv> list_all (\<lambda>r. \<not> take_field pkg (fst (hd (snd r)))) recs"

text \<open>Keys that \<open>std::stoll\<close> can read.\<close>

abbreviation readable :: "ycsb_record \<Rightarrow> bool" where
  "readable r \<equiv> unat (fst r) < 2 ^ 63"

text \<open>
  What a scan over \<open>recs\<close> makes of a limit of \<open>n\<close> records: the wanted part of the first \<open>n\<close> and
  one field of the next, if it gets that far before a key that cannot be read.
\<close>

definition scan_answer :: "package \<Rightarrow> nat \<Rightarrow> ycsb_record list \<Rightarrow> (bytes \<times> bytes) list result" where
  "scan_answer pkg n recs =
     (let rs = takeWhile readable recs; w = wanted pkg rs
      in if rs = recs \<or> n < length w then ret (concat (take n w) @ take 1 (concat (drop n w)))
         else throw Out_Of_Range)"

lemma scan_answer_skip:
  "readable r \<Longrightarrow> \<not> pkg_key pkg \<le> fst r \<Longrightarrow> scan_answer pkg n (r # recs) = scan_answer pkg n recs"
  by (cases r) (simp add: scan_answer_def Let_def)

lemma scan_answer_next:
  "readable r \<Longrightarrow> pkg_key pkg \<le> fst r \<Longrightarrow>
   scan_answer pkg (Suc n) (r # recs)
     = rbind (scan_answer pkg n recs) (\<lambda>vs. ret (filter (\<lambda>fv. take_field pkg (fst fv)) (snd r) @ vs))"
  by (cases r) (simp add: scan_answer_def Let_def)

lemma scan_answer_last:
  "readable r \<Longrightarrow> pkg_key pkg \<le> fst r \<Longrightarrow> snd r \<noteq> [] \<Longrightarrow> take_field pkg (fst (hd (snd r))) \<Longrightarrow>
   scan_answer pkg 0 (r # recs) = ret [hd (snd r)]"
  by (cases r; cases "snd r") (simp_all add: scan_answer_def Let_def)

lemma scan_large_record:
  "\<not> readable r \<Longrightarrow> snd r \<noteq> [] \<Longrightarrow> 0 < remain \<Longrightarrow>
   scan_list pkg remain last_key (rec_entries r @ es) acc = throw Out_Of_Range"
  by (cases r; cases "snd r"; cases "hd (snd r)") (simp_all add: unpack_pack)

abbreviation nonempty_records :: "ycsb_record list \<Rightarrow> bool" where
  "nonempty_records recs \<equiv> list_all (\<lambda>r. snd r \<noteq> []) recs"

lemma rbind_ret_append: "rbind (rbind r (\<lambda>vs. ret (xs @ vs))) (\<lambda>vs. ret (acc @ vs)) = rbind r (\<lambda>vs. ret ((acc @ xs) @ vs))"
  by (cases r; cases "the r") simp_all

lemma rbind_ret_id: "rbind r ret = r"
  by (cases r; cases "the r") simp_all

lemma scan_counting:
  assumes "distinct (map fst recs)" "nonempty_records recs" "heads_taken pkg recs" "0 \<notin> fst ` set recs"
    "0 < remain" "last_key \<noteq> 0" "last_key \<notin> fst ` set recs"
  shows "scan_list pkg remain last_key (db_entries recs) acc
       = rbind (scan_answer pkg (unat remain - 1) recs) (\<lambda>vs. ret (acc @ vs))"
  using assms
proof (induction recs arbitrary: remain last_key acc)
  case Nil
  then show ?case by (simp add: scan_answer_def)
next
  case (Cons r recs)
  obtain k fs where r: "r = (k, fs)" by (cases r)
  have k: "k \<noteq> 0" "fs \<noteq> []" "k \<notin> fst ` set recs" "take_field pkg (fst (hd fs))" "last_key \<noteq> k"
    and rest: "distinct (map fst recs)" "nonempty_records recs" "heads_taken pkg recs" "0 \<notin> fst ` set recs" "last_key \<notin> fst ` set recs"
    using Cons.prems r by auto
  have step: "db_entries (r # recs) = rec_entries (k, fs) @ db_entries recs" by (simp add: r)
  consider "\<not> readable r" | "readable r" "\<not> pkg_key pkg \<le> k" | "readable r" "pkg_key pkg \<le> k" by blast
  then show ?case
  proof cases
    case 1
    with scan_large_record [of r remain] k(2) Cons.prems(5) step r show ?thesis
      by (simp add: scan_answer_def Let_def)
  next
    case 2
    with Cons.IH [OF rest(1-4) Cons.prems(5,6) rest(5)] step r Cons.prems(5) show ?thesis
      by (simp add: scan_skip_record scan_answer_skip)
  next
    case 3
    note entry = scan_next_record [of pkg k remain last_key fs "db_entries recs" acc]
    show ?thesis
    proof (cases "remain = 1")
      case True
      with entry 3 k step r Cons.prems(5,6) show ?thesis by (simp add: scan_answer_last)
    next
      case False
      then have "unat remain \<noteq> 1" by (simp add: word_unat_eq_iff)
      moreover have "unat remain \<noteq> 0" using Cons.prems(5) by (simp add: word_less_nat_alt)
      moreover have "unat (remain - 1) = unat remain - 1" using Cons.prems(5) by (intro unat_minus_one) auto
      ultimately obtain j where j: "unat remain - 1 = Suc j" "unat (remain - 1) - 1 = j" "0 < remain - 1"
        by (cases "unat remain - 1") (auto simp: word_less_nat_alt)
      with Cons.IH [OF rest(1-4) j(3) k(1,3)] entry False 3 k step r Cons.prems(5,6) show ?thesis
        by (simp add: scan_answer_next rbind_ret_append)
    qed
  qed
qed

text \<open>
  From the start, where \<open>last_key\<close> is 0: the first wanted record is free, and so is one more if
  that has the key 0.
\<close>

lemma scan_from_start:
  assumes "distinct (map fst recs)" "nonempty_records recs" "heads_taken pkg recs" "0 \<notin> fst ` set recs" "0 < remain"
  shows "scan_list pkg remain 0 (db_entries recs) acc = rbind (scan_answer pkg (unat remain) recs) (\<lambda>vs. ret (acc @ vs))"
  using assms
proof (induction recs)
  case Nil
  then show ?case by (simp add: scan_answer_def)
next
  case (Cons r recs)
  obtain k fs where r: "r = (k, fs)" by (cases r)
  have k: "k \<noteq> 0" "fs \<noteq> []" "k \<notin> fst ` set recs" "take_field pkg (fst (hd fs))"
    and rest: "distinct (map fst recs)" "nonempty_records recs" "heads_taken pkg recs" "0 \<notin> fst ` set recs"
    using Cons.prems r by auto
  have step: "db_entries (r # recs) = rec_entries (k, fs) @ db_entries recs" by (simp add: r)
  obtain j where j: "unat remain = Suc j"
    using Cons.prems(5) by (cases "unat remain") (auto simp: word_less_nat_alt)
  consider "\<not> readable r" | "readable r" "\<not> pkg_key pkg \<le> k" | "readable r" "pkg_key pkg \<le> k" by blast
  then show ?case
  proof cases
    case 1
    with scan_large_record [of r remain] k(2) Cons.prems(5) step r show ?thesis
      by (simp add: scan_answer_def Let_def)
  next
    case 2
    with Cons.IH [OF rest Cons.prems(5)] step r Cons.prems(5) show ?thesis
      by (simp add: scan_skip_record scan_answer_skip)
  next
    case 3
    with scan_counting [OF rest Cons.prems(5) k(1,3)] k step r j Cons.prems(5) show ?thesis
      by (simp add: scan_free_record scan_answer_next rbind_ret_append)
  qed
qed

lemma scan_all:
  assumes "distinct (map fst recs)" "nonempty_records recs" "heads_taken pkg recs" "0 \<notin> fst ` set (tl recs)" "0 < remain"
  shows "scan_list pkg remain 0 (db_entries recs) []
       = scan_answer pkg (unat remain + (if pkg_key pkg = 0 \<and> 0 \<in> fst ` set recs then 1 else 0)) recs"
proof (cases "0 \<in> fst ` set recs")
  case True
  with assms(4) obtain fs recs' where r: "recs = (0, fs) # recs'" "0 \<notin> fst ` set recs'"
    by (cases recs) (auto simp: image_iff)
  have start: "scan_list pkg remain 0 (db_entries recs') acc = rbind (scan_answer pkg (unat remain) recs') (\<lambda>vs. ret (acc @ vs))" for acc
    using assms r by (intro scan_from_start) auto
  show ?thesis
  proof (cases "pkg_key pkg = 0")
    case True
    with r assms start show ?thesis by (simp add: scan_free_record scan_answer_next)
  next
    case False
    then have "\<not> pkg_key pkg \<le> 0" by simp
    with r assms start [of "[]"] False show ?thesis by (simp add: scan_skip_record scan_answer_skip rbind_ret_id)
  qed
next
  case False
  with scan_from_start [OF assms(1-3) False assms(5), of "[]"] show ?thesis by (simp add: rbind_ret_id)
qed

lemma scan_not_counting:
  assumes "plain_records recs" "heads_not_taken pkg recs" "0 < remain"
  shows "scan_list pkg remain last_key (db_entries recs) acc = ret (acc @ concat (wanted pkg recs))"
  using assms
proof (induction recs arbitrary: last_key acc)
  case (Cons r recs)
  obtain k fs where r: "r = (k, fs)" by (cases r)
  have k: "unat k < 2 ^ 63" "fs \<noteq> []" "plain_records recs"
    and t: "\<not> take_field pkg (fst (hd fs))" "heads_not_taken pkg recs"
    using Cons.prems r by (auto simp: plain_records_def)
  with Cons r show ?case
    by (cases "pkg_key pkg \<le> k") (simp_all add: scan_skip_record scan_free_record)
qed simp

section \<open>Insertions and reads\<close>

lemma fold_insert_lookup:
  "fold (\<lambda>pair m. m(pack_key k (fst pair) p \<mapsto> snd pair)) ps m (pack_key k f p)
     = (case map_of (rev ps) f of Some v \<Rightarrow> Some v | None \<Rightarrow> m (pack_key k f p))"
  by (induction ps rule: rev_induct) auto

lemma fold_insert_other:
  "\<forall>f. key \<noteq> pack_key k f p \<Longrightarrow> fold (\<lambda>pair m. m(pack_key k (fst pair) p \<mapsto> snd pair)) ps m key = m key"
  by (induction ps rule: rev_induct) auto

lemma pack_field: "pack_key k (p @ f) [] = pack_key k f p"
  by simp

text \<open>
  C10: what was inserted is read back. After an insertion (or an update) of record
  \<open>key\<close>, reading the same fields under their stored names, which the insertion prefixes
  with \<open>field\<close>, returns for each the value last given for it, in the order of the request;
  every entry that is not a field of this record keeps its value.
\<close>

theorem insert_then_read:
  assumes "kv_store L dbinv view todo" "dbinv db" "kv_pairs pkg \<noteq> []" "pkg_key rq = pkg_key pkg"
    "kv_pairs rq = map (\<lambda>pair. (ascii ''field'' @ fst pair, [])) (kv_pairs pkg)"
  shows "exec_read L rq (exec_insert L pkg db)
       = ret (map (\<lambda>pair. (ascii ''field'' @ fst pair, the (map_of (rev (kv_pairs pkg)) (fst pair)))) (kv_pairs pkg))
     \<and> (\<forall>key. (\<forall>f. key \<noteq> pack_key (pkg_key pkg) f (ascii ''field'')) \<longrightarrow>
          view (exec_insert L pkg db) key = view db key)"
proof -
  let ?db = "exec_insert L pkg db"
  from kv_store.exec_insert_fold [OF assms(1,2), of pkg]
  have inv: "dbinv ?db" and view: "view ?db
     = fold (\<lambda>pair m. m(pack_key (pkg_key pkg) (fst pair) (ascii ''field'') \<mapsto> snd pair)) (kv_pairs pkg) (view db)"
    by auto
  have look: "view ?db (pack_key (pkg_key pkg) (ascii ''field'' @ fst pair) [])
      = Some (the (map_of (rev (kv_pairs pkg)) (fst pair)))" if "pair \<in> set (kv_pairs pkg)" for pair
  proof -
    from that have "fst pair \<in> fst ` set (rev (kv_pairs pkg))" by simp
    then obtain v where "map_of (rev (kv_pairs pkg)) (fst pair) = Some v"
      by (metis map_of_eq_None_iff not_Some_eq)
    then show ?thesis by (simp add: view pack_field fold_insert_lookup)
  qed
  have "map (\<lambda>p. case view ?db (pack_key (pkg_key pkg) (fst p) []) of Some v \<Rightarrow> [(fst p, v)] | None \<Rightarrow> []) (kv_pairs rq)
      = map (\<lambda>pair. [(ascii ''field'' @ fst pair, the (map_of (rev (kv_pairs pkg)) (fst pair)))]) (kv_pairs pkg)"
    by (simp add: assms(5) look)
  then have "exec_read_fields L ?db (pkg_key pkg) (kv_pairs rq) []
      = map (\<lambda>pair. (ascii ''field'' @ fst pair, the (map_of (rev (kv_pairs pkg)) (fst pair)))) (kv_pairs pkg)"
    by (simp add: kv_store.exec_read_fields_abs [OF assms(1) inv] concat_map_singleton)
  moreover have "view ?db key = view db key"
    if "\<forall>f. key \<noteq> pack_key (pkg_key pkg) f (ascii ''field'')" for key
    using that by (simp add: view fold_insert_other)
  ultimately show ?thesis using assms(3,4,5) by (simp add: exec_read_def)
qed

theorem insert_then_read_witness:
  "let pkg = \<lparr>pkg_op = 1, pkg_table = 0, pkg_num_kvs = 2, pkg_key = 7, pkg_scan_length = 0,
              kv_pairs = [([48], [97]), ([49], [98])]\<rparr>;
       rq = pkg\<lparr>pkg_op := 3, kv_pairs := [(ascii ''field0'', []), (ascii ''field1'', [])]\<rparr>
   in exec_read ol_ops rq (exec_insert ol_ops pkg [(ascii ''7/field0'', [99])])
      = ret [(ascii ''field0'', [97]), (ascii ''field1'', [98])]"
proof -
  let ?pkg = "\<lparr>pkg_op = 1, pkg_table = 0, pkg_num_kvs = 2, pkg_key = 7, pkg_scan_length = 0,
              kv_pairs = [([48], [97]), ([49], [98])]\<rparr>"
  let ?rq = "\<lparr>pkg_op = 3, pkg_table = 0, pkg_num_kvs = 2, pkg_key = 7, pkg_scan_length = 0,
              kv_pairs = [(ascii ''field0'', []), (ascii ''field1'', [])]\<rparr>"
  have inv: "ol_inv [(ascii ''7/field0'', [99])]" by (simp add: ol_inv_def)
  show ?thesis
    using insert_then_read [where L = ol_ops and dbinv = ol_inv and view = map_of and todo = "\<lambda>es. es"
        and db = "[(ascii ''7/field0'', [99])]" and pkg = ?pkg and rq = ?rq] ol.kv_store_axioms inv
    by (simp add: ascii_def)
qed

lemma read_list_records:
  "read_list pkey (db_entries recs) acc
     = ret (acc @ concat (map (\<lambda>r. if fst r = pkey
         then map (\<lambda>fv. (47 # takeWhile (\<lambda>b. \<not> is_space b) (fst fv), snd fv)) (snd r) else []) recs))"
proof -
  have one: "read_list pkey (rec_entries (k, fs) @ es) acc = read_list pkey es
      (acc @ (if k = pkey then map (\<lambda>fv. (47 # takeWhile (\<lambda>b. \<not> is_space b) (fst fv), snd fv)) fs else []))"
    for k fs es acc
    by (induction fs arbitrary: acc) (auto simp: istream_pack_key)
  show ?thesis by (induction recs arbitrary: acc) (auto simp: one split_paired_all)
qed

text \<open>
  C16: reading a whole record. With no fields in the request every field of the record is
  returned, in the order of the store, and the loop over the whole database ends; but the
  names returned start with the slash of the key encoding and stop at the first blank, so
  they are not the names the other two operations use.
\<close>

theorem read_all_fields:
  assumes "kv_store L dbinv view todo" "dbinv db" "kv_pairs pkg = []"
    "todo (it_first L db) = db_entries recs"
  shows "exec_read L pkg db = ret (concat (map (\<lambda>r. if fst r = pkg_key pkg
         then map (\<lambda>fv. (47 # takeWhile (\<lambda>b. \<not> is_space b) (fst fv), snd fv)) (snd r) else []) recs))"
  using assms by (simp add: exec_read_def kv_store.exec_read_all_list read_list_records)

theorem read_all_fields_witness:
  "let pkg = \<lparr>pkg_op = 3, pkg_table = 0, pkg_num_kvs = 0, pkg_key = 7, pkg_scan_length = 0, kv_pairs = []\<rparr>;
       recs = [(7, [([97], [1]), ([98], [2])]), (8, [([97], [3])])]
   in exec_read ol_ops pkg (db_entries recs) = ret [([47, 97], [1]), ([47, 98], [2])]"
proof -
  let ?pkg = "\<lparr>pkg_op = 3, pkg_table = 0, pkg_num_kvs = 0, pkg_key = 7, pkg_scan_length = 0, kv_pairs = []\<rparr>"
  let ?recs = "[(7, [([97], [1]), ([98], [2])]), (8, [([97], [3])])] :: ycsb_record list"
  have "show_nat 7 = [55]" "show_nat 8 = [56]" by (simp_all add: show_nat.simps)
  then have inv: "ol_inv (db_entries ?recs)" by (simp add: ol_inv_def pack_key_eq)
  have "\<not> is_space 97" "\<not> is_space 98" by (simp_all add: is_space_def)
  then show ?thesis
    using read_all_fields [OF ol.kv_store_axioms inv, of ?pkg ?recs] by simp
qed

section \<open>Scans\<close>

text \<open>
  The records a scan gets to see: with one field in the request it starts at the packed key,
  and records are ordered as strings.
\<close>

definition visited :: "package \<Rightarrow> ycsb_record list \<Rightarrow> ycsb_record list" where
  "visited pkg recs =
     (if length (kv_pairs pkg) = 1 then filter (\<lambda>r. pack_key (pkg_key pkg) [] [] \<le> pack_key (fst r) [] []) recs
      else recs)"

lemma pack_key_before:
  "pack_key k f [] \<le> pack_key k' f' [] \<longleftrightarrow> (if k = k' then f \<le> f' else pack_key k [] [] \<le> pack_key k' [] [])"
  using digits_before [OF show_nat_digits show_nat_digits, of "unat k" f "unat k'" f'] pack_key_iff [of k "[]" "[]" k' "[]" "[]"]
    digits_val_show_nat [of "unat k"] digits_val_show_nat [of "unat k'"]
  by (auto simp: pack_key_eq word_unat_eq_iff)

lemma filter_rec_entries:
  assumes "sorted_wrt (<) (map fst (rec_entries r))" "fst (hd (snd r)) = f" "snd r \<noteq> []"
  shows "filter (\<lambda>e. pack_key key f [] \<le> fst e) (rec_entries r)
       = (if pack_key key [] [] \<le> pack_key (fst r) [] [] then rec_entries r else [])"
proof -
  obtain k v fs where r: "r = (k, (f, v) # fs)" using assms(2,3) by (cases r; cases "snd r") auto
  have first: "f \<le> fst fv" if "fv \<in> set (snd r)" for fv
  proof -
    have "pack_key k f [] \<le> pack_key k (fst fv) []"
      using assms(1) that r by (auto simp: rec_entries_def less_imp_le)
    then show ?thesis by (simp add: pack_key_before [of k f k "fst fv"])
  qed
  have "pack_key key f [] \<le> fst e \<longleftrightarrow> pack_key key [] [] \<le> pack_key (fst r) [] []" if e: "e \<in> set (rec_entries r)" for e
  proof -
    from e have "e \<in> (\<lambda>fv. (pack_key (fst r) (fst fv) [], snd fv)) ` set (snd r)" by (simp add: rec_entries_def)
    then obtain fv where fv: "fv \<in> set (snd r)" "fst e = pack_key k (fst fv) []" using r by force
    show ?thesis
      using pack_key_before [of key f k "fst fv"] first [OF fv(1)] fv(2) r by simp
  qed
  then show ?thesis by (auto intro: filter_True filter_False)
qed

lemma filter_db_entries:
  assumes "sorted_wrt (<) (map fst (db_entries recs))" "list_all (\<lambda>r. fst (hd (snd r)) = f) recs" "nonempty_records recs"
  shows "filter (\<lambda>e. pack_key key f [] \<le> fst e) (db_entries recs)
       = db_entries (filter (\<lambda>r. pack_key key [] [] \<le> pack_key (fst r) [] []) recs)"
  using assms
proof (induction recs)
  case (Cons r recs)
  then have "sorted_wrt (<) (map fst (rec_entries r))" "sorted_wrt (<) (map fst (db_entries recs))"
    by (simp_all add: db_entries_def sorted_wrt_append)
  with Cons filter_rec_entries [of r f key] show ?case by (simp add: db_entries_def)
qed simp

text \<open>The record with the key 0 is the first one.\<close>

lemma zero_first:
  assumes "sorted_wrt (<) (map fst (db_entries recs))" "distinct (map fst recs)" "nonempty_records recs"
  shows "0 \<notin> fst ` set (tl recs)"
proof
  assume zero: "0 \<in> fst ` set (tl recs)"
  then obtain k fs recs' where r: "recs = (k, fs) # recs'" by (cases recs) auto
  then obtain gs where gs: "(0, gs) \<in> set recs'" using zero by force
  with r assms(2) have "k \<noteq> 0" by force
  obtain f v fs' where fs: "fs = (f, v) # fs'" using assms(3) r by (cases fs) auto
  obtain g w gs' where g: "gs = (g, w) # gs'" using assms(3) r gs by (cases gs) (auto simp: list_all_iff)
  have "(pack_key 0 g [], w) \<in> set (db_entries recs')"
    using gs g by (force simp: db_entries_def rec_entries_def)
  with assms(1) r fs have less: "pack_key k f [] < pack_key 0 g []"
    by (force simp: sorted_wrt_append)
  obtain d ds where d: "show_nat (unat k) = d # ds" by (cases "show_nat (unat k)") auto
  have "is_digit d" using show_nat_digits [of "unat k"] d by simp
  moreover have "d \<noteq> 48" using show_nat_leading [of "unat k"] d \<open>k \<noteq> 0\<close> by (simp add: unat_gt_0)
  moreover have "show_nat 0 = [48]" by (simp add: show_nat.simps)
  ultimately show False using less d by (auto simp: pack_key_eq is_digit_def)
qed

lemma zero_first_visited: "0 \<notin> fst ` set (tl recs) \<Longrightarrow> 0 \<notin> fst ` set (tl (filter P recs))"
proof -
  have "set (tl xs) \<subseteq> set xs" for xs :: "'c list" by (cases xs) auto
  from this [of "filter P (tl recs)"] have "set (tl (filter P recs)) \<subseteq> set (tl recs)" by (cases recs) auto
  moreover assume "0 \<notin> fst ` set (tl recs)"
  ultimately show ?thesis by blast
qed

text \<open>
  C11: what a scan returns, on any store whose records each start with a field that is asked
  for (all are, if the request names none), for any key and length. A scan of length 0
  returns nothing. Otherwise the records it gets to see are all, or, if the request names
  one field, those not before the packed key in the order of strings. It goes through them
  and takes the fields asked for of the first \<open>n\<close> whose key is at least \<open>key\<close>, and one
  field more, the first one of the next such record: the length is only looked at after that
  field has been pushed. Here \<open>n\<close> is the length of the scan, and one more if a record with the
  key 0 is among them, which counts as no record. If on its way there it meets a key of
  \<open>2 ^ 63\<close> or more, also one before \<open>key\<close>, it throws.
\<close>

theorem scan_result:
  assumes "kv_store L dbinv view todo" "dbinv db" "todo (it_first L db) = db_entries recs"
    "distinct (map fst recs)" "nonempty_records recs" "heads_taken pkg recs"
  defines "vs \<equiv> visited pkg recs"
  defines "rs \<equiv> takeWhile (\<lambda>r. unat (fst r) < 2 ^ 63) vs"
    and "n \<equiv> unat (pkg_scan_length pkg) + (if pkg_key pkg = 0 \<and> 0 \<in> fst ` set vs then 1 else 0)"
  shows "exec_scan L pkg db
       = (if pkg_scan_length pkg = 0 then ret []
          else if rs = vs \<or> n < length (wanted pkg rs)
          then ret (concat (take n (wanted pkg rs)) @ take 1 (concat (drop n (wanted pkg rs))))
          else throw Out_Of_Range)"
proof (cases "pkg_scan_length pkg = 0")
  case True
  have "scan_list pkg 0 l es [] = ret []" for l es by (cases es) simp_all
  with True show ?thesis by (simp add: exec_scan_def kv_store.exec_scan_loop_list [OF assms(1)])
next
  case False
  have sorted: "sorted_wrt (<) (map fst (db_entries recs))"
    using kv_store.first_sorted [OF assms(1,2)] assms(3) by simp
  have "exec_scan L pkg db = scan_list pkg (pkg_scan_length pkg) 0 (db_entries vs) []"
  proof (cases "length (kv_pairs pkg) = 1")
    case True
    then obtain pair where pair: "kv_pairs pkg = [pair]" by (cases "kv_pairs pkg") auto
    then have "list_all (\<lambda>r. fst (hd (snd r)) = fst pair) recs"
      using assms(6) by (auto simp: take_field_def list_all_iff)
    from filter_db_entries [OF sorted this assms(5)] pair True show ?thesis
      by (simp add: exec_scan_def kv_store.exec_scan_loop_list [OF assms(1)] kv_store.seek [OF assms(1,2)] assms(3)
          vs_def visited_def)
  next
    case False
    then have "(case kv_pairs pkg of [pair] \<Rightarrow> it_seek L db (pack_key (pkg_key pkg) (fst pair) [])
        | _ \<Rightarrow> it_first L db) = it_first L db"
      by (auto split: list.splits)
    with False assms(3) show ?thesis
      by (simp add: exec_scan_def kv_store.exec_scan_loop_list [OF assms(1)] vs_def visited_def)
  qed
  also have "\<dots> = scan_answer pkg n vs"
    unfolding n_def
  proof (rule scan_all)
    show "distinct (map fst vs)" using assms(4) by (simp add: vs_def visited_def distinct_map_filter)
    show "nonempty_records vs" "heads_taken pkg vs" using assms(5,6) by (auto simp: vs_def visited_def list_all_iff)
    show "0 \<notin> fst ` set (tl vs)"
      using zero_first [OF sorted assms(4,5)] zero_first_visited [OF zero_first [OF sorted assms(4,5)]]
      unfolding vs_def visited_def by presburger
    show "0 < pkg_scan_length pkg" using False by (simp add: word_gt_0)
  qed
  finally show ?thesis using False by (simp add: scan_answer_def rs_def Let_def)
qed

lemma plain_3: "plain_records [(3, [([97], [1]), ([98], [2])]), (4, [([97], [3]), ([98], [4])]), (5, [([97], [5])])]"
  by (simp add: plain_records_def)

lemma ol_inv_3:
  "ol_inv (db_entries [(3, [([97], [1]), ([98], [2])]), (4, [([97], [3]), ([98], [4])]), (5, [([97], [5])])])"
proof -
  have "show_nat 3 = [51]" "show_nat 4 = [52]" "show_nat 5 = [53]" by (simp_all add: show_nat.simps)
  then show ?thesis by (simp add: ol_inv_def pack_key_eq)
qed

theorem scan_result_witness:
  "let recs = [(3, [([97], [1]), ([98], [2])]), (4, [([97], [3]), ([98], [4])]), (5, [([97], [5])])];
       pkg = \<lparr>pkg_op = 4, pkg_table = 0, pkg_num_kvs = 0, pkg_key = 3, pkg_scan_length = 1, kv_pairs = []\<rparr>
   in exec_scan ol_ops pkg (db_entries recs) = ret [([97], [1]), ([98], [2]), ([97], [3])]
    \<and> exec_scan ol_ops (pkg\<lparr>pkg_key := 4, pkg_scan_length := 5, pkg_num_kvs := 1, kv_pairs := [([97], [])]\<rparr>) (db_entries recs)
      = ret [([97], [3]), ([97], [5])]"
proof -
  let ?recs = "[(3, [([97], [1]), ([98], [2])]), (4, [([97], [3]), ([98], [4])]), (5, [([97], [5])])] :: ycsb_record list"
  let ?pkg = "\<lparr>pkg_op = 4, pkg_table = 0, pkg_num_kvs = 0, pkg_key = 3, pkg_scan_length = 1, kv_pairs = []\<rparr>"
  let ?one = "?pkg\<lparr>pkg_key := 4, pkg_scan_length := 5, pkg_num_kvs := 1, kv_pairs := [([97], [])]\<rparr>"
  have show_345: "show_nat 3 = [51]" "show_nat 4 = [52]" "show_nat 5 = [53]" by (simp_all add: show_nat.simps)
  have "visited ?pkg ?recs = ?recs" "visited ?one ?recs = tl ?recs"
    by (simp_all add: visited_def pack_key_eq show_345)
  then show ?thesis
    using scan_result [OF ol.kv_store_axioms ol_inv_3, of ?recs ?pkg] scan_result [OF ol.kv_store_axioms ol_inv_3, of ?recs ?one]
    by (simp add: take_field_def)
qed

text \<open>
  A scan that does not stop. If the fields asked for are never the first of their
  record, the entry before the match has already made \<open>last_key\<close> the current key, the
  length is never counted down, and any scan returns all the records up to the end of the
  database.
\<close>

theorem scan_unlimited:
  assumes "kv_store L dbinv view todo" "dbinv db" "length (kv_pairs pkg) \<noteq> 1"
    "todo (it_first L db) = db_entries recs" "plain_records recs" "heads_not_taken pkg recs"
    "0 < pkg_scan_length pkg"
  shows "exec_scan L pkg db = ret (concat (wanted pkg recs))"
proof -
  have "(case kv_pairs pkg of [pair] \<Rightarrow> it_seek L db (pack_key (pkg_key pkg) (fst pair) [])
      | _ \<Rightarrow> it_first L db) = it_first L db"
    using assms(3) by (auto split: list.splits)
  with assms show ?thesis
    by (simp add: exec_scan_def kv_store.exec_scan_loop_list scan_not_counting)
qed

theorem scan_unlimited_witness:
  "let recs = [(3, [([97], [1]), ([98], [2])]), (4, [([97], [3]), ([98], [4])]), (5, [([97], [5])])];
       pkg = \<lparr>pkg_op = 4, pkg_table = 0, pkg_num_kvs = 2, pkg_key = 3, pkg_scan_length = 1,
              kv_pairs = [([98], []), ([99], [])]\<rparr>
   in exec_scan ol_ops pkg (db_entries recs) = ret [([98], [2]), ([98], [4])]"
proof -
  let ?pkg = "\<lparr>pkg_op = 4, pkg_table = 0, pkg_num_kvs = 2, pkg_key = 3, pkg_scan_length = 1,
              kv_pairs = [([98], []), ([99], [])]\<rparr>"
  show ?thesis
    using scan_unlimited [OF ol.kv_store_axioms ol_inv_3, of ?pkg, OF _ _ plain_3]
    by (simp add: take_field_def)
qed

text \<open>
  A scan for one field starts too far on. It seeks to the packed key, but the store
  orders keys as strings: with records 9 and 10, a scan from 9 for the field they both
  have never sees record 10, which the same scan without a field does return.
\<close>

theorem scan_seek_skips:
  "let db = db_entries [(10, [([97], [1])]), (9, [([97], [2])])];
       pkg = \<lparr>pkg_op = 4, pkg_table = 0, pkg_num_kvs = 0, pkg_key = 9, pkg_scan_length = 5, kv_pairs = []\<rparr>
   in ol_inv db \<and> exec_scan ol_ops pkg db = ret [([97], [1]), ([97], [2])]
      \<and> exec_scan ol_ops (pkg\<lparr>pkg_num_kvs := 1, kv_pairs := [([97], [])]\<rparr>) db = ret [([97], [2])]"
proof -
  have d: "show_nat 10 = [49, 48]" "show_nat 9 = [57]" by (simp_all add: show_nat.simps)
  then have e: "db_entries [(10, [([97], [1])]), (9, [([97], [2])])] = [([49, 48, 47, 97], [1]), ([57, 47, 97], [2])]"
    by (simp add: pack_key_eq)
  have u: "unpack_key [49, 48, 47, 97] = ret (10, [97])" "unpack_key [57, 47, 97] = ret (9, [97])"
    using unpack_pack [of 10 "[97]" "[]"] unpack_pack [of 9 "[97]" "[]"] by (simp_all add: pack_key_eq d)
  show ?thesis
    by (simp add: e, simp add: exec_scan_def ol.exec_scan_loop_list u ol_inv_def take_field_def
        pack_key_eq d)
qed

section \<open>Healthy databases\<close>

text \<open>
  Every key of the database is a packed one and its record key is below \<open>2 ^ 63\<close>: what
  the executor writes when the clients stay below that bound, and what keeps scans from
  throwing.
\<close>

definition healthy :: "(bytes \<rightharpoonup> bytes) \<Rightarrow> bool" where
  "healthy m \<longleftrightarrow> (\<forall>key \<in> dom m. \<exists>k f. key = pack_key k f [] \<and> unat k < 2 ^ 63)"

definition healthy_entries :: "(bytes \<times> bytes) list \<Rightarrow> bool" where
  "healthy_entries es \<longleftrightarrow> (\<forall>e \<in> set es. \<exists>k f. fst e = pack_key k f [] \<and> unat k < 2 ^ 63)"

lemma read_list_returns: "healthy_entries es \<Longrightarrow> \<exists>vals. read_list pkey es acc = ret vals"
  by (induction es arbitrary: acc) (auto simp: healthy_entries_def istream_pack_key simp del: pack_key_iff)

lemma scan_list_returns: "healthy_entries es \<Longrightarrow> \<exists>vals. scan_list pkg remain last_key es acc = ret vals"
  by (induction es arbitrary: acc remain last_key)
    (auto simp: healthy_entries_def unpack_pack simp del: pack_key_iff)

lemma healthy_insert:
  assumes "healthy m" "unat k < 2 ^ 63"
  shows "healthy (fold (\<lambda>pair m. m(pack_key k (fst pair) p \<mapsto> snd pair)) ps m)"
  using assms(1)
proof (induction ps arbitrary: m)
  case (Cons pair ps)
  have "pack_key k (fst pair) p = pack_key k (p @ fst pair) []" by simp
  with Cons.prems assms(2) have "healthy (m(pack_key k (fst pair) p \<mapsto> snd pair))"
    unfolding healthy_def by (auto simp del: pack_key_iff)
  from Cons.IH [OF this] show ?case by (simp only: fold_simps)
qed simp

context kv_store
begin

lemma healthy_first: "inv db \<Longrightarrow> healthy (abs db) \<Longrightarrow> healthy_entries (todo (it_first L db))"
  using first_keys [of db] unfolding healthy_def healthy_entries_def by blast

lemma healthy_seek: "inv db \<Longrightarrow> healthy (abs db) \<Longrightarrow> healthy_entries (todo (it_seek L db k))"
  using healthy_first by (auto simp: seek healthy_entries_def)

lemma exec_read_returns: "inv db \<Longrightarrow> healthy (abs db) \<Longrightarrow> \<exists>vals. exec_read L pkg db = ret vals"
  using read_list_returns [OF healthy_first] by (simp add: exec_read_def exec_read_all_list)

lemma exec_scan_returns: "inv db \<Longrightarrow> healthy (abs db) \<Longrightarrow> \<exists>vals. exec_scan L pkg db = ret vals"
  using scan_list_returns [OF healthy_first] scan_list_returns [OF healthy_seek]
  by (auto simp: exec_scan_def exec_scan_loop_list split: list.split)

lemma exec_insert_healthy:
  "inv db \<Longrightarrow> healthy (abs db) \<Longrightarrow> unat (pkg_key pkg) < 2 ^ 63 \<Longrightarrow>
   inv (exec_insert L pkg db) \<and> healthy (abs (exec_insert L pkg db))"
  using exec_insert_fold [of db pkg] healthy_insert by simp

lemma execute_returns:
  assumes "inv (ex_db x)" "healthy (abs (ex_db x))" "unat (pkg_key pkg) < 2 ^ 63"
  shows "\<exists>n x'. execute L clk pkg x = ret (n, x') \<and> inv (ex_db x') \<and> healthy (abs (ex_db x'))"
  using exec_read_returns [OF assms(1,2), of pkg] exec_scan_returns [OF assms(1,2), of pkg]
    exec_insert_healthy [OF assms] assms(1,2)
  by (auto simp: execute_def Let_def)

end

text \<open>
  The executor never fails on a healthy database. For every operation byte and every
  package whose key is below \<open>2 ^ 63\<close>, \<open>execute\<close> returns (no exception, nothing
  undefined, no endless loop) and leaves a healthy database, so this goes on for ever.
\<close>

theorem execute_total:
  assumes "kv_store L dbinv view todo" "dbinv (ex_db x)" "healthy (view (ex_db x))"
    "unat (pkg_key pkg) < 2 ^ 63"
  shows "\<exists>n x'. execute L clk pkg x = ret (n, x') \<and> dbinv (ex_db x') \<and> healthy (view (ex_db x'))"
  using kv_store.execute_returns [OF assms] .

theorem execute_total_witness:
  "\<exists>n x'. execute ol_ops (\<lambda>i. of_nat i)
      \<lparr>pkg_op = 4, pkg_table = 0, pkg_num_kvs = 0, pkg_key = 3, pkg_scan_length = 2, kv_pairs = []\<rparr>
      \<lparr>t_insert = 0, t_read = 0, t_scan = 0, t_update = 0, n_insert = 0, n_read = 0, n_scan = 0,
       n_update = 0, ex_db = [(pack_key 7 [97] [], [1])], ex_now = 0\<rparr> = ret (n, x')
    \<and> ol_inv (ex_db x') \<and> healthy (map_of (ex_db x'))"
proof -
  have "healthy (map_of [(pack_key 7 [97] [], [1 :: u8])])"
    unfolding healthy_def by (auto intro!: exI [of _ 7])
  then show ?thesis
    by (intro execute_total [OF ol.kv_store_axioms]) (simp_all add: ol_inv_def)
qed

section \<open>Statistics\<close>

definition ops_counted :: "'db ldb_executor \<Rightarrow> u64" where
  "ops_counted x = n_insert x + n_read x + n_scan x + n_update x"

definition cycles_counted :: "'db ldb_executor \<Rightarrow> nat" where
  "cycles_counted x = unat (t_insert x) + unat (t_read x) + unat (t_scan x) + unat (t_update x)"

text \<open>Executing a list of packages one after the other.\<close>

fun exec_all :: "(package \<Rightarrow> 'x \<Rightarrow> (u64 \<times> 'x) result) \<Rightarrow> package list \<Rightarrow> 'x \<Rightarrow> (u64 list \<times> 'x) result" where
  "exec_all exec [] x = ret ([], x)"
| "exec_all exec (p # ps) x =
     rbind (exec p x) (\<lambda>(n, x'). rbind (exec_all exec ps x') (\<lambda>(ns, x''). ret (n # ns, x'')))"

definition counted :: "package \<Rightarrow> bool" where
  "counted p \<longleftrightarrow> pkg_op p \<in> operation_code ` {INSERT, UPDATE, READ, SCAN}"

lemma add_time:
  fixes t d s e :: u64
  assumes "s \<le> e" "d = e - s"
  shows "unat (t + d) \<le> unat t + (unat e - unat s)"
proof -
  have "unat d = unat e - unat s" using assms by (simp add: unat_sub)
  then show ?thesis using unat_plus_if' [of t d] by (simp split: if_splits)
qed

lemma execute_accounts:
  assumes "execute L clk pkg x = ret (n, x')" "\<And>i. clk i \<le> clk (Suc i)"
  shows "ops_counted x' = ops_counted x + (if counted pkg then 1 else 0)"
    "cycles_counted x' \<le> cycles_counted x + (unat (clk (ex_now x')) - unat (clk (ex_now x)))"
    "ex_now x \<le> ex_now x'"
proof -
  let ?s = "clk (ex_now x)" and ?e = "clk (Suc (ex_now x))"
  have "unat ?s \<le> unat ?e" "unat ?e \<le> unat (clk (Suc (Suc (ex_now x))))"
    using assms(2) by (simp_all add: word_le_nat_alt)
  then show "ops_counted x' = ops_counted x + (if counted pkg then 1 else 0)"
    "cycles_counted x' \<le> cycles_counted x + (unat (clk (ex_now x')) - unat (clk (ex_now x)))"
    "ex_now x \<le> ex_now x'"
    using assms(1) add_time [OF assms(2) refl, of "t_insert x" "ex_now x"]
      add_time [OF assms(2) refl, of "t_read x" "ex_now x"]
      add_time [OF assms(2) refl, of "t_scan x" "ex_now x"]
      add_time [OF assms(2) refl, of "t_update x" "ex_now x"]
    by (auto simp: execute_def Let_def rbind_eq_ret ops_counted_def cycles_counted_def counted_def
        split: if_splits)
qed

lemma exec_all_accounts:
  assumes "exec_all (execute L clk) ps x = ret (ns, x')" "\<And>i. clk i \<le> clk (Suc i)"
  shows "length ns = length ps \<and> ops_counted x' = ops_counted x + of_nat (length (filter counted ps))
     \<and> cycles_counted x' \<le> cycles_counted x + (unat (clk (ex_now x')) - unat (clk (ex_now x)))
     \<and> ex_now x \<le> ex_now x'"
  using assms(1)
proof (induction ps arbitrary: x ns)
  case (Cons p ps)
  then obtain n x1 ns1 where one: "execute L clk p x = ret (n, x1)"
    and rest: "exec_all (execute L clk) ps x1 = ret (ns1, x')" and ns: "ns = n # ns1"
    by (auto simp: rbind_eq_ret)
  note step = execute_accounts [OF one assms(2)] and ih = Cons.IH [OF rest]
  have "clk i \<le> clk (i + d)" for i d
    by (induction d) (auto intro: order.trans assms(2))
  then have "clk (ex_now x) \<le> clk (ex_now x1)" "clk (ex_now x1) \<le> clk (ex_now x')"
    using step(3) ih by (metis le_add_diff_inverse)+
  then have "unat (clk (ex_now x)) \<le> unat (clk (ex_now x1))" "unat (clk (ex_now x1)) \<le> unat (clk (ex_now x'))"
    by (simp_all add: word_le_nat_alt)
  with step ih ns show ?case by auto
qed simp

text \<open>
  C17: the statistics add up. From \<open>reset_stats\<close> on, with a cycle counter that does not
  run backwards, the four operation counts together are the number of packages with an
  operation the executor knows (not \<open>DELETE\<close>), and the four times together are at most
  the cycles that have passed.
\<close>

theorem stats_accounting:
  assumes "exec_all (execute L clk) ps (reset_stats x) = ret (ns, x')" "\<And>i. clk i \<le> clk (Suc i)"
  shows "length ns = length ps \<and> ops_counted x' = of_nat (length (filter counted ps))
     \<and> cycles_counted x' \<le> unat (clk (ex_now x')) - unat (clk (ex_now x))"
  using exec_all_accounts [OF assms] by (simp add: reset_stats_def ops_counted_def cycles_counted_def)

theorem stats_accounting_witness:
  "let p = \<lparr>pkg_op = 1, pkg_table = 0, pkg_num_kvs = 1, pkg_key = 3, pkg_scan_length = 0, kv_pairs = [([48], [1])]\<rparr>;
       x = \<lparr>t_insert = 5, t_read = 5, t_scan = 0, t_update = 0, n_insert = 9, n_read = 0, n_scan = 0,
            n_update = 0, ex_db = [], ex_now = 0\<rparr>
   in \<exists>x'. exec_all (execute ol_ops (\<lambda>i. 7)) [p, p\<lparr>pkg_op := 2\<rparr>] (reset_stats x) = ret ([4, 4], x')
      \<and> ops_counted x' = 1 \<and> cycles_counted x' \<le> 0"
proof -
  let ?p = "\<lparr>pkg_op = 1, pkg_table = 0, pkg_num_kvs = 1, pkg_key = 3, pkg_scan_length = 0, kv_pairs = [([48], [1])]\<rparr>"
  let ?q = "\<lparr>pkg_op = 2, pkg_table = 0, pkg_num_kvs = 1, pkg_key = 3, pkg_scan_length = 0, kv_pairs = [([48], [1])]\<rparr>"
  let ?x = "\<lparr>t_insert = 5, t_read = 5, t_scan = 0, t_update = 0, n_insert = 9, n_read = 0, n_scan = 0,
            n_update = 0, ex_db = [], ex_now = 0\<rparr>"
  obtain x' where run: "exec_all (execute ol_ops (\<lambda>i. 7)) [?p, ?q] (reset_stats ?x) = ret ([4, 4], x')"
    by (simp add: execute_def Let_def reset_stats_def)
  show ?thesis using stats_accounting [OF run] run by (auto simp: counted_def)
qed

end
