(* ===== verification/Server.thy ===== *)
theory Server
  imports Tcp_Handler Udp_Handler Executor
begin

text \<open>
  The YCSB server's \<open>main\<close> of \<^verbatim>\<open>apps/ycsbserver/leveldb.cc\<close>: the time arithmetic of its
  report, its argument handling and the loop that connects a handler with the executor.
  The loop is a partial function (a client may never send anything); it is verified once
  against the contract \<open>op_link\<close>, a handler with packages to deliver and a channel that
  takes what it is given, which the TCP and the UDP handler both meet.
\<close>

section \<open>Times\<close>

record timeval =
  tv_sec :: int
  tv_usec :: int

record timespec =
  ts_sec :: int
  ts_nsec :: int

definition timeval_diff :: "timeval \<Rightarrow> timeval \<Rightarrow> timeval result" where
  "timeval_diff start stop =
     rbind (checked64 (tv_usec stop - tv_usec start)) (\<lambda>d.
     rbind (checked64 (tv_sec stop - tv_sec start)) (\<lambda>s.
       if d < 0 then
         rbind (checked64 (s - 1)) (\<lambda>s'.
         rbind (checked64 (d + 1000000)) (\<lambda>u. ret \<lparr>tv_sec = s', tv_usec = u\<rparr>))
       else ret \<lparr>tv_sec = s, tv_usec = d\<rparr>))"

text \<open>\<open>1000000000UL\<close> is unsigned: that sum is computed modulo \<open>2 ^ 64\<close>.\<close>

definition timespec_diff :: "timespec \<Rightarrow> timespec \<Rightarrow> timespec result" where
  "timespec_diff start stop =
     rbind (checked64 (ts_nsec stop - ts_nsec start)) (\<lambda>d.
     rbind (checked64 (ts_sec stop - ts_sec start)) (\<lambda>s.
       if d < 0 then
         rbind (checked64 (s - 1)) (\<lambda>s'.
           ret \<lparr>ts_sec = s', ts_nsec = sint (of_int d + 1000000000 :: u64)\<rparr>)
       else ret \<lparr>ts_sec = s, ts_nsec = d\<rparr>))"

definition timeval_micros :: "timeval \<Rightarrow> u64" where
  "timeval_micros tv = of_int (tv_usec tv) + of_int (tv_sec tv) * 1000000"

definition timespec_micros :: "timespec \<Rightarrow> u64" where
  "timespec_micros ts = of_int (ts_nsec ts sdiv 1000) + of_int (ts_sec ts) * 1000000"

section \<open>The main loop\<close>

text \<open>
  The handler is given by its virtual methods, the executor by \<open>exec\<close>. \<open>pkg\<close> is the
  package declared in the body, with no pairs and uninitialised scalars; \<open>log\<close> collects
  the progress lines.
\<close>

partial_function (option) server_loop ::
  "('h \<Rightarrow> package \<Rightarrow> (recv_result \<times> package \<times> 'h) result) \<Rightarrow> ('h \<Rightarrow> bytes \<Rightarrow> int \<times> 'h)
     \<Rightarrow> (package \<Rightarrow> 'x \<Rightarrow> (u64 \<times> 'x) result) \<Rightarrow> package \<Rightarrow> u64 \<Rightarrow> (u8 \<times> u64) list \<Rightarrow> 'h \<Rightarrow> 'x
     \<Rightarrow> (u64 \<times> (u8 \<times> u64) list \<times> 'h \<times> 'x) result"
where
  "server_loop recv send exec pkg opcounter log h x =
     rbind (recv h pkg) (\<lambda>(r, p, h1).
       case r of
         STOP \<Rightarrow> ret (opcounter, log, h1, x)
       | INCOMPLETE \<Rightarrow> server_loop recv send exec pkg opcounter log h1 x
       | READY \<Rightarrow>
           let log' = (if opcounter mod 100 = 0 then log @ [(pkg_op p, opcounter)] else log)
           in rbind (exec p x) (\<lambda>(res_bytes, x1).
                case respond send res_bytes h1 of
                  (ok, h2) \<Rightarrow>
                    if \<not> ok then ret (opcounter, log', h2, x1)
                    else server_loop recv send exec pkg (opcounter + 1) log' h2 x1))"

section \<open>main\<close>

text \<open>
  The environment: the results of the calls \<open>main\<close> and the constructors make, where they
  take text or a port from the command line as functions of it.
\<close>

record server_env =
  env_sock :: int
  env_bind :: "16 word \<Rightarrow> int"
  env_listen :: int
  env_conn :: int
  env_input :: "read_ev list"
  env_aton :: "bytes \<Rightarrow> int \<times> u32 option"
  env_file :: "bytes \<Rightarrow> int \<times> read_ev list"
  env_mem :: bytes
  env_out :: outchan
  env_usage_begin :: "(timeval \<times> timeval) option"
  env_usage_end :: "(timeval \<times> timeval) option"
  env_time_begin :: timespec
  env_time_end :: timespec

record server_report =
  rep_log :: "(u8 \<times> u64) list"
  rep_user :: u64
  rep_system :: u64
  rep_total :: u64
  rep_avg_recv :: u64
  rep_avg_op :: u64
  rep_num_ops :: u64
  rep_stats :: "(u64 \<times> u64) list"

text \<open>\<open>recv_timing\<close> and \<open>op_timing\<close> are set to 0 at the start and never changed.\<close>

definition server_summary ::
  "timeval \<times> timeval \<Rightarrow> timeval \<times> timeval \<Rightarrow> timespec \<Rightarrow> timespec \<Rightarrow> (u8 \<times> u64) list \<Rightarrow> u64
     \<Rightarrow> 'db ldb_executor \<Rightarrow> server_report result"
where
  "server_summary res_begin res_end exec_begin exec_end log opcounter x =
     (let recv_timing = 0; op_timing = 0
      in rbind (timespec_diff exec_begin exec_end) (\<lambda>exec_time.
         rbind (timeval_diff (fst res_begin) (fst res_end)) (\<lambda>time_user.
         rbind (timeval_diff (snd res_begin) (snd res_end)) (\<lambda>time_sys.
           if opcounter = 0 then undef
           else ret \<lparr>rep_log = log, rep_user = timeval_micros time_user, rep_system = timeval_micros time_sys,
                     rep_total = timespec_micros exec_time, rep_avg_recv = recv_timing div opcounter,
                     rep_avg_op = op_timing div opcounter, rep_num_ops = opcounter,
                     rep_stats = print_stats x\<rparr>))))"

text \<open>From \<open>exec->reset_stats()\<close> to \<open>delete hdl\<close>: the exit code, the report, the handler and
  the executor.\<close>

definition server_run ::
  "('h \<Rightarrow> package \<Rightarrow> (recv_result \<times> package \<times> 'h) result) \<Rightarrow> ('h \<Rightarrow> bytes \<Rightarrow> int \<times> 'h) \<Rightarrow> ('h \<Rightarrow> 'h)
     \<Rightarrow> ('db, 'it) leveldb \<Rightarrow> (nat \<Rightarrow> u64) \<Rightarrow> server_env \<Rightarrow> package \<Rightarrow> 'h \<Rightarrow> 'db ldb_executor
     \<Rightarrow> (int \<times> server_report option \<times> 'h \<times> 'db ldb_executor) result"
where
  "server_run recv send reset L clk env pkg h x =
     (let x0 = reset_stats x; h0 = reset h
      in case env_usage_begin env of
           None \<Rightarrow> ret (1, None, h0, x0)
         | Some res_begin \<Rightarrow>
             rbind (server_loop recv send (execute L clk) pkg 0 [] h0 x0) (\<lambda>(opcounter, log, h1, x1).
               case env_usage_end env of
                 None \<Rightarrow> ret (1, None, h1, x1)
               | Some res_end \<Rightarrow>
                   rbind (server_summary res_begin res_end (env_time_begin env) (env_time_end env) log opcounter x1)
                     (\<lambda>rep. ret (0, Some rep, h1, x1))))"

text \<open>
  \<open>main\<close>: the exit code, the report, everything sent, the descriptors that \<open>delete hdl\<close>
  closes, and the database as it is left, if one was opened; a return with an error skips
  the \<open>delete\<close>. With four arguments and a protocol other than
  \<open>tcp\<close> the program passes \<open>argv[4]\<close>, a null pointer, to \<open>atoi\<close>.
\<close>

definition server_main ::
  "('db, 'it) leveldb \<Rightarrow> (nat \<Rightarrow> u64) \<Rightarrow> server_env \<Rightarrow> (bytes \<Rightarrow> 'db option) \<Rightarrow> package \<Rightarrow> bytes list
     \<Rightarrow> (int \<times> server_report option \<times> bytes list \<times> int list \<times> 'db option) result"
where
  "server_main L clk env opn pkg argv =
     (if length argv \<noteq> 4 \<and> length argv \<noteq> 6 then ret (1, None, [], [], None)
      else if argv ! 2 = ascii ''tcp'' then
        rbind (tcp_open (env_sock env) (env_bind env) (atoi (argv ! 3)) (env_listen env) (env_conn env)
                 (env_input env) (env_out env))
          (\<lambda>hdl. rbind (ldb_create opn (argv ! 1) 0) (\<lambda>exec.
            rbind (server_run tcp_receive tcp_send tcp_reset L clk env pkg hdl exec)
              (\<lambda>(code, rep, h, x). ret (code, rep, tcp_sent h, if code = 0 then tcp_destroy h else [], Some (ex_db x)))))
      else if length argv = 4 then undef
      else
        rbind (udp_open (argv ! 5) (argv ! 3) (atoi (argv ! 4)) (env_sock env) (env_aton env) (env_file env)
                 (env_mem env) (env_out env))
          (\<lambda>hdl. rbind (ldb_create opn (argv ! 1) 0) (\<lambda>exec.
            rbind (server_run udp_receive udp_send udp_reset L clk env pkg hdl exec)
              (\<lambda>(code, rep, h, x). ret (code, rep, udp_sent h, if code = 0 then udp_destroy h else [], Some (ex_db x))))))"

section \<open>The loop against its contract\<close>

text \<open>The progress lines for packages counted from \<open>c\<close> on, and everything sent for them.\<close>

fun progress :: "u64 \<Rightarrow> package list \<Rightarrow> (u8 \<times> u64) list" where
  "progress c [] = []"
| "progress c (p # ps) = (if c mod 100 = 0 then [(pkg_op p, c)] else []) @ progress (c + 1) ps"

definition answers :: "(package \<Rightarrow> bytes list) \<Rightarrow> package list \<Rightarrow> u64 list \<Rightarrow> bytes list" where
  "answers echo ps ns = concat (map2 (\<lambda>p n. echo p @ response_writes (unat n)) ps ns)"

lemma answers_simps [simp]:
  "answers echo [] ns = []"
  "answers echo (p # ps) (n # ns) = echo p @ response_writes (unat n) @ answers echo ps ns"
  by (simp_all add: answers_def)

context op_link
begin

lemma server_loop_link:
  assumes "link h ps echo" "kv_pairs pkg = []" "exec_all exec ps x = ret (ns, x')"
  shows "\<exists>h'. server_loop recv send exec pkg c log h x
       = ret (c + of_nat (length ps), log @ progress c ps, h', x')
     \<and> sent h' = sent h @ answers echo ps ns"
  using assms(1,3)
proof (induction ps arbitrary: h x ns c log)
  case Nil
  then show ?case
    using link_Nil [of h echo pkg] by (subst server_loop.simps) auto
next
  case (Cons p ps)
  from Cons.prems(2) obtain n x1 ns1 where one: "exec p x = ret (n, x1)"
    and rest: "exec_all exec ps x1 = ret (ns1, x')" and ns: "ns = n # ns1"
    by (auto simp: rbind_eq_ret)
  obtain h1 where h1: "recv h pkg = ret (READY, p, h1)" "link h1 ps echo" "sent h1 = sent h @ echo p"
    using link_Cons [OF Cons.prems(1) assms(2)] by blast
  obtain h2 where h2: "respond send n h1 = (True, h2)" "link h2 ps echo"
    "sent h2 = sent h1 @ response_writes (unat n)"
    using link_respond [OF h1(2)] by blast
  from Cons.IH [OF h2(2) rest, of "c + 1" "log @ (if c mod 100 = 0 then [(pkg_op p, c)] else [])"] h1 h2 one ns
  show ?case
    by (subst server_loop.simps, cases "c mod 100 = 0") (auto simp: add.assoc Let_def simp del: dvd_imp_mod_0)
qed

lemma server_loop_fault:
  assumes "link h ps echo" "kv_pairs pkg = []" "exec_all exec ps x = Some (Inl e)"
  shows "server_loop recv send exec pkg c log h x = Some (Inl e)"
  using assms(1,3)
proof (induction ps arbitrary: h x c log)
  case (Cons p ps)
  obtain h1 where h1: "recv h pkg = ret (READY, p, h1)" "link h1 ps echo"
    using link_Cons [OF Cons.prems(1) assms(2)] by blast
  show ?case
  proof (cases "exec p x = Some (Inl e)")
    case True
    with h1 show ?thesis by (subst server_loop.simps) (simp add: Let_def)
  next
    case False
    with Cons.prems(2) obtain n x1 where one: "exec p x = ret (n, x1)" and "exec_all exec ps x1 = Some (Inl e)"
      by (auto simp: rbind_eq_fault)
    with Cons.IH link_respond [OF h1(2), of n] h1 show ?thesis
      by (subst server_loop.simps) (fastforce simp: Let_def)
  qed
qed simp

end

text \<open>
  What a handler goes through while packages are served: each is received, after any
  number of calls that are \<open>INCOMPLETE\<close>, and a response of the given size is sent in full.
\<close>

inductive served ::
  "('h \<Rightarrow> package \<Rightarrow> (recv_result \<times> package \<times> 'h) result) \<Rightarrow> ('h \<Rightarrow> bytes \<Rightarrow> int \<times> 'h)
     \<Rightarrow> package \<Rightarrow> 'h \<Rightarrow> package list \<Rightarrow> u64 list \<Rightarrow> 'h \<Rightarrow> bool"
  for recv send pkg
where
  served_none: "served recv send pkg h [] [] h"
| served_wait: "recv h pkg = ret (INCOMPLETE, p, h1) \<Longrightarrow> served recv send pkg h1 ps ns h2 \<Longrightarrow>
     served recv send pkg h ps ns h2"
| served_one: "recv h pkg = ret (READY, p, h1) \<Longrightarrow> respond send n h1 = (True, h2) \<Longrightarrow>
     served recv send pkg h2 ps ns h3 \<Longrightarrow> served recv send pkg h (p # ps) (n # ns) h3"

text \<open>
  The two ends of the loop: \<open>STOP\<close> after the packages served, and a response that could not
  be sent, for a package more, which has been executed and is not counted.
\<close>

definition ends_with_stop where
  "ends_with_stop recv exec pkg ps ns h1 x h' x' \<longleftrightarrow>
     (\<exists>p. recv h1 pkg = ret (STOP, p, h')) \<and> exec_all exec ps x = ret (ns, x')"

definition ends_with_failure where
  "ends_with_failure recv send exec pkg ps ns p h1 x h' x' \<longleftrightarrow>
     (\<exists>n h2. recv h1 pkg = ret (READY, p, h2) \<and> respond send n h2 = (False, h')
        \<and> exec_all exec (ps @ [p]) x = ret (ns @ [n], x'))"

text \<open>A run of the loop: the packages it served, how it ended, its counter and its lines.\<close>

definition loop_run where
  "loop_run recv send exec pkg c (log :: (u8 \<times> u64) list) h x c' log' h' x' \<longleftrightarrow>
     (\<exists>ps ns h1. served recv send pkg h ps ns h1 \<and> c' = c + of_nat (length ps)
        \<and> (ends_with_stop recv exec pkg ps ns h1 x h' x' \<and> log' = log @ progress c ps
         \<or> (\<exists>p. ends_with_failure recv send exec pkg ps ns p h1 x h' x' \<and> log' = log @ progress c (ps @ [p]))))"

lemma loop_run_stop:
  "recv h pkg = ret (STOP, p, h') \<Longrightarrow> loop_run recv send exec pkg c log h x c log h' x"
  unfolding loop_run_def ends_with_stop_def
  by (intro exI [of _ "[]"] exI [of _ h] conjI served_none disjI1) auto

lemma loop_run_break:
  assumes "recv h pkg = ret (READY, p, h1)" "exec p x = ret (n, x')" "respond send n h1 = (False, h')"
  shows "loop_run recv send exec pkg c log h x c (log @ progress c [p]) h' x'"
  unfolding loop_run_def ends_with_failure_def
  using assms by (intro exI [of _ "[]"] exI [of _ h] conjI served_none disjI2 exI [of _ p] exI [of _ n] exI [of _ h1]) auto

lemma loop_run_wait:
  assumes "recv h pkg = ret (INCOMPLETE, p, h1)" "loop_run recv send exec pkg c log h1 x c' log' h' x'"
  shows "loop_run recv send exec pkg c log h x c' log' h' x'"
proof -
  have "served recv send pkg h ps ns h2" if "served recv send pkg h1 ps ns h2" for ps ns h2
    using served_wait [of recv h pkg p h1 send, OF assms(1) that] .
  with assms(2) show ?thesis unfolding loop_run_def by fast
qed

lemma loop_run_step:
  assumes "recv h pkg = ret (READY, p, h1)" "exec p x = ret (n, x1)" "respond send n h1 = (True, h2)"
    "loop_run recv send exec pkg (c + 1) (log @ progress c [p]) h2 x1 c' log' h' x'"
  shows "loop_run recv send exec pkg c log h x c' log' h' x'"
proof -
  from assms(4) obtain ps ns h3 where s: "served recv send pkg h2 ps ns h3" "c' = c + 1 + of_nat (length ps)"
    and e: "ends_with_stop recv exec pkg ps ns h3 x1 h' x' \<and> log' = (log @ progress c [p]) @ progress (c + 1) ps
       \<or> (\<exists>q. ends_with_failure recv send exec pkg ps ns q h3 x1 h' x' \<and> log' = (log @ progress c [p]) @ progress (c + 1) (ps @ [q]))"
    unfolding loop_run_def by blast
  have "served recv send pkg h (p # ps) (n # ns) h3" by (rule served_one [of recv h pkg p h1 send n h2, OF assms(1,3) s(1)])
  moreover have "c' = c + of_nat (length (p # ps))" using s(2) by (simp add: add.assoc)
  moreover have "progress c (p # qs) = progress c [p] @ progress (c + 1) qs" for qs by simp
  then have "ends_with_stop recv exec pkg (p # ps) (n # ns) h3 x h' x' \<and> log' = log @ progress c (p # ps)
       \<or> (\<exists>q. ends_with_failure recv send exec pkg (p # ps) (n # ns) q h3 x h' x' \<and> log' = log @ progress c ((p # ps) @ [q]))"
    using e assms(2) by (fastforce simp: ends_with_stop_def ends_with_failure_def)
  ultimately show ?thesis unfolding loop_run_def by blast
qed

text \<open>The body of the loop, and induction over the runs that return.\<close>

definition server_body where
  "server_body loop recv send exec pkg c log h x =
     rbind (recv h pkg) (\<lambda>(r, p, h1).
       case r of
         STOP \<Rightarrow> ret (c, log, h1, x)
       | INCOMPLETE \<Rightarrow> loop recv send exec pkg c log h1 x
       | READY \<Rightarrow>
           let log' = (if c mod 100 = 0 then log @ [(pkg_op p, c)] else log)
           in rbind (exec p x) (\<lambda>(n, x1).
                case respond send n h1 of
                  (ok, h2) \<Rightarrow>
                    if \<not> ok then ret (c, log', h2, x1)
                    else loop recv send exec pkg (c + 1) log' h2 x1))"

lemma server_loop_induct:
  assumes "server_loop recv send exec pkg c log h x = Some y"
    and step: "\<And>loop recv send exec pkg c log h x y.
      (\<And>recv send exec pkg c log h x y. loop recv send exec pkg c log h x = Some y \<Longrightarrow> P recv send exec pkg c log h x y) \<Longrightarrow>
      server_body loop recv send exec pkg c log h x = Some y \<Longrightarrow> P recv send exec pkg c log h x y"
  shows "P recv send exec pkg c log h x y"
  by (rule server_loop.raw_induct [of P "(((((((recv, send), exec), pkg), c), log), h), x)" y, unfolded prod.case,
        OF _ assms(1)]) (rule step [unfolded server_body_def])

lemma server_body_runs:
  assumes body: "server_body loop recv send exec pkg c log h x = Some (Inr (c', log', h', x'))"
    and IH: "\<And>c1 log1 h1 x1. loop recv send exec pkg c1 log1 h1 x1 = ret (c', log', h', x') \<Longrightarrow>
        loop_run recv send exec pkg c1 log1 h1 x1 c' log' h' x'"
  shows "loop_run recv send exec pkg c log h x c' log' h' x'"
proof -
  note run = body [unfolded server_body_def]
  from run obtain r p h1 where rc: "recv h pkg = ret (r, p, h1)" by (auto simp: rbind_eq_ret)
  show ?thesis
  proof (cases r)
    case STOP
    with run rc show ?thesis by (auto intro: loop_run_stop)
  next
    case INCOMPLETE
    with run rc have "loop recv send exec pkg c log h1 x = ret (c', log', h', x')" by simp
    from loop_run_wait [OF _ IH [OF this]] rc INCOMPLETE show ?thesis by simp
  next
    case READY
    have lines: "log @ progress c [p] = (if c mod 100 = 0 then log @ [(pkg_op p, c)] else log)" by simp
    from READY run rc obtain n x1 where ex: "exec p x = ret (n, x1)" by (auto simp: rbind_eq_ret Let_def)
    obtain ok h2 where re: "respond send n h1 = (ok, h2)" by fastforce
    show ?thesis
    proof (cases ok)
      case False
      with run rc READY ex re have "c' = c" "log' = log @ progress c [p]" "h' = h2" "x' = x1"
        unfolding lines by (auto simp: Let_def split: if_splits)
      with loop_run_break [of recv h pkg p h1 exec x n x1 send h2 c log] rc READY ex re False show ?thesis by simp
    next
      case True
      with run rc READY ex re have "loop recv send exec pkg (c + 1) (log @ progress c [p]) h2 x1 = ret (c', log', h', x')"
        unfolding lines by (simp add: Let_def)
      from loop_run_step [OF _ ex _ IH [OF this]] rc READY re True show ?thesis by simp
    qed
  qed
qed

lemma server_loop_runs:
  assumes "server_loop recv send exec pkg c log h x = Some (Inr (c', log', h', x'))"
  shows "loop_run recv send exec pkg c log h x c' log' h' x'"
proof -
  let ?P = "\<lambda>recv send exec (pkg :: package) c (log :: (u8 \<times> u64) list) h x (y :: fault + _).
     \<forall>c' (log' :: (u8 \<times> u64) list) h' x'. y = Inr (c', log', h', x') \<longrightarrow> loop_run recv send exec pkg c log h x c' log' h' x'"
  have "?P recv send exec pkg c log h x (Inr (c', log', h', x') :: fault + _)"
    by (rule server_loop_induct [OF assms(1), where P = ?P], intro impI allI, rule server_body_runs, simp, blast)
  then show ?thesis by blast
qed

context op_handler
begin

text \<open>What a handler has sent while it served packages: the responses, and what \<open>receive\<close> sends.\<close>

lemma served_log:
  "served recv send pkg h ps ns h1 \<Longrightarrow> inv h \<Longrightarrow>
   inv h1 \<and> length ns = length ps \<and> (\<exists>ds d. length ds = length ns
     \<and> sent h1 = sent h @ concat (map2 (\<lambda>d n. d @ response_writes (unat n)) ds ns) @ d)"
proof (induction rule: served.induct)
  case (served_none h)
  then show ?case by (auto intro: exI [of _ "[]"])
next
  case (served_wait h p h1 ps ns h2)
  note inv1 = recv_inv [OF served_wait.prems served_wait.hyps(1)]
  obtain d1 where d1: "sent h1 = sent h @ d1" using recv_log [OF served_wait.prems served_wait.hyps(1)] by blast
  from served_wait.IH [OF inv1] obtain ds d where ih: "inv h2" "length ns = length ps" "length ds = length ns"
    "sent h2 = sent h1 @ concat (map2 (\<lambda>d n. d @ response_writes (unat n)) ds ns) @ d" by blast
  show ?case
  proof (cases ds)
    case Nil
    with ih d1 show ?thesis by (intro conjI exI [of _ "[]"] exI [of _ "d1 @ d"]) auto
  next
    case (Cons a as)
    with ih d1 show ?thesis by (intro conjI exI [of _ "(d1 @ a) # as"] exI [of _ d]) (cases ns; auto)+
  qed
next
  case (served_one h p h1 n h2 ps ns h3)
  note inv1 = recv_inv [OF served_one.prems served_one.hyps(1)]
  have inv2: "inv h2" using respond_inv [OF inv1, of n] served_one.hyps(2) by simp
  obtain d1 where d1: "sent h1 = sent h @ d1" using recv_log [OF served_one.prems served_one.hyps(1)] by blast
  note d2 = respond_ok_log [OF served_one.hyps(2)]
  from served_one.IH [OF inv2] obtain ds d where ih: "inv h3" "length ns = length ps" "length ds = length ns"
    "sent h3 = sent h2 @ concat (map2 (\<lambda>d n. d @ response_writes (unat n)) ds ns) @ d" by blast
  with d1 d2 show ?case by (intro conjI exI [of _ "d1 # ds"] exI [of _ d]) simp_all
qed

lemma loop_run_log:
  assumes "loop_run recv send exec pkg c log h x c' log' h' x'" "inv h"
  shows "inv h' \<and> (\<exists>ds. sent h' = sent h @ ds)"
proof -
  obtain ps ns h1 where s: "served recv send pkg h ps ns h1"
    and e: "ends_with_stop recv exec pkg ps ns h1 x h' x' \<or> (\<exists>p. ends_with_failure recv send exec pkg ps ns p h1 x h' x')"
    using assms(1) unfolding loop_run_def by blast
  obtain ds where inv1: "inv h1" and log1: "sent h1 = sent h @ ds" using served_log [OF s assms(2)] by blast
  from e show ?thesis
  proof
    assume "ends_with_stop recv exec pkg ps ns h1 x h' x'"
    then obtain p where rc: "recv h1 pkg = ret (STOP, p, h')" by (auto simp: ends_with_stop_def)
    from recv_inv [OF inv1 rc] recv_log [OF inv1 rc] log1 show ?thesis by auto
  next
    assume "\<exists>p. ends_with_failure recv send exec pkg ps ns p h1 x h' x'"
    then obtain p n h2 where rc: "recv h1 pkg = ret (READY, p, h2)" and re: "respond send n h2 = (False, h')"
      by (auto simp: ends_with_failure_def)
    from respond_inv [OF recv_inv [OF inv1 rc], of n] recv_log [OF inv1 rc] respond_log [OF re] re log1 show ?thesis by auto
  qed
qed

lemma server_loop_log:
  assumes "server_loop recv send exec pkg c log h x = ret (c', log', h', x')" "inv h"
  shows "inv h' \<and> (\<exists>ds. sent h' = sent h @ ds)"
  using loop_run_log [OF server_loop_runs [OF assms(1)] assms(2)] .

lemma server_run_inv:
  assumes "server_run recv send reset L clk env pkg h x = ret (code, rep, h', x')" "inv h"
  shows "inv h'"
  using assms reset_inv [OF assms(2)] server_loop_log
  by (fastforce simp: server_run_def rbind_eq_ret Let_def split: option.splits)

lemma server_run_log:
  assumes "server_run recv send reset L clk env pkg h x = ret (code, rep, h', x')" "inv h"
  shows "\<exists>ds. sent h' = sent h @ ds"
proof -
  let ?loop = "server_loop recv send (execute L clk) pkg 0 [] (reset h) (reset_stats x)"
  from assms(1) have "h' = reset h \<or> (\<exists>c log x1. ?loop = ret (c, log, h', x1))"
    by (auto simp: server_run_def rbind_eq_ret Let_def split: option.splits)
  then show ?thesis
    using server_loop_log [of "execute L clk" pkg 0 "[]" "reset h" "reset_stats x"] reset_inv [OF assms(2)]
    by (fastforce simp: reset_log)
qed

end

section \<open>Elapsed times\<close>

definition sane_timeval :: "timeval \<Rightarrow> bool" where
  "sane_timeval t \<longleftrightarrow> 0 \<le> tv_usec t \<and> tv_usec t < 1000000 \<and> \<bar>tv_sec t\<bar> < 2 ^ 61"

definition sane_timespec :: "timespec \<Rightarrow> bool" where
  "sane_timespec t \<longleftrightarrow> 0 \<le> ts_nsec t \<and> ts_nsec t < 1000000000 \<and> \<bar>ts_sec t\<bar> < 2 ^ 61"

definition micros_of :: "timeval \<Rightarrow> int" where
  "micros_of t = tv_sec t * 1000000 + tv_usec t"

definition nanos_of :: "timespec \<Rightarrow> int" where
  "nanos_of t = ts_sec t * 1000000000 + ts_nsec t"

lemma timeval_elapsed_raw:
  assumes "sane_timeval a" "sane_timeval b"
  shows "\<exists>d. timeval_diff a b = ret d \<and> 0 \<le> tv_usec d \<and> tv_usec d < 1000000 \<and> micros_of d = micros_of b - micros_of a"
  using assms by (auto simp: timeval_diff_def checked64_def sane_timeval_def micros_of_def)

lemma timeval_micros_eq: "timeval_micros t = of_int (micros_of t)"
  by (simp add: timeval_micros_def micros_of_def)

lemma timespec_elapsed_raw:
  assumes "sane_timespec a" "sane_timespec b"
  shows "\<exists>d. timespec_diff a b = ret d \<and> 0 \<le> ts_nsec d \<and> ts_nsec d < 1000000000 \<and> nanos_of d = nanos_of b - nanos_of a"
proof -
  let ?d = "ts_nsec b - ts_nsec a"
  have "?d < 0 \<Longrightarrow> sint (of_int ?d + 1000000000 :: u64) = ?d + 1000000000"
    using assms sint_small [of "?d + 1000000000"] by (simp add: sane_timespec_def)
  then show ?thesis
    using assms by (auto simp: timespec_diff_def checked64_def sane_timespec_def nanos_of_def)
qed

lemma timespec_micros_eq:
  assumes "0 \<le> ts_nsec t"
  shows "timespec_micros t = of_int (nanos_of t div 1000)"
proof -
  have "nanos_of t div 1000 = ts_sec t * 1000000 + ts_nsec t div 1000"
    by (simp add: nanos_of_def)
  moreover have "ts_nsec t sdiv 1000 = ts_nsec t div 1000"
    using assms by (simp add: signed_divide_int_def sgn_if)
  ultimately show ?thesis by (simp add: timespec_micros_def)
qed

text \<open>
  C40: elapsed times. The difference of two normalised times is normalised, and what is
  reported for it is the difference in microseconds (rounded down for the nanosecond
  clock), also when the microseconds or nanoseconds have to borrow from the seconds.
\<close>

theorem elapsed_micros:
  assumes "sane_timeval a" "sane_timeval b" "sane_timespec c" "sane_timespec d"
  shows "\<exists>u t. timeval_diff a b = ret u \<and> 0 \<le> tv_usec u \<and> tv_usec u < 1000000
     \<and> timeval_micros u = of_int (micros_of b - micros_of a)
     \<and> timespec_diff c d = ret t \<and> 0 \<le> ts_nsec t \<and> ts_nsec t < 1000000000
     \<and> timespec_micros t = of_int ((nanos_of d - nanos_of c) div 1000)"
proof -
  obtain u where "timeval_diff a b = ret u" "0 \<le> tv_usec u" "tv_usec u < 1000000"
    "micros_of u = micros_of b - micros_of a"
    using timeval_elapsed_raw [OF assms(1,2)] by blast
  moreover obtain t where "timespec_diff c d = ret t" "0 \<le> ts_nsec t" "ts_nsec t < 1000000000"
    "nanos_of t = nanos_of d - nanos_of c"
    using timespec_elapsed_raw [OF assms(3,4)] by blast
  ultimately show ?thesis using timeval_micros_eq [of u] timespec_micros_eq [of t] by metis
qed

theorem elapsed_micros_witness:
  "\<exists>u t. timeval_diff \<lparr>tv_sec = 3, tv_usec = 999999\<rparr> \<lparr>tv_sec = 5, tv_usec = 1\<rparr> = ret u
     \<and> 0 \<le> tv_usec u \<and> tv_usec u < 1000000 \<and> timeval_micros u = 1000002
     \<and> timespec_diff \<lparr>ts_sec = 7, ts_nsec = 500\<rparr> \<lparr>ts_sec = 9, ts_nsec = 499\<rparr> = ret t
     \<and> 0 \<le> ts_nsec t \<and> ts_nsec t < 1000000000 \<and> timespec_micros t = 1999999"
  using elapsed_micros [of "\<lparr>tv_sec = 3, tv_usec = 999999\<rparr>" "\<lparr>tv_sec = 5, tv_usec = 1\<rparr>"
      "\<lparr>ts_sec = 7, ts_nsec = 500\<rparr>" "\<lparr>ts_sec = 9, ts_nsec = 499\<rparr>"]
  by (simp add: sane_timeval_def sane_timespec_def micros_of_def nanos_of_def)

section \<open>Whole sessions\<close>

text \<open>An environment in which the report can be made.\<close>

definition sane_env :: "server_env \<Rightarrow> bool" where
  "sane_env env \<longleftrightarrow> sane_timespec (env_time_begin env) \<and> sane_timespec (env_time_end env)
     \<and> out_res (env_out env) = []
     \<and> (\<exists>u s. env_usage_begin env = Some (u, s) \<and> sane_timeval u \<and> sane_timeval s)
     \<and> (\<exists>u s. env_usage_end env = Some (u, s) \<and> sane_timeval u \<and> sane_timeval s)"

lemma server_summary_ret:
  assumes "sane_timeval (fst rb)" "sane_timeval (snd rb)" "sane_timeval (fst re)" "sane_timeval (snd re)"
    "sane_timespec eb" "sane_timespec ee" "c \<noteq> 0"
  shows "\<exists>rep. server_summary rb re eb ee log c x = ret rep \<and> rep_log rep = log \<and> rep_num_ops rep = c
    \<and> rep_stats rep = print_stats x \<and> rep_total rep = of_int ((nanos_of ee - nanos_of eb) div 1000)"
proof -
  obtain t where "timespec_diff eb ee = ret t" "0 \<le> ts_nsec t" "nanos_of t = nanos_of ee - nanos_of eb"
    using timespec_elapsed_raw [OF assms(5,6)] by blast
  moreover obtain u where "timeval_diff (fst rb) (fst re) = ret u"
    using timeval_elapsed_raw [OF assms(1,3)] by blast
  moreover obtain s where "timeval_diff (snd rb) (snd re) = ret s"
    using timeval_elapsed_raw [OF assms(2,4)] by blast
  ultimately show ?thesis
    using assms(7) timespec_micros_eq [of t] by (simp add: server_summary_def)
qed

lemma server_summary_idle:
  assumes "sane_timeval ub" "sane_timeval sb" "sane_timeval ue" "sane_timeval se"
    "sane_timespec eb" "sane_timespec ee"
  shows "server_summary (ub, sb) (ue, se) eb ee log 0 x = undef"
proof -
  obtain t u s where "timespec_diff eb ee = ret t" "timeval_diff ub ue = ret u" "timeval_diff sb se = ret s"
    using timespec_elapsed_raw [OF assms(5,6)] timeval_elapsed_raw [OF assms(1,3)]
      timeval_elapsed_raw [OF assms(2,4)] by blast
  then show ?thesis by (simp add: server_summary_def)
qed

text \<open>What a whole session comes to, for packages \<open>ps\<close> executed with results \<open>ns\<close>.\<close>

definition session_report :: "server_env \<Rightarrow> package list \<Rightarrow> 'db ldb_executor \<Rightarrow> server_report \<Rightarrow> bool" where
  "session_report env ps x rep \<longleftrightarrow> rep_log rep = progress 0 ps \<and> rep_num_ops rep = of_nat (length ps)
     \<and> rep_stats rep = print_stats x
     \<and> rep_total rep = of_int ((nanos_of (env_time_end env) - nanos_of (env_time_begin env)) div 1000)"

context op_link
begin

lemma server_run_link:
  assumes "link (reset h) ps echo" "kv_pairs pkg = []"
    "exec_all (execute L clk) ps (reset_stats x) = ret (ns, x')"
    "sane_env env" "0 < length ps" "length ps < 2 ^ 64"
  shows "\<exists>rep h'. server_run recv send reset L clk env pkg h x = ret (0, Some rep, h', x')
     \<and> session_report env ps x' rep \<and> sent h' = sent h @ answers echo ps ns"
proof -
  obtain h' where loop: "server_loop recv send (execute L clk) pkg 0 [] (reset h) (reset_stats x)
      = ret (of_nat (length ps), progress 0 ps, h', x')" "sent h' = sent (reset h) @ answers echo ps ns"
    using server_loop_link [OF assms(1-3), of 0 "[]"] by auto
  have "(of_nat (length ps) :: u64) \<noteq> 0"
    using assms(5,6) by (simp add: word_of_nat_eq_0_iff nat_dvd_not_less)
  then obtain rep where "server_summary (the (env_usage_begin env)) (the (env_usage_end env))
      (env_time_begin env) (env_time_end env) (progress 0 ps) (of_nat (length ps)) x' = ret rep"
    "session_report env ps x' rep"
    using assms(4) server_summary_ret [of "the (env_usage_begin env)" "the (env_usage_end env)"
        "env_time_begin env" "env_time_end env" "of_nat (length ps)" "progress 0 ps" x']
    by (auto simp: sane_env_def session_report_def)
  with loop assms(4) show ?thesis by (auto simp: server_run_def sane_env_def reset_log)
qed

lemma server_run_fault:
  assumes "link (reset h) ps echo" "kv_pairs pkg = []"
    "exec_all (execute L clk) ps (reset_stats x) = Some (Inl e)" "sane_env env"
  shows "server_run recv send reset L clk env pkg h x = Some (Inl e)"
  using server_loop_fault [OF assms(1-3), of 0 "[]"] assms(4) by (auto simp: server_run_def sane_env_def)

lemma server_run_idle:
  assumes "link (reset h) [] echo" "kv_pairs pkg = []" "sane_env env"
  shows "server_run recv send reset L clk env pkg h x = undef"
proof -
  obtain h' where "server_loop recv send (execute L clk) pkg 0 [] (reset h) (reset_stats x)
      = ret (0, [], h', reset_stats x)"
    using server_loop_link [OF assms(1,2), of "execute L clk" "reset_stats x" "[]" _ 0 "[]"] by auto
  then show ?thesis using assms(3) by (auto simp: server_run_def sane_env_def server_summary_idle)
qed

end

text \<open>The executor after its constructor.\<close>

definition new_executor :: "'db \<Rightarrow> 'db ldb_executor" where
  "new_executor db = \<lparr>t_insert = 0, t_read = 0, t_scan = 0, t_update = 0, n_insert = 0, n_read = 0,
     n_scan = 0, n_update = 0, ex_db = db, ex_now = 0\<rparr>"

lemma new_executor: "opn name = Some db \<Longrightarrow> ldb_create opn name 0 = ret (new_executor db)" "reset_stats (new_executor db) = new_executor db"
  by (simp_all add: ldb_create_def new_executor_def reset_stats_def)

lemma exec_all_total:
  assumes "kv_store L dbinv view todo" "dbinv (ex_db x)" "healthy (view (ex_db x))"
    "list_all (\<lambda>p. unat (pkg_key p) < 2 ^ 63) ps"
  shows "\<exists>ns x'. exec_all (execute L clk) ps x = ret (ns, x') \<and> length ns = length ps
     \<and> dbinv (ex_db x') \<and> healthy (view (ex_db x'))"
  using assms(2-4)
proof (induction ps arbitrary: x)
  case (Cons p ps)
  obtain n x1 where "execute L clk p x = ret (n, x1)" "dbinv (ex_db x1)" "healthy (view (ex_db x1))"
    using kv_store.execute_returns [OF assms(1) Cons.prems(1,2)] Cons.prems(3) by force
  with Cons.IH [of x1] Cons.prems(3) show ?case by auto
qed simp

text \<open>
  A TCP session: the server is started for TCP, its calls to set up the connection
  succeed, and the client sends the packages \<open>ps\<close> in frames and then \<open>ENDNOW\<close>, in
  any chunks.
\<close>

definition tcp_session :: "server_env \<Rightarrow> bytes list \<Rightarrow> package list \<Rightarrow> bool" where
  "tcp_session env argv ps \<longleftrightarrow> length argv = 4 \<and> argv ! 2 = ascii ''tcp''
     \<and> env_bind env (of_int (atoi (argv ! 3))) \<noteq> -1 \<and> env_listen env \<noteq> -1 \<and> sane_env env \<and> flowing (env_input env)
     \<and> list_all (\<lambda>p. wf_package p \<and> length (encode_package p) \<le> package_buffer_size) ps
     \<and> (\<exists>behind. stream_of (env_input env)
          = concat (map (\<lambda>p. frame (encode_package p)) ps) @ frame (ascii ''ENDNOW'') @ behind)"

lemma tcp_session_open:
  assumes "tcp_session env argv ps"
  shows "\<exists>h. tcp_open (env_sock env) (env_bind env) (atoi (argv ! 3)) (env_listen env) (env_conn env)
       (env_input env) (env_out env) = ret h \<and> tcp_link (tcp_reset h) ps (\<lambda>_. [])"
  using assms
  by (auto simp: tcp_session_def tcp_open_def tcp_link_def tcp_feeds_def tcp_inv_def tcp_reset_def
      tcp_sent_def sane_env_def)

text \<open>
  A UDP session: the workload file can be read, holds the packages \<open>ps\<close> behind its two
  counters and is not longer than the 4 MiB buffer; \<open>w\<close> is its contents.
\<close>

definition udp_session :: "server_env \<Rightarrow> bytes list \<Rightarrow> bytes \<Rightarrow> package list \<Rightarrow> bool" where
  "udp_session env argv w ps \<longleftrightarrow> length argv = 6 \<and> argv ! 2 \<noteq> ascii ''tcp''
     \<and> env_sock env \<noteq> -1 \<and> fst (env_aton env (argv ! 3)) \<noteq> -1
     \<and> fst (env_file env (argv ! 5)) \<noteq> -1 \<and> sane_env env
     \<and> length (env_mem env) = max_file_size \<and> list_all wf_package ps
     \<and> (\<exists>es rest. snd (env_file env (argv ! 5)) = es @ Read_Data [] # rest \<and> flowing es \<and> stream_of es = w)
     \<and> (\<exists>preins. w = workload preins ps) \<and> length w \<le> max_file_size"

lemma udp_echo_prefix:
  assumes "take (length w) buf = w" "length (encode_package p) \<le> length w"
  shows "udp_echo buf p = udp_echo w p"
proof -
  have "take (length (encode_package p)) buf = take (length (encode_package p)) (take (length w) buf)"
    using assms(2) by simp
  then show ?thesis using assms(1) by (simp add: udp_echo_def)
qed

lemma answers_cong:
  "(\<And>p. p \<in> set ps \<Longrightarrow> f p = g p) \<Longrightarrow> answers f ps ns = answers g ps ns"
proof (induction ps arbitrary: ns)
  case (Cons p ps)
  then show ?case by (cases ns) (simp_all add: answers_def)
qed simp

lemma length_workload: "p \<in> set ps \<Longrightarrow> length (encode_package p) \<le> length (workload preins ps)"
  by (induction ps) (auto simp: workload_def)

lemma udp_session_open:
  assumes "udp_session env argv w ps"
  shows "\<exists>h. udp_open (argv ! 5) (argv ! 3) (atoi (argv ! 4)) (env_sock env) (env_aton env) (env_file env)
       (env_mem env) (env_out env) = ret h \<and> udp_link (udp_reset h) ps (udp_echo (wl_buffer h)) \<and> udp_inv h
     \<and> udp_sent h = out_log (env_out env) \<and> take (length w) (wl_buffer h) = w"
proof -
  obtain es rest preins where wl: "snd (env_file env (argv ! 5)) = es @ Read_Data [] # rest" "flowing es"
    "stream_of es = workload preins ps" "length (workload preins ps) \<le> max_file_size" "w = workload preins ps"
    using assms by (auto simp: udp_session_def)
  obtain h where "udp_open (argv ! 5) (argv ! 3) (atoi (argv ! 4)) (env_sock env) (env_aton env) (env_file env)
       (env_mem env) (env_out env) = ret h" "udp_feeds h ps" "udp_reset h = h" "udp_out h = env_out env"
    "take (length w) (wl_buffer h) = w"
    using udp_open_feeds [of "env_sock env" "env_aton env" "argv ! 3" "env_file env" "argv ! 5" "env_mem env" es rest preins ps
        "atoi (argv ! 4)" "env_out env"] assms wl by (auto simp: udp_session_def)
  with assms show ?thesis by (auto simp: udp_session_def udp_link_def udp_sent_def sane_env_def udp_feeds_def)
qed

text \<open>In both sessions \<open>main\<close> gets as far as the run of the server.\<close>

lemma server_main_tcp_run:
  assumes "tcp_session env argv ps" "opn (argv ! 1) = Some db"
  obtains h where "tcp_link (tcp_reset h) ps (\<lambda>_. [])" "tcp_inv h" "tcp_sent h = out_log (env_out env)"
    "tcp_destroy h = [env_conn env, env_sock env]"
    "server_main L clk env opn pkg argv
      = rbind (server_run tcp_receive tcp_send tcp_reset L clk env pkg h (new_executor db))
          (\<lambda>(code, rep, h, x). ret (code, rep, tcp_sent h, if code = 0 then tcp_destroy h else [], Some (ex_db x)))"
proof -
  obtain h where h: "tcp_open (env_sock env) (env_bind env) (atoi (argv ! 3)) (env_listen env) (env_conn env)
      (env_input env) (env_out env) = ret h" "tcp_link (tcp_reset h) ps (\<lambda>_. [])"
    using tcp_session_open [OF assms(1)] by blast
  moreover have "length argv = 4" "argv ! 2 = ascii ''tcp''" using assms(1) by (simp_all add: tcp_session_def)
  ultimately show thesis
    using that [of h] tcp_open_ret [OF h(1)] new_executor(1) [of opn "argv ! 1" db, OF assms(2)] by (simp add: server_main_def)
qed

lemma server_main_udp_run:
  assumes "udp_session env argv w ps" "opn (argv ! 1) = Some db"
  obtains h where "udp_link (udp_reset h) ps (udp_echo (wl_buffer h))" "udp_inv h" "udp_sent h = out_log (env_out env)"
    "take (length w) (wl_buffer h) = w" "udp_destroy h = [env_sock env]"
    "server_main L clk env opn pkg argv
      = rbind (server_run udp_receive udp_send udp_reset L clk env pkg h (new_executor db))
          (\<lambda>(code, rep, h, x). ret (code, rep, udp_sent h, if code = 0 then udp_destroy h else [], Some (ex_db x)))"
proof -
  obtain h where h: "udp_open (argv ! 5) (argv ! 3) (atoi (argv ! 4)) (env_sock env) (env_aton env) (env_file env)
       (env_mem env) (env_out env)
       = ret h" "udp_link (udp_reset h) ps (udp_echo (wl_buffer h))" "udp_inv h" "udp_sent h = out_log (env_out env)"
    "take (length w) (wl_buffer h) = w"
    using udp_session_open [OF assms(1)] by blast
  moreover have "length argv = 6" "argv ! 2 \<noteq> ascii ''tcp''" using assms(1) by (simp_all add: udp_session_def)
  ultimately show thesis
    using that [of h] udp_open_fds [OF h(1)] new_executor(1) [of opn "argv ! 1" db, OF assms(2)] by (simp add: server_main_def)
qed

lemma tcp_session_sane: "tcp_session env argv ps \<Longrightarrow> sane_env env"
  and udp_session_sane: "udp_session env argv w ps \<Longrightarrow> sane_env env"
  by (simp_all add: tcp_session_def udp_session_def)

lemma server_main_tcp:
  assumes "tcp_session env argv ps" "opn (argv ! 1) = Some db" "kv_pairs pkg = []" "0 < length ps" "length ps < 2 ^ 64"
    "exec_all (execute L clk) ps (new_executor db) = ret (ns, x')"
  shows "\<exists>rep. server_main L clk env opn pkg argv
       = ret (0, Some rep, out_log (env_out env) @ answers (\<lambda>_. []) ps ns, [env_conn env, env_sock env], Some (ex_db x'))
     \<and> session_report env ps x' rep"
proof -
  obtain h where link: "tcp_link (tcp_reset h) ps (\<lambda>_. [])" and h: "tcp_inv h" "tcp_sent h = out_log (env_out env)"
    "tcp_destroy h = [env_conn env, env_sock env]"
    "server_main L clk env opn pkg argv
      = rbind (server_run tcp_receive tcp_send tcp_reset L clk env pkg h (new_executor db))
          (\<lambda>(code, rep, h, x). ret (code, rep, tcp_sent h, if code = 0 then tcp_destroy h else [], Some (ex_db x)))"
    using server_main_tcp_run [OF assms(1), of opn db L clk pkg, OF assms(2)] by blast
  obtain rep h' where run: "server_run tcp_receive tcp_send tcp_reset L clk env pkg h (new_executor db) = ret (0, Some rep, h', x')"
    and rep: "session_report env ps x' rep" "tcp_sent h' = tcp_sent h @ answers (\<lambda>_. []) ps ns"
    using tcp_op.server_run_link [OF link assms(3) _ tcp_session_sane [OF assms(1)] assms(4,5), of L clk "new_executor db" ns x']
      assms(6) by (auto simp: new_executor(2))
  have "tcp_destroy h' = tcp_destroy h" using tcp_fds.server_run_inv [OF run, of "tcp_destroy h"] h(1) by simp
  with run rep h show ?thesis by simp
qed

lemma server_main_udp:
  assumes "udp_session env argv w ps" "opn (argv ! 1) = Some db" "kv_pairs pkg = []" "0 < length ps" "length ps < 2 ^ 64"
    "exec_all (execute L clk) ps (new_executor db) = ret (ns, x')"
  shows "\<exists>rep. server_main L clk env opn pkg argv
       = ret (0, Some rep, out_log (env_out env) @ answers (udp_echo w) ps ns, [env_sock env], Some (ex_db x'))
     \<and> session_report env ps x' rep"
proof -
  obtain h where link: "udp_link (udp_reset h) ps (udp_echo (wl_buffer h))" and h: "udp_inv h"
    "udp_sent h = out_log (env_out env)" and buf: "take (length w) (wl_buffer h) = w" and fd: "udp_destroy h = [env_sock env]"
    and eq: "server_main L clk env opn pkg argv
      = rbind (server_run udp_receive udp_send udp_reset L clk env pkg h (new_executor db))
          (\<lambda>(code, rep, h, x). ret (code, rep, udp_sent h, if code = 0 then udp_destroy h else [], Some (ex_db x)))"
    using server_main_udp_run [OF assms(1), of opn db L clk pkg, OF assms(2)] by blast
  obtain rep h' where run: "server_run udp_receive udp_send udp_reset L clk env pkg h (new_executor db) = ret (0, Some rep, h', x')"
    and rep: "session_report env ps x' rep" "udp_sent h' = udp_sent h @ answers (udp_echo (wl_buffer h)) ps ns"
    using udp_op.server_run_link [OF link assms(3) _ udp_session_sane [OF assms(1)] assms(4,5), of L clk "new_executor db" ns x']
      assms(6) by (auto simp: new_executor(2))
  have "udp_destroy h' = udp_destroy h"
    using udp_fds.server_run_inv [OF run, of "udp_peer h"] h(1) by (simp add: udp_peer_def udp_destroy_def)
  moreover have "answers (udp_echo (wl_buffer h)) ps ns = answers (udp_echo w) ps ns"
    using assms(1) length_workload by (intro answers_cong udp_echo_prefix [OF buf]) (auto simp: udp_session_def)
  ultimately show ?thesis using run rep h fd eq by simp
qed

lemma server_main_tcp_idle:
  assumes "tcp_session env argv []" "opn (argv ! 1) = Some db" "kv_pairs pkg = []"
  shows "server_main L clk env opn pkg argv = undef"
proof -
  obtain h where "tcp_link (tcp_reset h) [] (\<lambda>_. [])"
    and eq: "server_main L clk env opn pkg argv
      = rbind (server_run tcp_receive tcp_send tcp_reset L clk env pkg h (new_executor db))
          (\<lambda>(code, rep, h, x). ret (code, rep, tcp_sent h, if code = 0 then tcp_destroy h else [], Some (ex_db x)))"
    using server_main_tcp_run [OF assms(1), of opn db L clk pkg, OF assms(2)] by blast
  from tcp_op.server_run_idle [OF this(1) assms(3) tcp_session_sane [OF assms(1)], of L clk "new_executor db"] eq
  show ?thesis by simp
qed

lemma server_main_tcp_fault:
  assumes "tcp_session env argv ps" "opn (argv ! 1) = Some db" "kv_pairs pkg = []"
    "exec_all (execute L clk) ps (new_executor db) = Some (Inl e)"
  shows "server_main L clk env opn pkg argv = Some (Inl e)"
proof -
  obtain h where "tcp_link (tcp_reset h) ps (\<lambda>_. [])"
    and eq: "server_main L clk env opn pkg argv
      = rbind (server_run tcp_receive tcp_send tcp_reset L clk env pkg h (new_executor db))
          (\<lambda>(code, rep, h, x). ret (code, rep, tcp_sent h, if code = 0 then tcp_destroy h else [], Some (ex_db x)))"
    using server_main_tcp_run [OF assms(1), of opn db L clk pkg, OF assms(2)] by blast
  from tcp_op.server_run_fault [OF this(1) assms(3) _ tcp_session_sane [OF assms(1)], of L clk "new_executor db" e]
    assms(4) eq
  show ?thesis by (simp add: new_executor(2))
qed

text \<open>A concrete environment: the connection delivers \<open>input\<close>, the workload file is \<open>wl\<close>.\<close>

definition demo_env :: "bytes \<Rightarrow> bytes \<Rightarrow> server_env" where
  "demo_env input wl =
     \<lparr>env_sock = 3, env_bind = (\<lambda>_. 0), env_listen = 0, env_conn = 4, env_input = [Read_Data input],
      env_aton = (\<lambda>_. (1, Some 0x7F000001)), env_file = (\<lambda>_. (5, [Read_Data wl, Read_Data []])),
      env_mem = replicate 4194304 0, env_out = \<lparr>out_res = [], out_log = []\<rparr>,
      env_usage_begin = Some (\<lparr>tv_sec = 0, tv_usec = 10\<rparr>, \<lparr>tv_sec = 0, tv_usec = 20\<rparr>),
      env_usage_end = Some (\<lparr>tv_sec = 0, tv_usec = 15\<rparr>, \<lparr>tv_sec = 1, tv_usec = 0\<rparr>),
      env_time_begin = \<lparr>ts_sec = 0, ts_nsec = 7\<rparr>, env_time_end = \<lparr>ts_sec = 2, ts_nsec = 5\<rparr>\<rparr>"

abbreviation demo_package :: "u8 \<Rightarrow> u64 \<Rightarrow> u64 \<Rightarrow> (bytes \<times> bytes) list \<Rightarrow> package" where
  "demo_package opc k n kvs \<equiv> \<lparr>pkg_op = opc, pkg_table = 0, pkg_num_kvs = of_nat (length kvs), pkg_key = k,
     pkg_scan_length = n, kv_pairs = kvs\<rparr>"

lemma demo_sane: "sane_env (demo_env input wl)"
  by (simp add: sane_env_def demo_env_def sane_timeval_def sane_timespec_def)

lemma demo_tcp_session:
  assumes "list_all (\<lambda>p. wf_package p \<and> length (encode_package p) \<le> package_buffer_size) ps"
  shows "tcp_session (demo_env (concat (map (\<lambda>p. frame (encode_package p)) ps) @ frame (ascii ''ENDNOW'')) wl)
     [ascii ''s'', ascii ''db'', ascii ''tcp'', ascii ''1337''] ps"
  using assms demo_sane
  by (auto simp: tcp_session_def demo_env_def frame_def ascii_def)

lemma demo_udp_session:
  assumes "list_all wf_package ps" "length (workload 0 ps) \<le> max_file_size"
  shows "udp_session (demo_env input (workload 0 ps))
     [ascii ''s'', ascii ''db'', ascii ''udp'', ascii ''127.0.0.1'', ascii ''1337'', ascii ''w''] (workload 0 ps) ps"
proof -
  have "snd (env_file (demo_env input (workload 0 ps)) name) = [Read_Data (workload 0 ps)] @ Read_Data [] # []" for name
    by (simp add: demo_env_def)
  moreover have "workload 0 ps \<noteq> []" by (simp add: workload_def be_bytes_numeral)
  then have "flowing [Read_Data (workload 0 ps)]" by simp
  moreover have "stream_of [Read_Data (workload 0 ps)] = workload 0 ps" by simp
  ultimately have "\<exists>es rest. snd (env_file (demo_env input (workload 0 ps)) (ascii ''w'')) = es @ Read_Data [] # rest
      \<and> flowing es \<and> stream_of es = workload 0 ps" by blast
  moreover have "\<exists>preins. workload 0 ps = workload preins ps" by blast
  ultimately show ?thesis
    using assms demo_sane unfolding udp_session_def by (simp add: ascii_def) (simp add: demo_env_def)
qed

section \<open>Properties of the server\<close>

text \<open>
  A whole TCP session. Started for TCP on a healthy database, with a client that sends
  well-formed packages with keys below \<open>2 ^ 63\<close> and then \<open>ENDNOW\<close>, the server terminates
  with exit code 0; it has executed exactly those packages, each once and in order, has
  sent for each the response of its size and nothing else, and reports their number, the
  progress lines, the statistics of the executor and the elapsed time.
\<close>

theorem server_tcp_session:
  assumes "kv_store L dbinv view todo" "dbinv db" "healthy (view db)" "tcp_session env argv ps"
    "opn (argv ! 1) = Some db" "kv_pairs pkg = []" "0 < length ps" "length ps < 2 ^ 64" "list_all (\<lambda>p. unat (pkg_key p) < 2 ^ 63) ps"
  shows "\<exists>ns x' rep. exec_all (execute L clk) ps (new_executor db) = ret (ns, x') \<and> length ns = length ps
     \<and> server_main L clk env opn pkg argv
       = ret (0, Some rep, out_log (env_out env) @ answers (\<lambda>_. []) ps ns, [env_conn env, env_sock env], Some (ex_db x'))
     \<and> session_report env ps x' rep"
proof -
  obtain ns x' where "exec_all (execute L clk) ps (new_executor db) = ret (ns, x')" "length ns = length ps"
    using exec_all_total [OF assms(1) _ _ assms(9), of "new_executor db" clk] assms(2,3)
    by (auto simp: new_executor_def)
  with server_main_tcp [of env argv ps opn db pkg L clk ns x', OF assms(4-8)] show ?thesis by blast
qed

theorem server_tcp_session_witness:
  "let p = demo_package 3 7 0 [];
       env = demo_env (frame (encode_package p) @ frame (encode_package p) @ frame (ascii ''ENDNOW'')) []
   in \<exists>ns x' rep. exec_all (execute ol_ops (\<lambda>i. of_nat i)) [p, p] (new_executor []) = ret (ns, x')
     \<and> length ns = length [p, p]
     \<and> server_main ol_ops (\<lambda>i. of_nat i) env (\<lambda>_. Some []) p [ascii ''s'', ascii ''db'', ascii ''tcp'', ascii ''1337'']
       = ret (0, Some rep, answers (\<lambda>_. []) [p, p] ns, [4, 3], Some (ex_db x')) \<and> session_report env [p, p] x' rep"
proof -
  let ?p = "demo_package 3 7 0 []"
  have session: "tcp_session (demo_env (frame (encode_package ?p) @ frame (encode_package ?p) @ frame (ascii ''ENDNOW'')) [])
      [ascii ''s'', ascii ''db'', ascii ''tcp'', ascii ''1337''] [?p, ?p]"
    using demo_tcp_session [of "[?p, ?p]" "[]"] by (simp add: wf_package_def length_encode_package)
  have out: "out_log (env_out (demo_env i w)) = []" "env_sock (demo_env i w) = 3" "env_conn (demo_env i w) = 4" for i w by (simp_all add: demo_env_def)
  show ?thesis
    unfolding Let_def
    using server_tcp_session [OF ol.kv_store_axioms _ _ session, of "[]" "\<lambda>_. Some []" ?p "\<lambda>i. of_nat i"]
    by (simp add: out ol_inv_def healthy_def)
qed

text \<open>
  A whole UDP run. Started for UDP on a workload file with well-formed packages with
  keys below \<open>2 ^ 63\<close>, the server executes the packages of the file, each once and in
  order, sends for each a datagram with as many bytes as the package has (taken from the start
  of the workload \<open>w\<close>, not from the package) and then the response, and ends with
  exit code 0 and the report.
\<close>

theorem server_udp_session:
  assumes "kv_store L dbinv view todo" "dbinv db" "healthy (view db)" "udp_session env argv w ps"
    "opn (argv ! 1) = Some db" "kv_pairs pkg = []" "0 < length ps" "length ps < 2 ^ 64" "list_all (\<lambda>p. unat (pkg_key p) < 2 ^ 63) ps"
  shows "\<exists>ns x' rep. exec_all (execute L clk) ps (new_executor db) = ret (ns, x') \<and> length ns = length ps
     \<and> server_main L clk env opn pkg argv
       = ret (0, Some rep, out_log (env_out env) @ answers (udp_echo w) ps ns, [env_sock env], Some (ex_db x'))
     \<and> session_report env ps x' rep"
proof -
  obtain ns x' where "exec_all (execute L clk) ps (new_executor db) = ret (ns, x')" "length ns = length ps"
    using exec_all_total [OF assms(1) _ _ assms(9), of "new_executor db" clk] assms(2,3)
    by (auto simp: new_executor_def)
  with server_main_udp [of env argv w ps opn db pkg L clk ns x', OF assms(4-8)] show ?thesis by blast
qed

theorem server_udp_session_witness:
  "let p = demo_package 3 7 0 []; env = demo_env [] (workload 0 [p])
   in \<exists>ns x' rep. exec_all (execute ol_ops (\<lambda>i. of_nat i)) [p] (new_executor []) = ret (ns, x')
     \<and> length ns = length [p]
     \<and> server_main ol_ops (\<lambda>i. of_nat i) env (\<lambda>_. Some []) p
         [ascii ''s'', ascii ''db'', ascii ''udp'', ascii ''127.0.0.1'', ascii ''1337'', ascii ''w'']
       = ret (0, Some rep, answers (udp_echo (workload 0 [p])) [p] ns, [3], Some (ex_db x')) \<and> session_report env [p] x' rep"
proof -
  let ?p = "demo_package 3 7 0 []"
  have session: "udp_session (demo_env [] (workload 0 [?p]))
      [ascii ''s'', ascii ''db'', ascii ''udp'', ascii ''127.0.0.1'', ascii ''1337'', ascii ''w''] (workload 0 [?p]) [?p]"
    by (rule demo_udp_session) (simp_all add: wf_package_def workload_def length_encode_package)
  have out: "out_log (env_out (demo_env i w)) = []" "env_sock (demo_env i w) = 3" "env_conn (demo_env i w) = 4" for i w by (simp_all add: demo_env_def)
  show ?thesis
    unfolding Let_def
    using server_udp_session [OF ol.kv_store_axioms _ _ session, of "[]" "\<lambda>_. Some []" ?p "\<lambda>i. of_nat i"]
    by (simp add: out ol_inv_def healthy_def)
qed

text \<open>
  C18: what the loop has done whenever it returns. For every handler that meets the
  handler contract, whatever arrives and whatever the sends return: some packages have been
  received one after the other, executed in that order and answered, each with a response of
  the size the executor returned and in full; the operation counter has gone up by their
  number. Then either \<open>receive\<close> has returned \<open>STOP\<close>, or one more package has been received
  and executed and its response failed: it has its progress line but is not counted.
  Nothing sent earlier is lost.
\<close>

theorem server_loop_accounts:
  assumes "op_handler recv send reset hinv sent" "hinv h"
    "server_loop recv send exec pkg c log h x = ret (c', log', h', x')"
  shows "hinv h' \<and> (\<exists>ds. sent h' = sent h @ ds)
    \<and> (\<exists>ps ns h1. served recv send pkg h ps ns h1 \<and> c' = c + of_nat (length ps)
       \<and> (\<exists>ds d. length ps = length ns \<and> length ds = length ns
            \<and> sent h1 = sent h @ concat (map2 (\<lambda>d n. d @ response_writes (unat n)) ds ns) @ d)
       \<and> ((\<exists>p. recv h1 pkg = ret (STOP, p, h')) \<and> exec_all exec ps x = ret (ns, x') \<and> log' = log @ progress c ps
        \<or> (\<exists>p n h2. recv h1 pkg = ret (READY, p, h2) \<and> respond send n h2 = (False, h')
             \<and> exec_all exec (ps @ [p]) x = ret (ns @ [n], x') \<and> log' = log @ progress c (ps @ [p]))))"
proof -
  have run: "loop_run recv send exec pkg c log h x c' log' h' x'" using server_loop_runs [OF assms(3)] .
  from run obtain ps ns h1 where s: "served recv send pkg h ps ns h1" "c' = c + of_nat (length ps)"
    and e: "(\<exists>p. recv h1 pkg = ret (STOP, p, h')) \<and> exec_all exec ps x = ret (ns, x') \<and> log' = log @ progress c ps
        \<or> (\<exists>p n h2. recv h1 pkg = ret (READY, p, h2) \<and> respond send n h2 = (False, h')
             \<and> exec_all exec (ps @ [p]) x = ret (ns @ [n], x') \<and> log' = log @ progress c (ps @ [p]))"
    unfolding loop_run_def ends_with_stop_def ends_with_failure_def by blast
  have "\<exists>ds d. length ps = length ns \<and> length ds = length ns
      \<and> sent h1 = sent h @ concat (map2 (\<lambda>d n. d @ response_writes (unat n)) ds ns) @ d"
    using op_handler.served_log [OF assms(1) s(1) assms(2)] by metis
  with s e op_handler.loop_run_log [OF assms(1) run assms(2)] show ?thesis by blast
qed

theorem server_loop_accounts_witness:
  "let p = demo_package 3 7 0 [];
       h = \<lparr>udp_cfd = 3, udp_port = 1337, udp_addr = 0, udp_out = \<lparr>out_res = [19, -1], out_log = []\<rparr>,
            wl_buffer = encode_package p, wl_pos = 0, wl_size = 19, udp_ops = 0, udp_total_ops = 1\<rparr>
   in \<exists>h'. server_loop udp_receive udp_send (\<lambda>p x. ret (9, x + 1)) p 5 [] h 0 = ret (5, [], h', (1 :: nat))
     \<and> udp_inv h' \<and> (\<exists>ds. udp_sent h' = udp_sent h @ ds)
     \<and> (\<exists>ps ns h1. served udp_receive udp_send p h ps ns h1 \<and> 5 = 5 + (of_nat (length ps) :: u64))"
proof -
  let ?p = "demo_package 3 7 0 []"
  let ?h = "\<lparr>udp_cfd = 3, udp_port = 1337, udp_addr = 0, udp_out = \<lparr>out_res = [19, -1], out_log = []\<rparr>,
            wl_buffer = encode_package ?p, wl_pos = 0, wl_size = 19, udp_ops = 0, udp_total_ops = 1\<rparr>"
  have inv: "udp_inv ?h" by (simp add: udp_inv_def length_encode_package)
  have fb: "from_bytes (encode_package ?p @ []) 19 ?p = ret (length (encode_package ?p), ?p)"
    by (rule from_bytes_encode) (simp_all add: wf_package_def length_encode_package)
  have "\<exists>h'. server_loop udp_receive udp_send (\<lambda>p x. ret (9, x + 1)) ?p 5 [] ?h 0 = ret (5, [], h', (1 :: nat))"
    using fb by (subst server_loop.simps)
      (simp add: udp_receive_def udp_send_def os_write_def respond_def length_encode_package)
  then obtain h' where run: "server_loop udp_receive udp_send (\<lambda>p x. ret (9, x + 1)) ?p 5 [] ?h 0 = ret (5, [], h', (1 :: nat))"
    by blast
  from server_loop_accounts [OF udp_op.op_handler_axioms inv run] run show ?thesis
    unfolding Let_def by blast
qed

text \<open>
  A client that stops the server at once. With no operation executed the averages of
  the report divide by zero: what the program does is undefined.
\<close>

theorem server_idle_undefined:
  assumes "tcp_session env argv []" "opn (argv ! 1) = Some db" "kv_pairs pkg = []"
  shows "server_main L clk env opn pkg argv = undef"
  using assms by (rule server_main_tcp_idle)

theorem server_idle_undefined_witness:
  "server_main ol_ops (\<lambda>i. 0) (demo_env (frame (ascii ''ENDNOW'')) []) (\<lambda>_. Some []) (demo_package 0 0 0 [])
     [ascii ''s'', ascii ''db'', ascii ''tcp'', ascii ''1337''] = undef"
  using demo_tcp_session [of "[]" "[]"] by (intro server_idle_undefined) simp_all

lemma single_entry:
  assumes "map_of es = [k \<mapsto> v]" "distinct (map fst es)"
  shows "es = [(k, v)]"
proof -
  have "fst ` set es = {k}" using assms(1) dom_map_of_conv_image_fst [of es] by simp
  then have "set (map fst es) = {k}" by simp
  with assms(2) have "length es = 1" by (metis distinct_card card.insert card.empty finite.emptyI
        empty_iff length_map One_nat_def)
  then obtain a b where "es = [(a, b)]" by (metis length_Suc_conv length_0_conv One_nat_def surj_pair)
  with assms(1) show ?thesis by (auto simp: fun_eq_iff split: if_splits)
qed

lemma exec_large_key:
  assumes "kv_store L dbinv view todo" "dbinv (ex_db x)" "view (ex_db x) = Map.empty"
    "pkg_op p = 1" "kv_pairs p = [(f, v)]" "2 ^ 63 \<le> unat (pkg_key p)"
    "pkg_op q = 4" "kv_pairs q = []" "0 < pkg_scan_length q"
  shows "exec_all (execute L clk) [p, q] x = throw Out_Of_Range"
proof -
  let ?db = "exec_insert L p (ex_db x)"
  let ?key = "pack_key (pkg_key p) f (ascii ''field'')"
  have "dbinv ?db" "view ?db = [?key \<mapsto> v]"
    using kv_store.exec_insert_fold [OF assms(1,2), of p] assms(3,5) by simp_all
  then have "todo (it_first L ?db) = [(?key, v)]"
    using kv_store.first_map [OF assms(1)] kv_store.first_distinct [OF assms(1)] by (intro single_entry) auto
  then have "exec_scan L q ?db = throw Out_Of_Range"
    using assms(6,8,9) by (simp add: exec_scan_def kv_store.exec_scan_loop_list [OF assms(1)] unpack_pack)
  then show ?thesis using assms(4,7) by (simp add: execute_def Let_def)
qed

text \<open>
  C19: one large key ends the server. On an empty database, the insertion of a field
  under a key of \<open>2 ^ 63\<close> or more is answered; the next scan without a field list meets
  that record, and the uncaught exception of \<open>std::stoll\<close> ends the program without the
  report.
\<close>

theorem server_large_key:
  assumes "kv_store L dbinv view todo" "dbinv db" "view db = Map.empty" "tcp_session env argv [p, q]"
    "opn (argv ! 1) = Some db" "kv_pairs pkg = []" "pkg_op p = 1" "kv_pairs p = [(f, v)]" "2 ^ 63 \<le> unat (pkg_key p)"
    "pkg_op q = 4" "kv_pairs q = []" "0 < pkg_scan_length q"
  shows "server_main L clk env opn pkg argv = throw Out_Of_Range"
proof -
  have "exec_all (execute L clk) [p, q] (new_executor db) = throw Out_Of_Range"
    using assms(2,3) by (intro exec_large_key [OF assms(1) _ _ assms(7-12)]) (simp_all add: new_executor_def)
  then show ?thesis by (rule server_main_tcp_fault [of env argv "[p, q]" opn db pkg, OF assms(4-6)])
qed

theorem server_large_key_witness:
  "let p = demo_package 1 (2 ^ 63) 0 [([48], [1])]; q = demo_package 4 0 10 []
   in server_main ol_ops (\<lambda>i. 0)
        (demo_env (frame (encode_package p) @ frame (encode_package q) @ frame (ascii ''ENDNOW'')) []) (\<lambda>_. Some [])
        (p\<lparr>kv_pairs := []\<rparr>) [ascii ''s'', ascii ''db'', ascii ''tcp'', ascii ''1337''] = throw Out_Of_Range"
proof -
  let ?p = "demo_package 1 (2 ^ 63) 0 [([48], [1])]" and ?q = "demo_package 4 0 10 []"
  have session: "tcp_session (demo_env (frame (encode_package ?p) @ frame (encode_package ?q) @ frame (ascii ''ENDNOW'')) [])
      [ascii ''s'', ascii ''db'', ascii ''tcp'', ascii ''1337''] [?p, ?q]"
    using demo_tcp_session [of "[?p, ?q]" "[]"]
    by (simp add: wf_package_def short_pair_def length_encode_package)
  show ?thesis
    unfolding Let_def
    by (rule server_large_key [OF ol.kv_store_axioms _ _ session]) (simp_all add: ol_inv_def)
qed

text \<open>
  With four arguments and another protocol than \<open>tcp\<close> the port is read through the null
  pointer behind the arguments, whatever the environment does.
\<close>

lemma server_missing_arguments:
  "length argv = 4 \<Longrightarrow> argv ! 2 \<noteq> ascii ''tcp'' \<Longrightarrow> server_main L clk env opn pkg argv = undef"
  by (simp add: server_main_def)

end
