(* ===== verification/Ycsb_Spec.thy ===== *)
theory Ycsb_Spec
  imports Server "HOL-Library.Sublist"
begin

text \<open>
  The contract of the YCSB server: a table of records, each a finite map from field names
  to values, and what an operation may answer and change there. The executor of
  \<^verbatim>\<open>apps/ycsbserver/ops.cc\<close> refines it on every store with LevelDB's contract, and so do
  whole sessions of the server.
\<close>

section \<open>The contract\<close>

type_synonym table = "u64 \<Rightarrow> bytes \<rightharpoonup> bytes"

text \<open>Insertion and update overwrite single fields, whose names get the prefix \<open>field\<close>.\<close>

definition put_fields :: "u64 \<Rightarrow> (bytes \<times> bytes) list \<Rightarrow> table \<Rightarrow> table" where
  "put_fields k kvs t = t(k := fold (\<lambda>fv r. r(ascii ''field'' @ fst fv \<mapsto> snd fv)) kvs (t k))"

definition ycsb_next :: "package \<Rightarrow> table \<Rightarrow> table" where
  "ycsb_next pkg t =
     (if pkg_op pkg \<in> {operation_code INSERT, operation_code UPDATE}
      then put_fields (pkg_key pkg) (kv_pairs pkg) t else t)"

text \<open>
  The size of the answer, as a number of 64 bits. A read names the fields it wants and gets
  those that exist, or names none and gets the record (the names then have the slash of the
  key encoding and stop at the first blank). A scan gets some of the wanted fields of
  records from its key on, none of them twice.
\<close>

definition asked_size :: "(bytes \<rightharpoonup> bytes) \<Rightarrow> (bytes \<times> bytes) list \<Rightarrow> nat" where
  "asked_size r kvs = sum_list (map (\<lambda>fv. case r (fst fv) of Some v \<Rightarrow> length (fst fv) + length v | None \<Rightarrow> 0) kvs)"

definition record_size :: "(bytes \<rightharpoonup> bytes) \<Rightarrow> nat" where
  "record_size r = (\<Sum>f \<in> dom r. Suc (length (takeWhile (\<lambda>b. \<not> is_space b) f)) + length (the (r f)))"

definition fields_size :: "table \<Rightarrow> (u64 \<times> bytes) set \<Rightarrow> nat" where
  "fields_size t X = (\<Sum>kf \<in> X. length (snd kf) + length (the (t (fst kf) (snd kf))))"

definition scan_set :: "package \<Rightarrow> table \<Rightarrow> (u64 \<times> bytes) set" where
  "scan_set pkg t = {(k, f). pkg_key pkg \<le> k \<and> t k f \<noteq> None \<and> take_field pkg f}"

definition ycsb_reply :: "package \<Rightarrow> table \<Rightarrow> u64 \<Rightarrow> bool" where
  "ycsb_reply pkg t n =
     (if pkg_op pkg \<in> {operation_code INSERT, operation_code UPDATE, operation_code DELETE} then n = 4
      else if pkg_op pkg = operation_code READ then
        n = of_nat (if kv_pairs pkg = [] then record_size (t (pkg_key pkg))
                    else asked_size (t (pkg_key pkg)) (kv_pairs pkg))
      else if pkg_op pkg = operation_code SCAN then
        \<exists>X \<subseteq> scan_set pkg t. finite X \<and> n = of_nat (fields_size t X)
      else n = 0)"

text \<open>A sequence of operations with its answers.\<close>

fun ycsb_runs :: "package list \<Rightarrow> table \<Rightarrow> u64 list \<Rightarrow> bool" where
  "ycsb_runs [] t ns \<longleftrightarrow> ns = []"
| "ycsb_runs (p # ps) t [] \<longleftrightarrow> False"
| "ycsb_runs (p # ps) t (n # ns) \<longleftrightarrow> ycsb_reply p t n \<and> ycsb_runs ps (ycsb_next p t) ns"

definition ycsb_final :: "package list \<Rightarrow> table \<Rightarrow> table" where
  "ycsb_final ps t = fold ycsb_next ps t"

section \<open>The store as a table\<close>

definition table_of :: "(bytes \<rightharpoonup> bytes) \<Rightarrow> table" where
  "table_of m = (\<lambda>k f. m (pack_key k f []))"

lemma table_of_put: "table_of (m(pack_key k f p \<mapsto> v)) = (table_of m)(k := (table_of m k)(p @ f \<mapsto> v))"
  by (auto simp: table_of_def fun_eq_iff)

lemma table_of_insert:
  "table_of (fold (\<lambda>fv m. m(pack_key k (fst fv) (ascii ''field'') \<mapsto> snd fv)) kvs m) = put_fields k kvs (table_of m)"
proof -
  have "table_of (fold (\<lambda>fv m. m(pack_key k (fst fv) (ascii ''field'') \<mapsto> snd fv)) kvs m)
      = (table_of m)(k := fold (\<lambda>fv r. r(ascii ''field'' @ fst fv \<mapsto> snd fv)) kvs (table_of m k))"
    by (induction kvs arbitrary: m) (simp_all add: table_of_put)
  then show ?thesis by (simp add: put_fields_def)
qed

section \<open>Sizes\<close>

lemma pairs_size_nat: "pairs_size vals = of_nat (sum_list (map (\<lambda>p. length (fst p) + length (snd p)) vals))"
proof -
  have "fold (\<lambda>pair n. n + of_nat (length (fst pair) + length (snd pair))) vals (of_nat m)
      = (of_nat (m + sum_list (map (\<lambda>p. length (fst p) + length (snd p)) vals)) :: u64)" for m
  proof (induction vals arbitrary: m)
    case (Cons p vals)
    from Cons [of "m + (length (fst p) + length (snd p))"] show ?case by (simp add: ac_simps)
  qed simp
  from this [of 0] show ?thesis by (simp add: pairs_size_def)
qed

lemma asked_size_eq:
  "sum_list (map (\<lambda>p. length (fst p) + length (snd p))
      (concat (map (\<lambda>p. case r (fst p) of Some v \<Rightarrow> [(fst p, v)] | None \<Rightarrow> []) kvs))) = asked_size r kvs"
  by (induction kvs) (auto simp: asked_size_def split: option.split)

section \<open>Entries\<close>

text \<open>An entry of a healthy store is a record key, a field and a value.\<close>

definition entry :: "u64 \<times> bytes \<times> bytes \<Rightarrow> bytes \<times> bytes" where
  "entry e = (pack_key (fst e) (fst (snd e)) [], snd (snd e))"

lemma entry_simp [simp]: "entry (k, f, v) = (pack_key k f [], v)"
  by (simp add: entry_def)

abbreviation entry_id :: "u64 \<times> bytes \<times> bytes \<Rightarrow> u64 \<times> bytes" where
  "entry_id e \<equiv> (fst e, fst (snd e))"

text \<open>The entries \<open>ts\<close> of a table, each once.\<close>

definition lists_table :: "(u64 \<times> bytes \<times> bytes) list \<Rightarrow> table \<Rightarrow> bool" where
  "lists_table ts t \<longleftrightarrow> distinct (map entry_id ts) \<and> (\<forall>k f v. (k, f, v) \<in> set ts \<longleftrightarrow> t k f = Some v)
     \<and> (\<forall>e \<in> set ts. unat (fst e) < 2 ^ 63)"

lemma healthy_entries_entry:
  "healthy_entries es \<Longrightarrow> \<exists>ts. es = map entry ts \<and> (\<forall>e \<in> set ts. unat (fst e) < 2 ^ 63)"
proof (induction es)
  case (Cons e es)
  then obtain k f ts where "fst e = pack_key k f []" "unat k < 2 ^ 63" "es = map entry ts"
    "\<forall>e \<in> set ts. unat (fst e) < 2 ^ 63" by (auto simp: healthy_entries_def simp del: pack_key_iff)
  then show ?case by (intro exI [of _ "(k, f, snd e) # ts"]) (simp add: entry_def prod_eq_iff)
qed simp

lemma read_list_entry:
  "read_list pkey (map entry ts) acc = ret (acc @ map (\<lambda>e. (47 # takeWhile (\<lambda>b. \<not> is_space b) (fst (snd e)), snd (snd e)))
     (filter (\<lambda>e. fst e = pkey) ts))"
  by (induction ts arbitrary: acc) (simp_all add: entry_def istream_pack_key)

definition scanned :: "package \<Rightarrow> u64 \<times> bytes \<times> bytes \<Rightarrow> bool" where
  "scanned pkg e \<longleftrightarrow> pkg_key pkg \<le> fst e \<and> take_field pkg (fst (snd e))"

lemma scan_list_entry:
  "scan_list pkg remain last_key (map entry ts) acc = ret vals \<Longrightarrow> \<forall>e \<in> set ts. unat (fst e) < 2 ^ 63 \<Longrightarrow>
   \<exists>us. subseq us ts \<and> (\<forall>e \<in> set us. scanned pkg e) \<and> vals = acc @ map snd us"
proof (induction ts arbitrary: remain last_key acc)
  case Nil
  then show ?case by simp
next
  case (Cons e ts)
  obtain k f v where e: "e = (k, f, v)" by (cases e) auto
  show ?case
  proof (cases "remain > 0 \<and> k \<ge> pkg_key pkg \<and> take_field pkg f")
    case True
    with Cons.prems e have "scan_list pkg (if last_key \<noteq> 0 \<and> last_key \<noteq> k then remain - 1 else remain) k
        (map entry ts) (acc @ [(f, v)]) = ret vals"
      by (simp add: unpack_pack)
    from Cons.IH [OF this] Cons.prems(2) obtain us where
      "subseq us ts" "\<forall>e \<in> set us. scanned pkg e" "vals = (acc @ [(f, v)]) @ map snd us" by auto
    with True e show ?thesis by (intro exI [of _ "e # us"]) (auto simp: scanned_def)
  next
    case False
    show ?thesis
    proof (cases "remain > 0")
      case True
      with False Cons.prems e obtain last' where "scan_list pkg remain last' (map entry ts) acc = ret vals"
        by (auto simp: unpack_pack split: if_splits)
      from Cons.IH [OF this] Cons.prems(2) obtain us where
        "subseq us ts" "\<forall>e \<in> set us. scanned pkg e" "vals = acc @ map snd us" by auto
      then show ?thesis by (intro exI [of _ us]) (auto intro: list_emb_Cons)
    qed (use Cons.prems in \<open>auto intro: exI [of _ "[]"]\<close>)
  qed
qed

lemma lists_table_record:
  assumes "lists_table ts t"
  shows "sum_list (map (\<lambda>p. length (fst p) + length (snd p))
      (map (\<lambda>e. (47 # takeWhile (\<lambda>b. \<not> is_space b) (fst (snd e)), snd (snd e))) (filter (\<lambda>e. fst e = k) ts)))
    = record_size (t k)"
proof -
  let ?us = "filter (\<lambda>e. fst e = k) ts" and ?f = "\<lambda>e. fst (snd e) :: bytes"
  let ?h = "\<lambda>f. Suc (length (takeWhile (\<lambda>b. \<not> is_space b) f)) + length (the (t k f))"
  have "distinct (map entry_id ?us)" using assms by (simp add: lists_table_def distinct_map_filter)
  then have "distinct (map ?f ?us)" by (auto simp: distinct_map inj_on_def)
  moreover have "set (map ?f ?us) = dom (t k)"
  proof -
    have "set (map ?f ?us) = {f. \<exists>v. (k, f, v) \<in> set ts}" by (auto simp: image_iff)
    also have "\<dots> = dom (t k)" using assms by (auto simp: lists_table_def)
    finally show ?thesis .
  qed
  ultimately have "record_size (t k) = sum_list (map ?h (map ?f ?us))"
    using sum_list_distinct_conv_sum_set [of "map ?f ?us" ?h] by (simp only: record_size_def)
  moreover have "map (\<lambda>p. length (fst p) + length (snd p)) (map (\<lambda>e. (47 # takeWhile (\<lambda>b. \<not> is_space b) (fst (snd e)), snd (snd e))) ?us)
      = map ?h (map ?f ?us)"
    using assms by (auto simp: lists_table_def)
  ultimately show ?thesis by (simp only:)
qed

lemma subseq_distinct: "subseq us ts \<Longrightarrow> distinct ts \<Longrightarrow> distinct us"
  by (induction rule: list_emb.induct) (auto dest: list_emb_set)

lemma lists_table_scan:
  assumes "lists_table ts t" "subseq us ts" "\<forall>e \<in> set us. scanned pkg e"
  shows "set (map entry_id us) \<subseteq> scan_set pkg t"
    "sum_list (map (\<lambda>p. length (fst p) + length (snd p)) (map snd us)) = fields_size t (set (map entry_id us))"
proof -
  have sub: "set us \<subseteq> set ts" using assms(2) by (auto dest: list_emb_set)
  with assms(1) have val: "\<forall>e \<in> set us. t (fst e) (fst (snd e)) = Some (snd (snd e))" by (auto simp: lists_table_def)
  with assms(3) show "set (map entry_id us) \<subseteq> scan_set pkg t" by (auto simp: scan_set_def scanned_def)
  have "distinct (map entry_id us)"
    using assms(1) subseq_map [OF assms(2), of entry_id] by (auto simp: lists_table_def intro: subseq_distinct)
  then have "fields_size t (set (map entry_id us))
      = sum_list (map (\<lambda>kf. length (snd kf) + length (the (t (fst kf) (snd kf)))) (map entry_id us))"
    unfolding fields_size_def by (rule sum_list_distinct_conv_sum_set [symmetric])
  also have "\<dots> = sum_list (map (\<lambda>p. length (fst p) + length (snd p)) (map snd us))"
    using val by (auto intro!: arg_cong [where f = sum_list])
  finally show "sum_list (map (\<lambda>p. length (fst p) + length (snd p)) (map snd us)) = fields_size t (set (map entry_id us))" ..
qed

section \<open>The executor refines the contract\<close>

context kv_store
begin

lemma store_lists_table:
  assumes "inv db" "healthy (abs db)"
  shows "\<exists>ts. todo (it_first L db) = map entry ts \<and> lists_table ts (table_of (abs db))"
proof -
  obtain ts where ts: "todo (it_first L db) = map entry ts" "\<forall>e \<in> set ts. unat (fst e) < 2 ^ 63"
    using healthy_entries_entry [OF healthy_first [OF assms]] by auto
  have "distinct (map (\<lambda>e. pack_key (fst e) (fst (snd e)) []) ts)"
    using first_distinct [OF assms(1)] by (simp add: ts(1) comp_def entry_def)
  then have "distinct (map entry_id ts)" by (simp add: distinct_map inj_on_def)
  moreover have "(k, f, v) \<in> set ts \<longleftrightarrow> table_of (abs db) k f = Some v" for k f v
  proof -
    have "(k, f, v) \<in> set ts \<longleftrightarrow> (pack_key k f [], v) \<in> set (map entry ts)" by (force simp: entry_def)
    then show ?thesis using first_entries [OF assms(1)] ts(1) by (simp add: table_of_def)
  qed
  ultimately show ?thesis using ts by (auto simp: lists_table_def)
qed

lemma exec_scan_refines:
  assumes "inv db" "healthy (abs db)" "exec_scan L pkg db = ret vals"
  shows "\<exists>X \<subseteq> scan_set pkg (table_of (abs db)). finite X \<and> pairs_size vals = of_nat (fields_size (table_of (abs db)) X)"
proof -
  obtain ts where ts: "todo (it_first L db) = map entry ts" "lists_table ts (table_of (abs db))"
    using store_lists_table [OF assms(1,2)] by auto
  have small: "\<forall>e \<in> set ts. unat (fst e) < 2 ^ 63" using ts(2) by (simp add: lists_table_def)
  have seek_ts: "todo (it_seek L db k) = map entry (filter (\<lambda>e. k \<le> fst (entry e)) ts)" for k
    using assms(1) ts(1) by (simp add: seek filter_map comp_def)
  have "\<exists>ts'. subseq ts' ts \<and> scan_list pkg (pkg_scan_length pkg) 0 (map entry ts') [] = ret vals"
    using assms(3) ts(1) seek_ts
    by (auto simp: exec_scan_def exec_scan_loop_list split: list.splits intro: subseq_filter_left)
  then obtain ts' where sub: "subseq ts' ts" and run: "scan_list pkg (pkg_scan_length pkg) 0 (map entry ts') [] = ret vals"
    by blast
  have "\<forall>e \<in> set ts'. unat (fst e) < 2 ^ 63" using small sub by (auto dest: list_emb_set)
  with scan_list_entry [OF run] obtain us where
    us: "subseq us ts'" "\<forall>e \<in> set us. scanned pkg e" "vals = map snd us" by auto
  from us(1) sub have "subseq us ts" by (rule subseq_order.trans)
  from lists_table_scan [OF ts(2) this us(2)] us(3) show ?thesis
    by (intro exI [of _ "set (map entry_id us)"]) (simp add: pairs_size_nat)
qed

lemma exec_read_refines:
  assumes "inv db" "healthy (abs db)" "exec_read L pkg db = ret vals"
  shows "pairs_size vals = of_nat (if kv_pairs pkg = [] then record_size (table_of (abs db) (pkg_key pkg))
                                   else asked_size (table_of (abs db) (pkg_key pkg)) (kv_pairs pkg))"
proof -
  obtain ts where ts: "todo (it_first L db) = map entry ts" "lists_table ts (table_of (abs db))"
    using store_lists_table [OF assms(1,2)] by auto
  show ?thesis
  proof (cases "kv_pairs pkg = []")
    case True
    with assms(3) ts(1) have "vals = map (\<lambda>e. (47 # takeWhile (\<lambda>b. \<not> is_space b) (fst (snd e)), snd (snd e)))
        (filter (\<lambda>e. fst e = pkg_key pkg) ts)"
      by (simp add: exec_read_def exec_read_all_list read_list_entry)
    with lists_table_record [OF ts(2)] True show ?thesis by (simp only: pairs_size_nat simp_thms if_True)
  next
    case False
    with assms(1,3) have "vals = concat (map (\<lambda>p. case table_of (abs db) (pkg_key pkg) (fst p) of
        Some v \<Rightarrow> [(fst p, v)] | None \<Rightarrow> []) (kv_pairs pkg))"
      by (simp add: exec_read_def exec_read_fields_abs table_of_def)
    with asked_size_eq [of "table_of (abs db) (pkg_key pkg)" "kv_pairs pkg"] False show ?thesis
      by (simp only: pairs_size_nat if_False)
  qed
qed

lemma execute_refines:
  assumes "inv (ex_db x)" "healthy (abs (ex_db x))" "execute L clk pkg x = ret (n, x')"
  shows "ycsb_reply pkg (table_of (abs (ex_db x))) n \<and> table_of (abs (ex_db x')) = ycsb_next pkg (table_of (abs (ex_db x)))"
proof -
  have ins: "table_of (abs (exec_insert L pkg (ex_db x))) = put_fields (pkg_key pkg) (kv_pairs pkg) (table_of (abs (ex_db x)))"
    using exec_insert_fold [OF assms(1), of pkg] by (simp add: table_of_insert)
  consider "pkg_op pkg \<in> {1, 5}" | "pkg_op pkg = 3" | "pkg_op pkg = 4" | "pkg_op pkg \<notin> {1, 3, 4, 5}" by blast
  then show ?thesis
  proof cases
    case 1
    then have "\<exists>y. execute L clk pkg x = ret (4, y) \<and> ex_db y = exec_insert L pkg (ex_db x)"
      by (auto simp: execute_def Let_def)
    with assms(3) have "n = 4" "ex_db x' = exec_insert L pkg (ex_db x)" by auto
    moreover have "ycsb_reply pkg (table_of (abs (ex_db x))) 4"
      using 1 by (elim insertE emptyE) (simp_all add: ycsb_reply_def)
    moreover have "ycsb_next pkg t = put_fields (pkg_key pkg) (kv_pairs pkg) t" for t
      using 1 by (auto simp: ycsb_next_def)
    ultimately show ?thesis by (simp only: ins)
  next
    case 2
    with assms(3) obtain vals where vals: "exec_read L pkg (ex_db x) = ret vals" "n = pairs_size vals" "ex_db x' = ex_db x"
      by (auto simp: execute_def Let_def rbind_eq_ret)
    with exec_read_refines [OF assms(1,2) vals(1)] 2 show ?thesis by (simp add: ycsb_reply_def ycsb_next_def)
  next
    case 3
    with assms(3) obtain vals where vals: "exec_scan L pkg (ex_db x) = ret vals" "n = pairs_size vals" "ex_db x' = ex_db x"
      by (auto simp: execute_def Let_def rbind_eq_ret)
    with exec_scan_refines [OF assms(1,2) vals(1)] 3 show ?thesis by (simp add: ycsb_reply_def ycsb_next_def)
  next
    case 4
    with assms(3) have "n = (if pkg_op pkg = 2 then 4 else 0)" "x' = x" by (auto simp: execute_def Let_def split: if_splits)
    with 4 show ?thesis by (simp add: ycsb_reply_def ycsb_next_def)
  qed
qed

lemma exec_all_refines:
  "inv (ex_db x) \<Longrightarrow> healthy (abs (ex_db x)) \<Longrightarrow> list_all (\<lambda>p. unat (pkg_key p) < 2 ^ 63) ps \<Longrightarrow>
   exec_all (execute L clk) ps x = ret (ns, x') \<Longrightarrow>
   ycsb_runs ps (table_of (abs (ex_db x))) ns \<and> table_of (abs (ex_db x')) = ycsb_final ps (table_of (abs (ex_db x)))"
proof (induction ps arbitrary: x ns)
  case Nil
  then show ?case by (simp add: ycsb_final_def)
next
  case (Cons p ps)
  from Cons.prems(4) obtain n x1 ms where one: "execute L clk p x = ret (n, x1)"
    and rest: "exec_all (execute L clk) ps x1 = ret (ms, x')" and ns: "ns = n # ms"
    by (auto simp: rbind_eq_ret)
  have "inv (ex_db x1)" "healthy (abs (ex_db x1))"
    using execute_returns [OF Cons.prems(1,2), of p clk] Cons.prems(3) one by auto
  from Cons.IH [OF this _ rest] Cons.prems(3) execute_refines [OF Cons.prems(1,2) one] ns
  show ?case by (simp add: ycsb_final_def)
qed

end

section \<open>Properties\<close>

text \<open>
  C2: the executor refines the table. On every store with LevelDB's contract whose keys are
  packed, each operation with a key below \<open>2 ^ 63\<close> returns, answers what the contract allows
  for the table the store stands for, and leaves a store that stands for the contract's
  next table: insertion and update overwrite the fields they name, everything else
  changes nothing; a read answers the size of what it asks for, a scan the size of some wanted
  fields of records from its key on, none twice.
\<close>

theorem execute_refines_table:
  assumes "kv_store L dbinv view todo" "dbinv (ex_db x)" "healthy (view (ex_db x))" "unat (pkg_key pkg) < 2 ^ 63"
  shows "\<exists>n x'. execute L clk pkg x = ret (n, x') \<and> dbinv (ex_db x') \<and> healthy (view (ex_db x'))
     \<and> ycsb_reply pkg (table_of (view (ex_db x))) n
     \<and> table_of (view (ex_db x')) = ycsb_next pkg (table_of (view (ex_db x)))"
  using kv_store.execute_returns [OF assms, of clk] kv_store.execute_refines [OF assms(1-3), of clk pkg] by blast

theorem execute_refines_table_witness:
  "\<exists>n x'. execute ol_ops (\<lambda>i. of_nat i) (demo_package 1 7 1 [([48], [97, 98])]) (new_executor []) = ret (n, x')
     \<and> n = 4 \<and> table_of (map_of (ex_db x')) 7 (ascii ''field0'') = Some [97, 98]"
proof -
  have "\<exists>n x'. execute ol_ops (\<lambda>i. of_nat i) (demo_package 1 7 1 [([48], [97, 98])]) (new_executor []) = ret (n, x')
     \<and> ol_inv (ex_db x') \<and> healthy (map_of (ex_db x'))
     \<and> ycsb_reply (demo_package 1 7 1 [([48], [97, 98])]) (table_of (map_of (ex_db (new_executor [])))) n
     \<and> table_of (map_of (ex_db x')) = ycsb_next (demo_package 1 7 1 [([48], [97, 98])]) (table_of (map_of (ex_db (new_executor []))))"
    by (rule execute_refines_table [OF ol.kv_store_axioms])
      (simp_all add: new_executor_def ol_inv_def healthy_def)
  then show ?thesis
    by (auto simp: ycsb_reply_def ycsb_next_def put_fields_def ascii_def)
qed

text \<open>
  C1: so does the whole server. In a TCP session with well-formed packages, and in a UDP run
  over a workload file with such packages, \<open>main\<close> on a store that stands for the table \<open>t\<close>
  ends with code 0 and has sent, for each package in order, the response of a size that the
  contract allows for the table left by the packages before it, and closes its sockets; the
  store it leaves stands for the contract's final table.
\<close>

theorem server_refines_table:
  assumes "kv_store L dbinv view todo" "dbinv db" "healthy (view db)" "kv_pairs pkg = []" "0 < length ps"
    "length ps < 2 ^ 64" "list_all (\<lambda>p. unat (pkg_key p) < 2 ^ 63) ps" "opn (argv ! 1) = Some db"
  shows "\<exists>ns x'. ycsb_runs ps (table_of (view db)) ns
     \<and> exec_all (execute L clk) ps (new_executor db) = ret (ns, x')
     \<and> table_of (view (ex_db x')) = ycsb_final ps (table_of (view db))
     \<and> (tcp_session env argv ps \<longrightarrow> (\<exists>rep. session_report env ps x' rep \<and> server_main L clk env opn pkg argv
          = ret (0, Some rep, out_log (env_out env) @ answers (\<lambda>_. []) ps ns, [env_conn env, env_sock env], Some (ex_db x'))))
     \<and> (udp_session env argv w ps \<longrightarrow> (\<exists>rep. session_report env ps x' rep \<and> server_main L clk env opn pkg argv
          = ret (0, Some rep, out_log (env_out env) @ answers (udp_echo w) ps ns, [env_sock env], Some (ex_db x'))))"
proof -
  have db: "dbinv (ex_db (new_executor db))" "healthy (view (ex_db (new_executor db)))"
    using assms(2,3) by (simp_all add: new_executor_def)
  obtain ns x' where run: "exec_all (execute L clk) ps (new_executor db) = ret (ns, x')"
    using exec_all_total [OF assms(1) db assms(7), of clk] by auto
  have "ex_db (new_executor db) = db" by (simp add: new_executor_def)
  with kv_store.exec_all_refines [OF assms(1) db assms(7) run]
    server_main_tcp [of env argv ps opn db pkg L clk ns x', OF _ assms(8,4-6) run]
    server_main_udp [of env argv w ps opn db pkg L clk ns x', OF _ assms(8,4-6) run] run
  show ?thesis by auto
qed

theorem server_refines_table_witness:
  "let ps = [demo_package 1 7 0 [([48], [97, 98])], demo_package 3 7 0 [(ascii ''field0'', [])]];
       env = demo_env (concat (map (\<lambda>p. frame (encode_package p)) ps) @ frame (ascii ''ENDNOW'')) []
   in \<exists>rep db. server_main ol_ops (\<lambda>i. of_nat i) env (\<lambda>_. Some []) (demo_package 0 0 0 [])
          [ascii ''s'', ascii ''db'', ascii ''tcp'', ascii ''1337'']
        = ret (0, Some rep, answers (\<lambda>_. []) ps [4, 8], [4, 3], Some db)"
proof -
  define ps where "ps = [demo_package 1 7 0 [([48], [97, 98])], demo_package 3 7 0 [(ascii ''field0'', [])]]"
  define env where "env = demo_env (concat (map (\<lambda>p. frame (encode_package p)) ps) @ frame (ascii ''ENDNOW'')) []"
  let ?argv = "[ascii ''s'', ascii ''db'', ascii ''tcp'', ascii ''1337'']"
  have session: "tcp_session env ?argv ps"
    unfolding env_def by (rule demo_tcp_session) (simp add: ps_def wf_package_def length_encode_package ascii_def short_pair_def)
  have out: "out_log (env_out env) = []" "env_conn env = 4" "env_sock env = 3" by (simp_all add: env_def demo_env_def)
  have ok: "ol_inv []" "healthy (map_of [])" "0 < length ps" "length ps < 2 ^ 64"
    "list_all (\<lambda>p. unat (pkg_key p) < 2 ^ 63) ps" by (simp_all add: ol_inv_def healthy_def ps_def)
  from server_refines_table [OF ol.kv_store_axioms ok(1,2) _ ok(3-5), of "demo_package 0 0 0 []" "\<lambda>_. Some []" ?argv "\<lambda>i. of_nat i" env "[]"]
    session out obtain ns rep db where ns: "ycsb_runs ps (table_of Map.empty) ns"
    and run: "server_main ol_ops (\<lambda>i. of_nat i) env (\<lambda>_. Some []) (demo_package 0 0 0 []) ?argv
      = ret (0, Some rep, answers (\<lambda>_. []) ps ns, [4, 3], Some db)"
    by auto
  from ns have "ns = [4, 8]"
    by (cases ns; cases "tl ns"; cases "tl (tl ns)")
      (auto simp: ps_def ycsb_reply_def ycsb_next_def put_fields_def asked_size_def ascii_def)
  with run show ?thesis unfolding Let_def env_def ps_def by blast
qed

end
