(* ===== verification/Server_Robust.thy ===== *)
theory Server_Robust
  imports Server
begin

text \<open>
  What the YCSB server of \<^verbatim>\<open>apps/ycsbserver\<close> does whatever it is sent. The abstract class
  \<open>Executor\<close> of \<^verbatim>\<open>ops.h\<close> is the locale \<open>executor\<close>; a handler that keeps its memory safe
  for any input is the locale \<open>op_safe\<close>, one that delivers a bounded number of packages
  \<open>op_countdown\<close>. The main loop is verified against the three, \<open>LevelDBExecutor\<close> and the
  two handlers meet them: a TCP session has no undefined behaviour but the division by
  zero of its report, a UDP run always ends.
\<close>

section \<open>The interface of the executor\<close>

text \<open>
  \<open>exec\<close> and \<open>reset_st\<close> are the virtual methods, \<open>xinv\<close> the representation invariant. The
  law: from a good state every operation, whatever its package, returns in a good state or
  throws an exception.
\<close>

locale executor =
  fixes exec :: "package \<Rightarrow> 'x \<Rightarrow> (u64 \<times> 'x) result"
    and reset_st :: "'x \<Rightarrow> 'x"
    and xinv :: "'x \<Rightarrow> bool"
  assumes exec_safe: "xinv x \<Longrightarrow> (\<exists>n x'. exec p x = ret (n, x') \<and> xinv x') \<or> (\<exists>e. exec p x = throw e)"
    and reset_xinv: "xinv x \<Longrightarrow> xinv (reset_st x)"
begin

lemma exec_ret: "xinv x \<Longrightarrow> exec p x = ret (n, x') \<Longrightarrow> xinv x'"
  using exec_safe [of x p] by auto

lemma exec_defined: "xinv x \<Longrightarrow> exec p x \<noteq> never" "xinv x \<Longrightarrow> exec p x \<noteq> undef"
  using exec_safe [of x p] by auto

end

text \<open>Every key in the database was written by the server, with any 64-bit record key.\<close>

definition packed :: "(bytes \<rightharpoonup> bytes) \<Rightarrow> bool" where
  "packed m \<longleftrightarrow> (\<forall>key \<in> dom m. \<exists>k f. key = pack_key k f [])"

definition packed_entries :: "(bytes \<times> bytes) list \<Rightarrow> bool" where
  "packed_entries es \<longleftrightarrow> (\<forall>e \<in> set es. \<exists>k f. fst e = pack_key k f [])"

lemma healthy_packed: "healthy m \<Longrightarrow> packed m"
  unfolding healthy_def packed_def by blast

lemma packed_insert:
  "packed m \<Longrightarrow> packed (fold (\<lambda>pair m. m(pack_key k (fst pair) p \<mapsto> snd pair)) ps m)"
proof (induction ps arbitrary: m)
  case (Cons pair ps)
  have "pack_key k (fst pair) p = pack_key k (p @ fst pair) []" by simp
  with Cons.prems have "packed (m(pack_key k (fst pair) p \<mapsto> snd pair))"
    unfolding packed_def by (auto simp del: pack_key_iff)
  from Cons.IH [OF this] show ?case by (simp only: fold_simps)
qed simp

lemma read_list_packed: "packed_entries es \<Longrightarrow> \<exists>vals. read_list pkey es acc = ret vals"
  by (induction es arbitrary: acc) (auto simp: packed_entries_def istream_pack_key simp del: pack_key_iff)

text \<open>The one exception a scan of such a database may throw.\<close>

definition returns_or_throws :: "'a result \<Rightarrow> bool" where
  "returns_or_throws r \<longleftrightarrow> (\<exists>x. r = ret x) \<or> r = throw Out_Of_Range"

lemma scan_list_packed: "packed_entries es \<Longrightarrow> returns_or_throws (scan_list pkg remain last_key es acc)"
proof (induction es arbitrary: acc remain last_key)
  case Nil
  then show ?case by (simp add: returns_or_throws_def)
next
  case (Cons e es)
  then obtain k f where e: "fst e = pack_key k f []" and es: "packed_entries es"
    by (auto simp: packed_entries_def)
  show ?case
  proof (cases "0 < remain \<and> unat k < 2 ^ 63")
    case True
    with e Cons.IH [OF es] show ?thesis by (simp add: unpack_pack)
  next
    case False
    with e show ?thesis by (auto simp: unpack_pack returns_or_throws_def)
  qed
qed

context kv_store
begin

lemma packed_first: "inv db \<Longrightarrow> packed (abs db) \<Longrightarrow> packed_entries (todo (it_first L db))"
  using first_keys [of db] unfolding packed_def packed_entries_def by blast

lemma packed_seek: "inv db \<Longrightarrow> packed (abs db) \<Longrightarrow> packed_entries (todo (it_seek L db k))"
  using packed_first by (auto simp: seek packed_entries_def)

lemma exec_read_packed: "inv db \<Longrightarrow> packed (abs db) \<Longrightarrow> \<exists>vals. exec_read L pkg db = ret vals"
  using read_list_packed [OF packed_first] by (simp add: exec_read_def exec_read_all_list)

lemma exec_scan_packed:
  "inv db \<Longrightarrow> packed (abs db) \<Longrightarrow> returns_or_throws (exec_scan L pkg db)"
  using scan_list_packed [OF packed_first] scan_list_packed [OF packed_seek]
  by (auto simp: exec_scan_def exec_scan_loop_list split: list.split)

lemma execute_packed:
  assumes "inv (ex_db x)" "packed (abs (ex_db x))"
  shows "(\<exists>n x'. execute L clk pkg x = ret (n, x') \<and> inv (ex_db x') \<and> packed (abs (ex_db x')))
    \<or> execute L clk pkg x = throw Out_Of_Range"
  using exec_read_packed [OF assms, of pkg] exec_scan_packed [OF assms, of pkg]
    exec_insert_fold [OF assms(1), of pkg] packed_insert [OF assms(2)] assms
  by (auto simp: execute_def Let_def returns_or_throws_def)

end

text \<open>On any store with LevelDB's contract \<open>LevelDBExecutor\<close> is an executor.\<close>

sublocale kv_store \<subseteq> ldb: executor "execute L clk" reset_stats "\<lambda>x. inv (ex_db x) \<and> packed (abs (ex_db x))"
proof
  fix x :: "'db ldb_executor" and p
  assume "inv (ex_db x) \<and> packed (abs (ex_db x))"
  then show "(\<exists>n x'. execute L clk p x = ret (n, x') \<and> inv (ex_db x') \<and> packed (abs (ex_db x')))
    \<or> (\<exists>e. execute L clk p x = throw e)"
    using execute_packed [of x clk p] by blast
qed (simp add: reset_stats_def)

context kv_store
begin

lemmas execute_executor = ldb.executor_axioms

end

interpretation ol_executor: executor "execute ol_ops clk" reset_stats "\<lambda>x. ol_inv (ex_db x) \<and> packed (map_of (ex_db x))"
  by (rule ol.ldb.executor_axioms)

section \<open>A handler that is safe for any input\<close>

locale op_safe = op_handler +
  assumes recv_safe: "inv h \<Longrightarrow> recv h pkg = never \<or> (\<exists>r p h'. recv h pkg = ret (r, p, h'))"
begin

lemma server_body_safe:
  assumes body: "server_body loop recv send exec pkg c log h x = Some y"
    and ex: "executor exec reset_st xinv" and h: "inv h" "xinv x"
    and IH: "\<And>c log h x y. inv h \<Longrightarrow> xinv x \<Longrightarrow> loop recv send exec pkg c log h x = Some y \<Longrightarrow> y \<noteq> Inl Undefined"
  shows "y \<noteq> Inl Undefined"
proof -
  obtain r p h1 where rc: "recv h pkg = ret (r, p, h1)"
    using body recv_safe [OF h(1), of pkg] by (auto simp: server_body_def)
  have h1: "inv h1" using recv_inv [OF h(1) rc] .
  show ?thesis
  proof (cases r)
    case READY
    show ?thesis
    proof (cases "\<exists>e. exec p x = throw e")
      case True
      with body rc READY show ?thesis by (auto simp: server_body_def Let_def)
    next
      case False
      then obtain n x1 where x1: "exec p x = ret (n, x1)" "xinv x1"
        using executor.exec_safe [OF ex h(2), of p] by blast
      obtain ok h2 where h2: "respond send n h1 = (ok, h2)" by fastforce
      have "inv h2" using respond_inv [OF h1, of n] h2 by simp
      from IH [OF this x1(2)] body rc READY x1 h2 show ?thesis
        by (cases ok) (auto simp: server_body_def Let_def)
    qed
  qed (use body rc IH [OF h1 h(2)] in \<open>auto simp: server_body_def\<close>)
qed

lemma server_loop_safe:
  fixes x :: 'x
  assumes "executor exec reset_st xinv" "inv h" "xinv x"
  shows "server_loop recv send exec pkg c log h x \<noteq> undef"
proof
  let ?P = "\<lambda>recv' send' exec' (pkg :: package) c (log :: (u8 \<times> u64) list) h x
       (y :: fault + u64 \<times> (u8 \<times> u64) list \<times> 'a \<times> 'x).
     recv' = recv \<longrightarrow> send' = send \<longrightarrow> exec' = exec \<longrightarrow> inv h \<longrightarrow> xinv x \<longrightarrow> y \<noteq> Inl Undefined"
  assume undef: "server_loop recv send exec pkg c log h x = undef"
  have "?P recv send exec pkg c log h x (Inl Undefined)"
    by (rule server_loop_induct [OF undef, where P = ?P], intro impI)
      (rule server_body_safe [OF _ assms(1)], simp, assumption, assumption, blast)
  with assms(2,3) show False by blast
qed

end

section \<open>A handler with a bounded number of packages\<close>

locale op_countdown = op_handler +
  fixes left :: "'a \<Rightarrow> nat"
  assumes recv_returns: "recv h pkg \<noteq> never"
    and recv_left: "recv h pkg = ret (r, p, h') \<Longrightarrow> r \<noteq> STOP \<Longrightarrow> left h' < left h"
    and send_left: "left (snd (send h d)) = left h"
begin

lemma respond_loop_left: "left (snd (respond_loop send n h)) = left h"
proof (induction n arbitrary: h rule: less_induct)
  case (less n)
  obtain r h' where s: "send h (replicate (if n < 1024 then n else 1024) 0) = (r, h')" by fastforce
  then have "left h' = left h" using send_left [of h "replicate (if n < 1024 then n else 1024) 0"] by simp
  with less.IH [of "n - (if n < 1024 then n else 1024)" h'] s show ?case
    by (cases "0 < n") (auto simp: respond_loop.simps [of send n h] respond_loop.simps [of send 0 h] Let_def)
qed

lemma respond_left: "respond send n h = (ok, h') \<Longrightarrow> left h' = left h"
  using send_left [of h "be_bytes 8 (unat n)"] respond_loop_left [of "unat n" "snd (send h (be_bytes 8 (unat n)))"]
  by (auto simp: respond_def split: prod.splits if_splits)

lemma server_loop_ends:
  assumes "executor exec reset_st xinv" "xinv x"
  shows "server_loop recv send exec pkg c log h x \<noteq> never
     \<and> (\<forall>c' log' h' x'. server_loop recv send exec pkg c log h x = ret (c', log', h', x') \<longrightarrow>
          (\<exists>n \<le> left h. c' = c + of_nat n))"
  using assms(2)
proof (induction "left h" arbitrary: h c log x rule: less_induct)
  case less
  let ?ends = "\<lambda>r. r \<noteq> never \<and> (\<forall>c' log' h' x'. r = ret (c', log', h', x') \<longrightarrow> (\<exists>n \<le> left h. c' = c + of_nat n))"
  show ?case
  proof (cases "\<exists>t. recv h pkg = Some (Inl t)")
    case True
    then show ?thesis by (subst (1 2) server_loop.simps) auto
  next
    case False
    then obtain r p h1 where rc: "recv h pkg = ret (r, p, h1)"
      using recv_returns [of h pkg] by (metis not_None_eq obj_sumE prod_cases3)
    show ?thesis
    proof (cases r)
      case STOP
      with rc show ?thesis by (subst (1 2) server_loop.simps) (auto intro: exI [of _ 0])
    next
      case INCOMPLETE
      with rc recv_left [OF rc] have lt: "left h1 < left h" by simp
      have eq: "server_loop recv send exec pkg c log h x = server_loop recv send exec pkg c log h1 x"
        using rc INCOMPLETE by (subst server_loop.simps) simp
      from less.hyps [OF lt less.prems, of c log] lt show ?thesis
        unfolding eq by (meson less_imp_le order_trans)
    next
      case READY
      with rc recv_left [OF rc] have lt: "left h1 < left h" by simp
      show ?thesis
      proof (cases "\<exists>e. exec p x = throw e")
        case True
        with rc READY show ?thesis by (subst (1 2) server_loop.simps) (auto simp: Let_def)
      next
        case False
        then obtain n x1 where x1: "exec p x = ret (n, x1)" "xinv x1"
          using executor.exec_safe [OF assms(1) less.prems, of p] by blast
        obtain ok h2 where h2: "respond send n h1 = (ok, h2)" by fastforce
        let ?log = "if c mod 100 = 0 then log @ [(pkg_op p, c)] else log"
        show ?thesis
        proof (cases ok)
          case False
          with rc READY x1 h2 show ?thesis
            by (subst (1 2) server_loop.simps) (auto simp: Let_def intro: exI [of _ 0])
        next
          case True
          then have eq: "server_loop recv send exec pkg c log h x = server_loop recv send exec pkg (c + 1) ?log h2 x1"
            using rc READY x1 h2 by (subst server_loop.simps) (simp add: Let_def)
          have lt2: "left h2 < left h" using lt respond_left [OF h2] by simp
          have one: "c + 1 + of_nat n = c + (of_nat (Suc n) :: u64)" for n by (simp add: add.assoc)
          from less.hyps [OF lt2 x1(2), of "c + 1" ?log] lt2 show ?thesis
            unfolding eq one by (meson Suc_leI le_less_trans)
        qed
      qed
    qed
  qed
qed

end

section \<open>From the reset of the statistics to the report\<close>

text \<open>Clocks that show normalised times of this millennium, in case they can be read.\<close>

definition clocks_sane :: "server_env \<Rightarrow> bool" where
  "clocks_sane env \<longleftrightarrow> sane_timespec (env_time_begin env) \<and> sane_timespec (env_time_end env)
     \<and> (case env_usage_begin env of None \<Rightarrow> True | Some (u, s) \<Rightarrow> sane_timeval u \<and> sane_timeval s)
     \<and> (case env_usage_end env of None \<Rightarrow> True | Some (u, s) \<Rightarrow> sane_timeval u \<and> sane_timeval s)"

lemma server_summary_undef:
  assumes "clocks_sane env" "env_usage_begin env = Some rb" "env_usage_end env = Some re"
    "server_summary rb re (env_time_begin env) (env_time_end env) log c x = undef"
  shows "c = 0"
  using assms server_summary_ret [of rb re "env_time_begin env" "env_time_end env" c log x]
  by (auto simp: clocks_sane_def split: prod.splits)

lemma rbind_eq_never: "rbind m f = never \<longleftrightarrow> m = never \<or> (\<exists>x. m = ret x \<and> f x = never)"
  by (cases m) (auto simp: rbind_def split: sum.splits)

lemma timespec_diff_returns: "timespec_diff a b \<noteq> never"
  by (auto simp: timespec_diff_def checked64_def rbind_eq_never)

lemma timeval_diff_returns: "timeval_diff a b \<noteq> never"
  by (auto simp: timeval_diff_def checked64_def rbind_eq_never)

lemma server_summary_returns: "server_summary rb re tb te log c x \<noteq> never"
  by (auto simp: server_summary_def rbind_eq_never Let_def timespec_diff_returns timeval_diff_returns)

lemma unat_of_nat_le: "unat (of_nat n :: u64) \<le> n"
  by (simp add: unat_of_nat)

lemma server_summary_ops: "server_summary rb re tb te log c x = ret rep \<Longrightarrow> rep_num_ops rep = c"
  by (auto simp: server_summary_def rbind_eq_ret Let_def split: if_splits)

lemma server_run_code:
  assumes "server_run recv send reset L clk env pkg h x = ret (code, rep, h', x')"
  shows "code = 0 \<and> rep \<noteq> None \<or> code = 1 \<and> rep = None"
  using assms by (auto simp: server_run_def rbind_eq_ret Let_def split: option.splits)

context op_safe
begin

lemma server_run_undef:
  assumes "executor (execute L clk) reset_stats xinv" "inv h" "xinv x" "clocks_sane env"
    "server_run recv send reset L clk env pkg h x = undef"
  shows "\<exists>log h' x'. server_loop recv send (execute L clk) pkg 0 [] (reset h) (reset_stats x) = ret (0, log, h', x')"
proof -
  have "server_loop recv send (execute L clk) pkg 0 [] (reset h) (reset_stats x) \<noteq> undef"
    using server_loop_safe [OF assms(1) reset_inv [OF assms(2)] executor.reset_xinv [OF assms(1,3)]] .
  with assms(5) obtain rb re c log h' x' where "env_usage_begin env = Some rb" "env_usage_end env = Some re"
    "server_loop recv send (execute L clk) pkg 0 [] (reset h) (reset_stats x) = ret (c, log, h', x')"
    "server_summary rb re (env_time_begin env) (env_time_end env) log c x' = undef"
    by (auto simp: server_run_def rbind_eq_fault Let_def split: option.splits)
  with server_summary_undef [OF assms(4)] show ?thesis by blast
qed

end

context op_countdown
begin

lemma server_run_ends:
  assumes "executor (execute L clk) reset_stats xinv" "xinv x"
  shows "server_run recv send reset L clk env pkg h x \<noteq> never
    \<and> (server_run recv send reset L clk env pkg h x = ret (code, Some rep, h', x') \<longrightarrow>
         unat (rep_num_ops rep) \<le> left (reset h))"
proof -
  let ?loop = "server_loop recv send (execute L clk) pkg 0 [] (reset h) (reset_stats x)"
  note ends = server_loop_ends [OF assms(1) executor.reset_xinv [OF assms], of pkg 0 "[]" "reset h"]
  have "server_run recv send reset L clk env pkg h x \<noteq> never"
  proof
    assume "server_run recv send reset L clk env pkg h x = never"
    then have "?loop = never"
      by (auto simp: server_run_def Let_def rbind_eq_never server_summary_returns simp del: not_None_eq split: option.splits)
    with ends show False by blast
  qed
  moreover have "unat (rep_num_ops rep) \<le> left (reset h)"
    if run: "server_run recv send reset L clk env pkg h x = ret (code, Some rep, h', x')"
  proof -
    from run obtain c log h1 x1 where "?loop = ret (c, log, h1, x1)" "rep_num_ops rep = c"
      using server_summary_ops by (fastforce simp: server_run_def rbind_eq_ret Let_def split: option.splits)
    with ends obtain n where "n \<le> left (reset h)" "rep_num_ops rep = of_nat n" by auto
    then show ?thesis by (metis order_trans unat_of_nat_le)
  qed
  ultimately show ?thesis by blast
qed

end

section \<open>The two handlers\<close>

interpretation tcp_any: op_safe tcp_receive tcp_send tcp_reset
    "\<lambda>h. (tcp_inv h \<and> tcp_destroy h = fds) \<and> no_error (tcp_in h)" tcp_sent
proof
  fix h :: tcp and d
  show "(tcp_inv h \<and> tcp_destroy h = fds) \<and> no_error (tcp_in h) \<Longrightarrow>
      (tcp_inv (snd (tcp_send h d)) \<and> tcp_destroy (snd (tcp_send h d)) = fds) \<and> no_error (tcp_in (snd (tcp_send h d)))"
    using tcp_fds.send_inv [of h fds d] by (simp add: tcp_send_def split: prod.splits)
  show "(tcp_inv h \<and> tcp_destroy h = fds) \<and> no_error (tcp_in h) \<Longrightarrow>
      (tcp_inv (tcp_reset h) \<and> tcp_destroy (tcp_reset h) = fds) \<and> no_error (tcp_in (tcp_reset h))"
    by (simp add: tcp_reset_def)
next
  fix h pkg r pkg' h'
  assume h: "(tcp_inv h \<and> tcp_destroy h = fds) \<and> no_error (tcp_in h)" and run: "tcp_receive h pkg = ret (r, pkg', h')"
  show "(tcp_inv h' \<and> tcp_destroy h' = fds) \<and> no_error (tcp_in h')"
    using tcp_fds.recv_inv [OF _ run, of fds] tcp_receive_safe [of h pkg] h run by auto
next
  fix h pkg
  assume "(tcp_inv h \<and> tcp_destroy h = fds) \<and> no_error (tcp_in h)"
  then show "tcp_receive h pkg = never \<or> (\<exists>r p h'. tcp_receive h pkg = ret (r, p, h'))"
    using tcp_receive_safe [of h pkg] by blast
qed (use tcp_op.send_log tcp_op.reset_log tcp_op.recv_log tcp_op.recv_ready in blast)+

lemma from_bytes_kvs_returns: "from_bytes_kvs buf sz n pos kvs \<noteq> never"
  by (induction buf sz n pos kvs rule: from_bytes_kvs.induct) (auto simp: Let_def)

lemma udp_receive_returns: "udp_receive h pkg \<noteq> never"
  by (auto simp: udp_receive_def from_bytes_def rbind_eq_never from_bytes_kvs_returns Let_def case_prod_unfold
      simp del: not_None_eq)

text \<open>What a UDP handler still has to deliver.\<close>

definition udp_left :: "udp \<Rightarrow> nat" where
  "udp_left h = unat (udp_total_ops h) - unat (udp_ops h)"

lemma udp_receive_left:
  assumes "udp_receive h pkg = ret (r, p, h')" "r \<noteq> STOP"
  shows "udp_left h' < udp_left h"
proof (cases "udp_ops h < udp_total_ops h")
  case True
  from udp_receive_READY [OF assms(1) True] have "udp_ops h' = udp_ops h + 1" "udp_total_ops h' = udp_total_ops h" by auto
  moreover have "unat (udp_ops h + 1) = Suc (unat (udp_ops h))" using True by (rule unat_succ_u64)
  ultimately show ?thesis using True by (simp add: udp_left_def word_less_nat_alt)
next
  case False
  with assms udp_receive_STOP [OF False, of pkg] show ?thesis by simp
qed

interpretation udp_count: op_countdown udp_receive udp_send udp_reset udp_inv udp_sent udp_left
proof
  show "udp_left (snd (udp_send h d)) = udp_left h" for h d by (simp add: udp_left_def)
qed (fact udp_receive_returns udp_receive_left)+

lemma wl_load_returns: "no_error es \<Longrightarrow> Read_Data [] \<in> set es \<Longrightarrow> wl_load buf sz es \<noteq> never"
proof (induction buf sz es rule: wl_load.induct)
  case (1 buf sz es)
  obtain e es1 where es: "es = e # es1" using "1.prems"(2) by (cases es) auto
  then obtain bs where e: "e = Read_Data bs" using "1.prems"(1) by (cases e) (auto simp: no_error_def)
  let ?n = "unat (of_nat max_file_size - sz)"
  obtain r ds es' where rd: "os_read es ?n = Some (r, ds, es')" using es e by simp
  have "no_error es'" using os_read_no_error [OF rd "1.prems"(1)] by simp
  moreover have "Read_Data [] \<in> set es'" if "r \<noteq> 0"
    using rd that "1.prems"(2) es e by (cases "bs = []") (auto split: if_splits)
  ultimately show ?case
    using "1.IH" [OF rd refl refl] rd by (auto simp: wl_load.simps [of buf sz es])
qed

lemma udp_open_returns:
  "no_error (snd (fs wl)) \<Longrightarrow> Read_Data [] \<in> set (snd (fs wl)) \<Longrightarrow> udp_open wl ip p s aton fs mem out \<noteq> never"
  by (auto simp: udp_open_def rbind_eq_never wl_load_returns wl_read4b_def Let_def simp del: not_None_eq)

section \<open>How far main gets\<close>

lemma ldb_create_cases:
  "ldb_create opn name 0 = throw Invalid_Argument \<or> (\<exists>db. opn name = Some db \<and> ldb_create opn name 0 = ret (new_executor db))"
  using new_executor(1) [of opn name] by (cases "opn name") (auto simp: ldb_create_def)

lemma server_main_tcp_cases:
  assumes "length argv = 4 \<or> length argv = 6" "argv ! 2 = ascii ''tcp''"
  shows "(\<exists>e. server_main L clk env opn pkg argv = throw e)
    \<or> (\<exists>h db. tcp_open (env_sock env) (env_bind env) (atoi (argv ! 3)) (env_listen env) (env_conn env)
        (env_input env) (env_out env) = ret h
        \<and> opn (argv ! 1) = Some db \<and> server_main L clk env opn pkg argv
          = rbind (server_run tcp_receive tcp_send tcp_reset L clk env pkg h (new_executor db))
              (\<lambda>(code, rep, h, x). ret (code, rep, tcp_sent h, if code = 0 then tcp_destroy h else [], Some (ex_db x))))"
proof -
  have "tcp_open (env_sock env) (env_bind env) (atoi (argv ! 3)) (env_listen env) (env_conn env)
        (env_input env) (env_out env) = throw Runtime_Error
    \<or> (\<exists>h. tcp_open (env_sock env) (env_bind env) (atoi (argv ! 3)) (env_listen env) (env_conn env)
        (env_input env) (env_out env) = ret h)"
    by (simp add: tcp_open_def)
  then show ?thesis
    using assms ldb_create_cases [of opn "argv ! 1"] by (auto simp: server_main_def)
qed

lemma server_main_udp_cases:
  assumes "argv ! 2 \<noteq> ascii ''tcp''"
  shows "server_main L clk env opn pkg argv = ret (1, None, [], [], None) \<or> (\<exists>t. server_main L clk env opn pkg argv = Some (Inl t))
    \<or> udp_open (argv ! 5) (argv ! 3) (atoi (argv ! 4)) (env_sock env) (env_aton env) (env_file env)
        (env_mem env) (env_out env) = never
    \<or> (\<exists>h db. udp_open (argv ! 5) (argv ! 3) (atoi (argv ! 4)) (env_sock env) (env_aton env) (env_file env)
        (env_mem env) (env_out env) = ret h
        \<and> opn (argv ! 1) = Some db \<and> server_main L clk env opn pkg argv
          = rbind (server_run udp_receive udp_send udp_reset L clk env pkg h (new_executor db))
              (\<lambda>(code, rep, h, x). ret (code, rep, udp_sent h, if code = 0 then udp_destroy h else [], Some (ex_db x))))"
proof (cases "udp_open (argv ! 5) (argv ! 3) (atoi (argv ! 4)) (env_sock env) (env_aton env) (env_file env)
        (env_mem env) (env_out env)")
  case (Some t)
  then show ?thesis
    using assms ldb_create_cases [of opn "argv ! 1"] by (cases t) (auto simp: server_main_def)
qed simp

lemma new_executor_packed:
  "dbinv db \<and> packed (view db) \<Longrightarrow> dbinv (ex_db (new_executor db)) \<and> packed (view (ex_db (new_executor db)))"
  by (simp add: new_executor_def)

section \<open>Properties\<close>

text \<open>
  C3: no client can make a TCP session undefined, except by stopping it at once. Whatever
  bytes arrive in whatever chunks, whatever the sends return, and whatever the server
  itself has stored before, as long as no read fails: if \<open>main\<close> comes to undefined behaviour
  then in the report, with no operation counted. If it returns, it has kept everything it
  sent, and it ends with the report and both sockets closed, or with code 1 and neither.
\<close>

theorem server_tcp_robust:
  assumes "kv_store L dbinv view todo" "\<And>db. opn (argv ! 1) = Some db \<Longrightarrow> dbinv db \<and> packed (view db)"
    "length argv = 4 \<or> length argv = 6" "argv ! 2 = ascii ''tcp''" "no_error (env_input env)" "clocks_sane env"
  shows "(server_main L clk env opn pkg argv = undef \<longrightarrow>
       (\<exists>h db log h' x'. tcp_open (env_sock env) (env_bind env) (atoi (argv ! 3)) (env_listen env) (env_conn env)
            (env_input env) (env_out env) = ret h \<and> opn (argv ! 1) = Some db
          \<and> server_loop tcp_receive tcp_send (execute L clk) pkg 0 [] (tcp_reset h) (reset_stats (new_executor db))
            = ret (0, log, h', x')))
    \<and> (server_main L clk env opn pkg argv = ret (code, rep, out, fds, store) \<longrightarrow>
       (\<exists>ds. out = out_log (env_out env) @ ds)
       \<and> (code = 0 \<and> rep \<noteq> None \<and> fds = [env_conn env, env_sock env] \<or> code = 1 \<and> rep = None \<and> fds = []))"
proof -
  let ?main = "server_main L clk env opn pkg argv"
  consider e where "?main = throw e"
    | h db where "tcp_open (env_sock env) (env_bind env) (atoi (argv ! 3)) (env_listen env) (env_conn env)
        (env_input env) (env_out env) = ret h"
      "opn (argv ! 1) = Some db" "?main
          = rbind (server_run tcp_receive tcp_send tcp_reset L clk env pkg h (new_executor db))
              (\<lambda>(code, rep, h, x). ret (code, rep, tcp_sent h, if code = 0 then tcp_destroy h else [], Some (ex_db x)))"
    using server_main_tcp_cases [OF assms(3,4), of L clk env opn pkg] by blast
  then show ?thesis
  proof cases
    case 1
    then show ?thesis by simp
  next
    case 2
    let ?run = "server_run tcp_receive tcp_send tcp_reset L clk env pkg h (new_executor db)"
    note h = tcp_open_ret [OF 2(1)]
    have hinv: "(tcp_inv h \<and> tcp_destroy h = [env_conn env, env_sock env]) \<and> no_error (tcp_in h)"
      using h assms(5) 2(1) by (auto simp: tcp_open_def split: if_splits)
    note x = new_executor_packed [of dbinv db view, OF assms(2) [OF 2(2)]]
    have "(\<exists>ds. out = out_log (env_out env) @ ds)
       \<and> (code = 0 \<and> rep \<noteq> None \<and> fds = [env_conn env, env_sock env] \<or> code = 1 \<and> rep = None \<and> fds = [])"
      if "?main = ret (code, rep, out, fds, store)"
    proof -
      from that 2(3) obtain h' x' where run: "?run = ret (code, rep, h', x')"
        and res: "out = tcp_sent h'" "fds = (if code = 0 then tcp_destroy h' else [])"
        by (auto simp: rbind_eq_ret)
      from res h hinv tcp_op.server_run_log [OF run] tcp_any.server_run_inv [OF run hinv] server_run_code [OF run]
      show ?thesis by auto
    qed
    moreover have "\<exists>log h' x'. server_loop tcp_receive tcp_send (execute L clk) pkg 0 [] (tcp_reset h)
        (reset_stats (new_executor db)) = ret (0, log, h', x')" if "?main = undef"
      using that 2(3)
      by (intro tcp_any.server_run_undef [OF kv_store.execute_executor [OF assms(1)] hinv x assms(6)]) (auto simp: rbind_eq_fault)
    ultimately show ?thesis using 2(1,2) by blast
  qed
qed

theorem server_tcp_robust_witness:
  "let env = demo_env (frame (ascii ''ENDNOW'')) []; p = demo_package 0 0 0 []
   in \<exists>h log h' x'. tcp_open 3 (\<lambda>_. 0) (atoi (ascii ''1337'')) 0 4 (env_input env) (env_out env) = ret h
     \<and> server_loop tcp_receive tcp_send (execute ol_ops (\<lambda>i. 0)) p 0 [] (tcp_reset h) (reset_stats (new_executor []))
       = ret (0, log, h', x')"
proof -
  let ?env = "demo_env (frame (ascii ''ENDNOW'')) []" and ?argv = "[ascii ''s'', ascii ''db'', ascii ''tcp'', ascii ''1337'']"
  have sane: "clocks_sane ?env" "no_error (env_input ?env)"
    by (simp_all add: clocks_sane_def demo_env_def sane_timeval_def sane_timespec_def no_error_def)
  have env: "env_sock ?env = 3" "env_bind ?env = (\<lambda>_. 0)" "env_listen ?env = 0" "env_conn ?env = 4"
    by (simp_all add: demo_env_def)
  show ?thesis
    using server_tcp_robust [OF ol.kv_store_axioms, of "\<lambda>_. Some []" ?argv ?env "\<lambda>i. 0" "demo_package 0 0 0 []"]
      server_idle_undefined_witness sane
    by (auto simp: ol_inv_def packed_def env Let_def)
qed

text \<open>
  C4: a UDP run always ends. Whatever the workload file holds, if it can be read to its
  end, whatever the sends return and the clocks show, and whatever the server itself has
  stored before: \<open>main\<close> does not run for ever, and when it reports, it has executed at most
  as many operations as the second counter of the file says.
\<close>

theorem server_udp_ends:
  assumes "kv_store L dbinv view todo" "\<And>db. opn (argv ! 1) = Some db \<Longrightarrow> dbinv db \<and> packed (view db)"
    "argv ! 2 \<noteq> ascii ''tcp''" "no_error (snd (env_file env (argv ! 5)))" "Read_Data [] \<in> set (snd (env_file env (argv ! 5)))"
  shows "server_main L clk env opn pkg argv \<noteq> never
    \<and> (server_main L clk env opn pkg argv = ret (code, Some rep, out, fds, store) \<longrightarrow>
       (\<exists>h. udp_open (argv ! 5) (argv ! 3) (atoi (argv ! 4)) (env_sock env) (env_aton env) (env_file env)
        (env_mem env) (env_out env) = ret h
          \<and> unat (rep_num_ops rep) \<le> unat (udp_total_ops h)))"
proof -
  let ?main = "server_main L clk env opn pkg argv"
  consider "?main = ret (1, None, [], [], None)" | t where "?main = Some (Inl t)"
    | h db where "udp_open (argv ! 5) (argv ! 3) (atoi (argv ! 4)) (env_sock env) (env_aton env) (env_file env)
        (env_mem env) (env_out env) = ret h"
      "opn (argv ! 1) = Some db" "?main
          = rbind (server_run udp_receive udp_send udp_reset L clk env pkg h (new_executor db))
              (\<lambda>(code, rep, h, x). ret (code, rep, udp_sent h, if code = 0 then udp_destroy h else [], Some (ex_db x)))"
    using server_main_udp_cases [OF assms(3), of L clk env opn pkg] udp_open_returns [of "env_file env" "argv ! 5", OF assms(4,5)] by blast
  then show ?thesis
  proof cases
    case 3
    note ends = udp_count.server_run_ends [OF kv_store.execute_executor [OF assms(1)] new_executor_packed [of dbinv db view, OF assms(2) [OF 3(2)]]]
    have "udp_left (udp_reset h) \<le> unat (udp_total_ops h)" by (simp add: udp_left_def udp_reset_def)
    moreover have "?main \<noteq> never" using ends 3(3) by (auto simp: rbind_eq_never simp del: not_None_eq)
    moreover obtain h' x' where "server_run udp_receive udp_send udp_reset L clk env pkg h (new_executor db) = ret (code, Some rep, h', x')"
      if "?main = ret (code, Some rep, out, fds, store)"
      using 3(3) by (auto simp: rbind_eq_ret)
    ultimately show ?thesis using ends 3(1) by (meson order_trans)
  qed simp_all
qed

theorem server_udp_ends_witness:
  "server_main ol_ops (\<lambda>i. 0) (demo_env [] [0, 0, 0, 0, 0, 0, 0, 9, 4, 0, 2]) (\<lambda>_. Some []) (demo_package 0 0 0 [])
     [ascii ''s'', ascii ''db'', ascii ''udp'', ascii ''127.0.0.1'', ascii ''1337'', ascii ''w''] \<noteq> never"
proof -
  let ?env = "demo_env [] [0, 0, 0, 0, 0, 0, 0, 9, 4, 0, 2]"
    and ?argv = "[ascii ''s'', ascii ''db'', ascii ''udp'', ascii ''127.0.0.1'', ascii ''1337'', ascii ''w'']"
  have "no_error (snd (env_file ?env (?argv ! 5)))" "Read_Data [] \<in> set (snd (env_file ?env (?argv ! 5)))"
    by (simp_all add: demo_env_def no_error_def)
  moreover have "?argv ! 2 \<noteq> ascii ''tcp''" by (simp add: ascii_def)
  ultimately show ?thesis
    using server_udp_ends [OF ol.kv_store_axioms, of "\<lambda>_. Some []" ?argv ?env "\<lambda>i. 0" "demo_package 0 0 0 []"]
    by (simp add: ol_inv_def packed_def)
qed

end
