(* ===== verification/Handler_Types.thy ===== *)
theory Handler_Types
  imports Tcp_Handler Udp_Handler
begin

text \<open>
  What holds of both handlers of \<^verbatim>\<open>apps/ycsbserver\<close> from their construction on, whatever
  methods are called in whatever order: the size of the buffers, the shape of the packages
  delivered, and that output is only appended.
\<close>

section \<open>Construction\<close>

lemma wl_load_typed:
  "no_error es \<Longrightarrow> length buf = max_file_size \<Longrightarrow> unat sz \<le> max_file_size \<Longrightarrow> wl_load buf sz es = ret (buf', sz') \<Longrightarrow>
   length buf' = max_file_size \<and> unat sz' \<le> max_file_size"
proof (induction buf sz es rule: wl_load.induct)
  case (1 buf sz es)
  have n: "unat (of_nat max_file_size - sz) = max_file_size - unat sz"
    using "1.prems"(3) by (simp add: unat_sub word_le_nat_alt)
  show ?case
  proof (cases "os_read es (unat (of_nat max_file_size - sz))")
    case None
    with "1.prems"(4) show ?thesis by (simp add: wl_load.simps [of buf sz es])
  next
    case (Some x)
    obtain r bs es' where x: "x = (r, bs, es')" by (cases x) auto
    note rd = Some [unfolded x]
    have es': "no_error es'" "0 \<le> r" using os_read_no_error [OF rd "1.prems"(1)] by auto
    then have r: "r = int (length bs)" "length bs \<le> max_file_size - unat sz"
      using os_read_bounds [OF rd] n by auto
    show ?thesis
    proof (cases "r = 0")
      case True
      with "1.prems" rd show ?thesis by (simp add: wl_load.simps [of buf sz es])
    next
      case False
      have step: "unat (sz + of_int r) = unat sz + length bs"
        using r "1.prems"(3) by (intro unat_advance [where sz = "of_nat max_file_size"]) simp_all
      have inb: "\<not> (bs \<noteq> [] \<and> length buf < unat sz + length bs)" using r "1.prems"(2,3) by auto
      have run: "wl_load (write_at (unat sz) bs buf) (sz + of_int r) es' = ret (buf', sz')"
        using "1.prems"(4) rd False inb by (auto simp: wl_load.simps [of buf sz es] split: if_splits)
      have len: "length (write_at (unat sz) bs buf) = max_file_size" using r "1.prems"(2,3) by simp
      have "unat (sz + of_int r) \<le> max_file_size" using step r "1.prems"(3) by simp
      from "1.IH" [OF Some x [symmetric] refl False inb es'(1) len this run] show ?thesis .
    qed
  qed
qed

lemma udp_open_ret:
  assumes "udp_open wl ip p s aton fs mem out = ret h" "no_error (snd (fs wl))" "length mem = max_file_size"
  shows "udp_inv h \<and> udp_sent h = out_log out"
proof -
  from assms(1) obtain buf sz where "wl_load mem 0 (snd (fs wl)) = ret (buf, sz)" "wl_buffer h = buf" "wl_size h = sz"
    "udp_out h = out"
    by (auto simp: udp_open_def rbind_eq_ret wl_read4b_def Let_def split: if_splits)
  with wl_load_typed [OF assms(2,3), of 0 buf sz] show ?thesis by (auto simp: udp_inv_def udp_sent_def)
qed

text \<open>What the methods keep, from the interpretations that fix the descriptors.\<close>

lemma tcp_reach:
  assumes "tcp_open s b p l c es out = ret h0" "handler_reach tcp_receive tcp_send tcp_reset h0 h"
  shows "tcp_inv h \<and> (\<exists>ds. tcp_sent h = out_log out @ ds) \<and> tcp_destroy h = [c, s]"
  using tcp_fds.reach_typed [OF assms(2)] tcp_open_ret [OF assms(1)] by auto

lemma udp_reach:
  assumes "udp_open wl ip p s aton fs mem out = ret h0" "no_error (snd (fs wl))" "length mem = max_file_size"
    "handler_reach udp_receive udp_send udp_reset h0 h"
  shows "udp_inv h \<and> (\<exists>ds. udp_sent h = out_log out @ ds) \<and> udp_destroy h = [s]
    \<and> udp_peer h = (s, of_int p, case snd (aton ip) of None \<Rightarrow> 0 | Some a \<Rightarrow> a, udp_total_ops h0)"
  using udp_fds.reach_typed [OF assms(4)] udp_open_ret [OF assms(1-3)] udp_open_fds [OF assms(1)] by (auto simp: udp_peer_def udp_destroy_def)

section \<open>Properties\<close>

text \<open>
  C9: the handlers are well typed. From the constructor on, whatever methods are called in
  whatever order with whatever results, a TCP handler keeps its 8 KiB buffer, and a UDP
  handler whose workload file could be read keeps its size within its buffer; both only
  append to what they have sent, and their destructors close the descriptors the
  constructors were given by the kernel; the UDP handler keeps sending to the port and the
  address it was given, or to address 0 if the address was invalid; and every package either of them delivers as ready has at
  most as many pairs as its count byte says, each with key and value of at most 255 bytes.
\<close>

theorem handlers_well_typed:
  "(tcp_open s b p l c es out = ret h0 \<and> handler_reach tcp_receive tcp_send tcp_reset h0 h \<longrightarrow>
      tcp_inv h \<and> (\<exists>ds. tcp_sent h = out_log out @ ds) \<and> tcp_destroy h = [c, s]
      \<and> (kv_pairs pkg = [] \<and> tcp_receive h pkg = ret (READY, pkg', h') \<longrightarrow>
           list_all short_pair (kv_pairs pkg') \<and> length (kv_pairs pkg') \<le> unat (pkg_num_kvs pkg')))
   \<and> (udp_open wl ip p s aton fs mem out = ret u0 \<and> no_error (snd (fs wl)) \<and> length mem = max_file_size
        \<and> handler_reach udp_receive udp_send udp_reset u0 u \<longrightarrow>
      udp_inv u \<and> (\<exists>ds. udp_sent u = out_log out @ ds) \<and> udp_destroy u = [s]
      \<and> udp_peer u = (s, of_int p, case snd (aton ip) of None \<Rightarrow> 0 | Some a \<Rightarrow> a, udp_total_ops u0)
      \<and> (kv_pairs pkg = [] \<and> udp_receive u pkg = ret (READY, pkg', u') \<longrightarrow>
           list_all short_pair (kv_pairs pkg') \<and> length (kv_pairs pkg') \<le> unat (pkg_num_kvs pkg')))"
  using tcp_reach [of s b p l c es out h0 h] tcp_op.recv_ready [of h pkg pkg' h']
    udp_reach [of wl ip p s aton fs mem out u0 u]
    udp_op.recv_ready [of u pkg pkg' u']
  by blast

theorem handlers_well_typed_witness:
  "let p = \<lparr>pkg_op = 3, pkg_table = 0, pkg_num_kvs = 0, pkg_key = 7, pkg_scan_length = 0, kv_pairs = []\<rparr>
   in \<exists>h0 h h'. tcp_open 3 (\<lambda>_. 0) 1337 0 4 [Read_Data (frame (encode_package p))] \<lparr>out_res = [-1], out_log = []\<rparr> = ret h0
        \<and> tcp_send h0 [1] = (-1, h) \<and> tcp_receive h p = ret (READY, p, h') \<and> tcp_inv h'
        \<and> tcp_sent h' = [[1]] \<and> list_all short_pair (kv_pairs p)"
proof -
  define p where "p = \<lparr>pkg_op = 3, pkg_table = 0, pkg_num_kvs = 0, pkg_key = 7, pkg_scan_length = 0, kv_pairs = []\<rparr>"
  define h0 where "h0 = \<lparr>tcp_lfd = 3, tcp_cfd = 4, tcp_buf = replicate package_buffer_size 0,
      tcp_in = [Read_Data (frame (encode_package p))], tcp_out = \<lparr>out_res = [-1], out_log = []\<rparr>\<rparr>"
  define h where "h = h0\<lparr>tcp_out := \<lparr>out_res = [], out_log = [[1]]\<rparr>\<rparr>"
  have opn: "tcp_open 3 (\<lambda>_. 0) 1337 0 4 [Read_Data (frame (encode_package p))] \<lparr>out_res = [-1], out_log = []\<rparr> = ret h0"
    by (simp add: tcp_open_def h0_def)
  have snd: "tcp_send h0 [1] = (-1, h)" by (simp add: tcp_send_def h_def h0_def os_write_def)
  have "frame (encode_package p) \<noteq> []" by (simp add: frame_def be_bytes_numeral)
  then obtain h' where rcv: "tcp_receive h p = ret (READY, p, h')" "tcp_out h' = tcp_out h"
    using tcp_receive_ready [of h p "[]" p]
    by (auto simp: h_def h0_def tcp_inv_def p_def wf_package_def length_encode_package)
  have reach: "handler_reach tcp_receive tcp_send tcp_reset h0 h"
    by (rule hr_send [OF hr_start [of tcp_receive tcp_send tcp_reset h0] snd])
  note typed = handlers_well_typed [of 3 "\<lambda>_. 0" 1337 0 4 "[Read_Data (frame (encode_package p))]" "\<lparr>out_res = [-1], out_log = []\<rparr>" h0]
  from typed opn hr_recv [OF reach rcv(1)] have "tcp_inv h'" by blast
  moreover from typed [of h p p h'] opn reach rcv have "list_all short_pair (kv_pairs p)" by (simp add: p_def)
  moreover have "tcp_sent h' = [[1]]" using rcv(2) by (simp add: tcp_sent_def h_def)
  ultimately show ?thesis unfolding Let_def p_def [symmetric] using opn snd rcv(1) by blast
qed

end
