(* ===== verification/Stats.thy ===== *)
theory Stats
  imports Prelude
begin

text \<open>
  The measuring helpers that all benchmarks include, \<^verbatim>\<open>include/common.h\<close>,
  \<^verbatim>\<open>include/cycles.h\<close> and \<^verbatim>\<open>include/profile.h\<close>: reading the cycle counter,
  \<open>sum\<close>, \<open>avg\<close> and \<open>stddev\<close> over an array of measurements, and the busy loop
  \<open>compute\<close>. An array is the list of its elements; an access behind its end, a division
  by zero and an overflow of \<open>long long\<close> are undefined.
\<close>

section \<open>Cycle counter\<close>

text \<open>\<open>rdtsc\<close> leaves the two halves in \<open>edx\<close> and \<open>eax\<close>.\<close>

definition get_cycles :: "u32 \<Rightarrow> u32 \<Rightarrow> u64" where
  "get_cycles u l = push_bit 32 (ucast u) OR ucast l"

lemma unat_get_cycles: "unat (get_cycles u l) = unat u * 2 ^ 32 + unat l"
proof -
  have l: "unat l < 2 ^ 32" using unsigned_less [of l] by simp
  have u: "unat u < 2 ^ 32" using unsigned_less [of u] by simp
  have "push_bit 32 (ucast u :: u64) AND ucast l = 0"
    by (rule bit_eqI) (auto simp: bit_simps dest: bit_imp_le_length)
  then have "get_cycles u l = push_bit 32 (ucast u) + ucast l"
    by (simp add: get_cycles_def disjunctive_add_eq_or)
  moreover have "unat (push_bit 32 (ucast u :: u64)) = unat u * 2 ^ 32"
    using u by (simp add: push_bit_eq_mult unat_word_ariths unat_ucast_u32)
  ultimately show ?thesis
    using u l by (simp add: unat_word_ariths unat_ucast_u32)
qed

text \<open>\<open>prof_start\<close> and \<open>prof_stop\<close> ignore their identifier.\<close>

definition prof_start :: "u32 \<Rightarrow> u32 \<Rightarrow> u32 \<Rightarrow> u64" where
  "prof_start ident u l = get_cycles u l"

definition prof_stop :: "u32 \<Rightarrow> u32 \<Rightarrow> u32 \<Rightarrow> u64" where
  "prof_stop ident u l = get_cycles u l"

lemma prof_elapsed:
  assumes "unat u * 2 ^ 32 + unat l \<le> unat u' * 2 ^ 32 + unat l'"
  shows "unat (prof_stop i u' l' - prof_start i u l) = (unat u' * 2 ^ 32 + unat l') - (unat u * 2 ^ 32 + unat l)"
  using assms by (simp add: prof_start_def prof_stop_def unat_get_cycles unat_sub word_le_nat_alt)

section \<open>Sum and average\<close>

abbreviation first_result :: u64 where
  "first_result \<equiv> 2"

function cyc_sum_loop :: "u64 list \<Rightarrow> u64 \<Rightarrow> u64 \<Rightarrow> u64 \<Rightarrow> u64 result" where
  "cyc_sum_loop vals count i acc =
     (if i < count then
        if length vals \<le> unat i then undef
        else cyc_sum_loop vals count (i + 1) (acc + vals ! unat i)
      else ret acc)"
  by pat_completeness auto
termination
  by (relation "measure (\<lambda>(vals, count, i, acc). unat count - unat i)")
    (auto simp: word_less_nat_alt unat_succ_u64)

declare cyc_sum_loop.simps [simp del]

definition cyc_sum :: "u64 list \<Rightarrow> u64 \<Rightarrow> u64 result" where
  "cyc_sum vals count = cyc_sum_loop vals count first_result 0"

definition cyc_avg :: "u64 list \<Rightarrow> u64 \<Rightarrow> u64 result" where
  "cyc_avg vals count =
     rbind (cyc_sum vals count) (\<lambda>s.
       if count - first_result = 0 then undef else ret (s div (count - first_result)))"

section \<open>Square roots of doubles\<close>

text \<open>
  \<open>sqrt\<close> takes and returns a \<open>double\<close>: the 64-bit argument is rounded to 53 significant
  bits (to nearest, ties to even), the root is rounded correctly to 53 bits, and the
  result is cut off to an integer. All of it is computed here on natural numbers. The
  root is scaled by \<open>2 ^ 54\<close>; it is never a tie, because the square of a number of 54
  significant bits has more than 53.
\<close>

fun bit_len :: "nat \<Rightarrow> nat" where
  "bit_len n = (if n = 0 then 0 else Suc (bit_len (n div 2)))"

fun isqrt :: "nat \<Rightarrow> nat" where
  "isqrt n =
     (if n = 0 then 0
      else let r = 2 * isqrt (n div 4) in if (r + 1) * (r + 1) \<le> n then r + 1 else r)"

declare bit_len.simps [simp del] isqrt.simps [simp del]

definition to_double :: "nat \<Rightarrow> nat" where
  "to_double n =
     (let e = bit_len n - 53; q = n div 2 ^ e; r = n mod 2 ^ e
      in (if 2 * r < 2 ^ e \<or> 2 * r = 2 ^ e \<and> even q then q else q + 1) * 2 ^ e)"

definition sqrt_double :: "nat \<Rightarrow> nat" where
  "sqrt_double v =
     (let s = isqrt (v * 4 ^ 54); e = bit_len s - 53; q = s div 2 ^ e; r = s mod 2 ^ e
      in (if 2 * r < 2 ^ e then q else q + 1) * 2 ^ e div 2 ^ 54)"

section \<open>Standard deviation\<close>

text \<open>The loop sums in \<open>long long\<close>, the quotient is unsigned.\<close>

function cyc_dev_loop :: "u64 list \<Rightarrow> u64 \<Rightarrow> u64 \<Rightarrow> u64 \<Rightarrow> int \<Rightarrow> int result" where
  "cyc_dev_loop vals count avg i acc =
     (if i < count then
        if length vals \<le> unat i then undef
        else
          rbind (checked64 (sint (vals ! unat i) - sint avg)) (\<lambda>tmp.
          rbind (checked64 (tmp * tmp)) (\<lambda>sq.
          rbind (checked64 (acc + sq)) (\<lambda>acc'. cyc_dev_loop vals count avg (i + 1) acc')))
      else ret acc)"
  by pat_completeness auto
termination
  by (relation "measure (\<lambda>(vals, count, avg, i, acc). unat count - unat i)")
    (auto simp: word_less_nat_alt unat_succ_u64)

declare cyc_dev_loop.simps [simp del]

definition cyc_stddev :: "u64 list \<Rightarrow> u64 \<Rightarrow> u64 \<Rightarrow> u64 result" where
  "cyc_stddev vals count avg =
     rbind (cyc_dev_loop vals count avg first_result 0) (\<lambda>s.
       if count - first_result = 0 then undef
       else ret (of_nat (sqrt_double (to_double (unat (of_int s div (count - first_result) :: u64))))))"

section \<open>compute\<close>

text \<open>The number of times the loop of \<open>compute\<close> is executed, from the register's value on.\<close>

function compute_loop :: "u64 \<Rightarrow> nat \<Rightarrow> nat" where
  "compute_loop n k = (if n - 1 \<noteq> 0 then compute_loop (n - 1) (Suc k) else Suc k)"
  by pat_completeness auto
termination
proof (relation "measure (\<lambda>(n, k). unat (n - 1))")
  fix n :: u64 and k
  assume "n - 1 \<noteq> 0"
  then show "((n - 1, Suc k), n, k) \<in> measure (\<lambda>(n, k). unat (n - 1))"
    using unat_pred_u64 [of "n - 1"] by (simp add: word_gt_0 unat_gt_0)
qed simp

declare compute_loop.simps [simp del]

definition compute :: "u64 \<Rightarrow> nat" where
  "compute cycles = compute_loop (cycles div 2) 0"

section \<open>Sums\<close>

text \<open>The measurements that count: all but the first two.\<close>

definition measured :: "u64 list \<Rightarrow> u64 list" where
  "measured vals = drop 2 vals"

lemma cyc_sum_loop_eq:
  "unat count \<le> length vals \<Longrightarrow> i \<le> count \<Longrightarrow>
   cyc_sum_loop vals count i acc = ret (acc + sum_list (bslice (unat i) (unat count - unat i) vals))"
proof (induction vals count i acc rule: cyc_sum_loop.induct)
  case (1 vals count i acc)
  show ?case
  proof (cases "i < count")
    case True
    then have n: "unat (i + 1) = Suc (unat i)" "unat i < length vals" "i + 1 \<le> count"
      using "1.prems"(1) by (auto simp: unat_succ_u64 word_less_nat_alt word_le_nat_alt)
    have "bslice (unat i) (unat count - unat i) vals
        = vals ! unat i # bslice (Suc (unat i)) (unat count - Suc (unat i)) vals"
      using n(2) True by (intro bslice_Cons) (simp_all add: word_less_nat_alt)
    then show ?thesis
      using "1.IH" [OF True] "1.prems"(1) True n
      by (simp add: cyc_sum_loop.simps [of vals count i acc] add.assoc)
  next
    case False
    with "1.prems"(2) have "i = count" by simp
    then show ?thesis by (simp add: cyc_sum_loop.simps [of vals count count acc] bslice_def)
  qed
qed

lemma cyc_sum_measured:
  assumes "2 \<le> length vals" "length vals < 2 ^ 64"
  shows "cyc_sum vals (of_nat (length vals)) = ret (sum_list (measured vals))"
proof -
  have n: "unat (of_nat (length vals) :: u64) = length vals" using assms(2) by (simp add: unat_of_nat)
  with assms(1) have "2 \<le> (of_nat (length vals) :: u64)" by (simp add: word_le_nat_alt)
  with cyc_sum_loop_eq [of "of_nat (length vals)" vals 2 0] n show ?thesis
    by (simp add: cyc_sum_def bslice_def measured_def)
qed

lemma unat_sum_list: "sum_list (map unat xs) < 2 ^ 64 \<Longrightarrow> unat (sum_list (xs :: u64 list)) = sum_list (map unat xs)"
proof (induction xs)
  case (Cons x xs)
  then show ?case by (simp add: unat_word_ariths)
qed simp

lemma count_measured:
  assumes "2 \<le> length vals" "length vals < 2 ^ 64"
  shows "unat (of_nat (length vals) - first_result) = length (measured vals)"
proof -
  have n: "unat (of_nat (length vals) :: u64) = length vals" using assms(2) by (simp add: unat_of_nat)
  with assms(1) have "2 \<le> (of_nat (length vals) :: u64)" by (simp add: word_le_nat_alt)
  with n show ?thesis by (simp add: unat_sub measured_def)
qed

lemma cyc_avg_measured:
  assumes "2 < length vals" "length vals < 2 ^ 64" "sum_list (map unat (measured vals)) < 2 ^ 64"
  shows "cyc_avg vals (of_nat (length vals))
    = ret (of_nat (sum_list (map unat (measured vals)) div length (measured vals)))"
proof -
  let ?d = "of_nat (length vals) - first_result"
  have d: "unat ?d = length (measured vals)" using assms(1,2) by (intro count_measured) auto
  with assms(1) have "?d \<noteq> 0" by (auto simp: measured_def)
  moreover have "unat (sum_list (measured vals) div ?d) = sum_list (map unat (measured vals)) div length (measured vals)"
    using d unat_sum_list [OF assms(3)] by (simp add: unat_div)
  then have "sum_list (measured vals) div ?d = of_nat (sum_list (map unat (measured vals)) div length (measured vals))"
    by (metis of_nat_unat ucast_id)
  ultimately show ?thesis
    using cyc_sum_measured [of vals] assms(1,2) by (simp add: cyc_avg_def)
qed

section \<open>Integer square roots\<close>

lemma isqrt_bounds: "isqrt n * isqrt n \<le> n \<and> n < (isqrt n + 1) * (isqrt n + 1)"
proof (induction n rule: isqrt.induct)
  case (1 n)
  show ?case
  proof (cases "n = 0")
    case False
    define q where "q = isqrt (n div 4)"
    have q: "q * q \<le> n div 4" "n div 4 < (q + 1) * (q + 1)" using 1 [OF False] by (simp_all add: q_def)
    have "4 * (q * q) \<le> n" using q(1) by linarith
    moreover have "n < 4 * ((q + 1) * (q + 1))" using q(2) by linarith
    moreover have "isqrt n = (if (2 * q + 1) * (2 * q + 1) \<le> n then 2 * q + 1 else 2 * q)"
      using False by (simp add: isqrt.simps [of n] q_def Let_def)
    ultimately show ?thesis by (auto simp: algebra_simps)
  qed (simp add: isqrt.simps)
qed

lemma isqrt_le: "k * k \<le> n \<Longrightarrow> k \<le> isqrt n"
  using isqrt_bounds [of n] mult_le_mono [of "isqrt n + 1" k "isqrt n + 1" k]
  by (metis Suc_eq_plus1 leD not_less_eq_eq order.strict_trans2)

lemma isqrt_less: "n < k * k \<Longrightarrow> isqrt n < k"
  using isqrt_bounds [of n] mult_le_mono [of k "isqrt n" k "isqrt n"] by (metis leD leI order.trans)

lemma bit_len_le: "n < 2 ^ k \<Longrightarrow> bit_len n \<le> k"
proof (induction k arbitrary: n)
  case 0
  then show ?case by (simp add: bit_len.simps [of 0])
next
  case (Suc k)
  then have "n div 2 < 2 ^ k" by simp
  from Suc.IH [OF this] show ?case by (simp add: bit_len.simps [of n])
qed

lemma to_double_small:
  assumes "n < 2 ^ 53"
  shows "to_double n = n"
proof -
  have "bit_len n - 53 = 0" using bit_len_le [OF assms] by simp
  then show ?thesis by (simp add: to_double_def)
qed

lemma square_scaled: "(a * 2 ^ 54) * (a * 2 ^ 54) = (a * a) * (4 ^ 54 :: nat)"
  by simp

lemma no_near_far:
  fixes s K d m :: nat
  assumes "2 * K \<le> 2 * s + d" "s * s + m \<le> K * K" "K * d < m"
  shows False
proof -
  have "s < K"
  proof (rule ccontr)
    assume "\<not> s < K"
    then have "K * K \<le> s * s" by (intro mult_le_mono) auto
    with assms(2,3) show False by simp
  qed
  define t where "t = K - s"
  have K: "K = s + t" and t: "2 * t \<le> d" using assms(1) \<open>s < K\<close> by (simp_all add: t_def)
  have "m \<le> t * (2 * s + t)" using assms(2) by (simp add: K algebra_simps)
  also have "\<dots> \<le> t * (2 * K)" by (simp add: K)
  also have "\<dots> = K * (2 * t)" by simp
  also have "\<dots> \<le> K * d" using t by (intro mult_le_mono) auto
  finally show False using assms(3) by simp
qed

text \<open>
  Below \<open>2 ^ 52\<close> cutting off the rounded root gives the integer root: the true root of a
  number that is not a square lies too far below the next integer to be rounded up to it.
\<close>

lemma sqrt_double_small:
  assumes "v < 2 ^ 52"
  shows "sqrt_double v = isqrt v"
proof -
  define k s e q r where "k = isqrt v" and "s = isqrt (v * 4 ^ 54)" and "e = bit_len s - 53"
    and "q = s div 2 ^ e" and "r = s mod 2 ^ e"
  have k: "k * k \<le> v" "v < (k + 1) * (k + 1)" using isqrt_bounds [of v] by (simp_all add: k_def)
  have "k < 2 ^ 26" unfolding k_def by (rule isqrt_less) (use assms in simp)
  then have k1: "k + 1 \<le> 2 ^ 26" by simp
  have "k * 2 ^ 54 * (k * 2 ^ 54) = (k * k) * 4 ^ 54" by simp
  also have "\<dots> \<le> v * 4 ^ 54" using k(1) by (rule mult_le_mono1)
  finally have lower: "k * 2 ^ 54 \<le> s" unfolding s_def by (rule isqrt_le)
  have "v * 4 ^ 54 < (k + 1) * (k + 1) * 4 ^ 54" using k(2) by (subst mult_less_cancel2) simp
  also have "\<dots> = ((k + 1) * 2 ^ 54) * ((k + 1) * 2 ^ 54)" by (rule square_scaled [symmetric])
  finally have upper: "s < (k + 1) * 2 ^ 54" unfolding s_def by (rule isqrt_less)
  also have "\<dots> \<le> 2 ^ 26 * 2 ^ 54" using k1 by (rule mult_le_mono1)
  finally have "s < 2 ^ 80" by simp
  then have e: "e \<le> 27" using bit_len_le [of s 80] by (simp add: e_def)
  define M :: nat where "M = 2 ^ (54 - e)"
  have M: "2 ^ 54 = M * 2 ^ e" using e by (simp add: M_def flip: power_add)
  have s_eq: "s = q * 2 ^ e + r" "r < 2 ^ e"
    unfolding q_def r_def by (simp only: div_mult_mod_eq) simp
  have scaled: "a * 2 ^ 54 = a * M * 2 ^ e" for a by (simp only: M mult.assoc)
  have pos: "(0 :: nat) < 2 ^ e" by simp
  have q_lower: "k * M \<le> q"
    using div_le_mono [OF lower, of "2 ^ e"] pos unfolding q_def scaled by simp
  have q_upper: "q < (k + 1) * M"
    using upper pos unfolding q_def scaled by (simp only: div_less_iff_less_mult)
  have no_carry: "q + 1 < (k + 1) * M" if "\<not> 2 * r < 2 ^ e"
  proof (rule ccontr)
    assume "\<not> q + 1 < (k + 1) * M"
    with q_upper have "q + 1 = (k + 1) * M" by simp
    then have "(k + 1) * 2 ^ 54 = q * 2 ^ e + 2 ^ e" unfolding scaled by (metis add_mult_distrib mult_1)
    with s_eq(1) that have near: "2 * ((k + 1) * 2 ^ 54) \<le> 2 * s + 2 ^ e" by simp
    have "s * s \<le> v * 4 ^ 54" using isqrt_bounds [of "v * 4 ^ 54"] by (simp add: s_def)
    also have "\<dots> \<le> ((k + 1) * (k + 1) - 1) * 4 ^ 54" using k(2) by (intro mult_le_mono1) simp
    finally have "s * s + 4 ^ 54 \<le> ((k + 1) * (k + 1) - 1) * 4 ^ 54 + 4 ^ 54" by simp
    also have "\<dots> = (k + 1) * (k + 1) * 4 ^ 54" by simp
    finally have far: "s * s + 4 ^ 54 \<le> ((k + 1) * 2 ^ 54) * ((k + 1) * 2 ^ 54)"
      unfolding square_scaled .
    have "(2 :: nat) ^ e \<le> 2 ^ 27" using e by (intro power_increasing) auto
    then have "(k + 1) * 2 ^ 54 * 2 ^ e \<le> 2 ^ 26 * 2 ^ 54 * 2 ^ 27" using k1 by (intro mult_le_mono) auto
    then have small: "(k + 1) * 2 ^ 54 * 2 ^ e < 4 ^ 54" by simp
    show False by (rule no_near_far [OF near far small])
  qed
  define q' where "q' = (if 2 * r < 2 ^ e then q else q + 1)"
  have "k * M \<le> q'" "q' < (k + 1) * M" using q_lower q_upper no_carry by (auto simp: q'_def)
  then have "q' div M = k" by (intro div_nat_eqI) (simp_all add: mult.commute)
  moreover have "q' * 2 ^ e div 2 ^ 54 = q' div M" unfolding M by simp
  ultimately show ?thesis
    unfolding sqrt_double_def Let_def s_def [symmetric] e_def [symmetric] q_def [symmetric] r_def [symmetric]
      q'_def [symmetric] k_def [symmetric] by simp
qed

section \<open>Deviations\<close>

definition deviation :: "u64 \<Rightarrow> u64 list \<Rightarrow> int" where
  "deviation avg xs = sum_list (map (\<lambda>x. (sint x - sint avg) * (sint x - sint avg)) xs)"

lemma deviation_simps [simp]:
  "deviation avg [] = 0"
  "deviation avg (x # xs) = (sint x - sint avg) * (sint x - sint avg) + deviation avg xs"
  by (simp_all add: deviation_def)

lemma deviation_nonneg: "0 \<le> deviation avg xs"
  by (induction xs) simp_all

lemma square_bounds: "\<bar>t\<bar> \<le> t * t" "0 \<le> t * t" for t :: int
proof -
  have "\<bar>t\<bar> * 1 \<le> \<bar>t\<bar> * \<bar>t\<bar>"
    by (cases "t = 0") (simp, rule mult_left_mono, simp_all)
  then show "\<bar>t\<bar> \<le> t * t" by (simp only: abs_mult_self_eq mult_1_right)
qed simp

text \<open>Nothing overflows exactly when the sum of the squares fits into \<open>long long\<close>.\<close>

lemma square_step:
  assumes "0 \<le> acc" "acc < 2 ^ 63" "0 \<le> rest"
    and next_step: "\<And>acc'. 0 \<le> acc' \<Longrightarrow> acc' < 2 ^ 63 \<Longrightarrow>
        k acc' = (if acc' + rest < 2 ^ 63 then ret (acc' + rest) else undef)"
  shows "rbind (checked64 t) (\<lambda>tmp. rbind (checked64 (tmp * tmp)) (\<lambda>sq. rbind (checked64 (acc + sq)) k))
     = (if acc + (t * t + rest) < 2 ^ 63 then ret (acc + (t * t + rest)) else undef)"
proof (cases "acc + t * t < 2 ^ 63")
  case True
  then have "checked64 t = ret t" "checked64 (t * t) = ret (t * t)" "checked64 (acc + t * t) = ret (acc + t * t)"
    using square_bounds [of t] assms(1) by (auto simp: checked64_def)
  with True next_step [of "acc + t * t"] square_bounds [of t] assms(1) show ?thesis by (simp add: add.assoc)
next
  case False
  then have "checked64 (acc + t * t) = undef" by (simp add: checked64_def)
  with False assms(3) show ?thesis
    by (auto simp: checked64_def)
qed

lemma cyc_dev_loop_eq:
  "unat count \<le> length vals \<Longrightarrow> i \<le> count \<Longrightarrow> 0 \<le> acc \<Longrightarrow> acc < 2 ^ 63 \<Longrightarrow>
   cyc_dev_loop vals count avg i acc
     = (let S = acc + deviation avg (bslice (unat i) (unat count - unat i) vals)
        in if S < 2 ^ 63 then ret S else undef)"
proof (induction "unat count - unat i" arbitrary: i acc)
  case 0
  then have "i = count" by (simp add: word_le_nat_alt word_unat_eq_iff)
  with 0 show ?case by (simp add: cyc_dev_loop.simps [of vals count avg count acc] bslice_def)
next
  case (Suc m)
  then have True: "i < count" by (simp add: word_less_nat_alt)
  then have n: "unat (i + 1) = Suc (unat i)" "unat i < length vals" "i + 1 \<le> count"
    using Suc.prems(1) by (auto simp: unat_succ_u64 word_less_nat_alt word_le_nat_alt)
  let ?rest = "bslice (Suc (unat i)) (unat count - Suc (unat i)) vals"
  have sl: "bslice (unat i) (unat count - unat i) vals = vals ! unat i # ?rest"
    using n(2) True by (intro bslice_Cons) (simp_all add: word_less_nat_alt)
  have "cyc_dev_loop vals count avg (i + 1) acc'
      = (if acc' + deviation avg ?rest < 2 ^ 63 then ret (acc' + deviation avg ?rest) else undef)"
    if "0 \<le> acc'" "acc' < 2 ^ 63" for acc'
    using Suc.hyps(1) [of "i + 1" acc'] Suc.hyps(2) Suc.prems(1) n that by (simp add: Let_def)
  from square_step [OF Suc.prems(3,4) deviation_nonneg this] show ?case
    using True n by (simp add: cyc_dev_loop.simps [of vals count avg i acc] sl Let_def)
qed

lemma cyc_dev_measured:
  assumes "2 \<le> length vals" "length vals < 2 ^ 64"
  shows "cyc_dev_loop vals (of_nat (length vals)) avg first_result 0
    = (if deviation avg (measured vals) < 2 ^ 63 then ret (deviation avg (measured vals)) else undef)"
proof -
  have n: "unat (of_nat (length vals) :: u64) = length vals" using assms(2) by (simp add: unat_of_nat)
  with assms(1) have "2 \<le> (of_nat (length vals) :: u64)" by (simp add: word_le_nat_alt)
  with cyc_dev_loop_eq [of "of_nat (length vals)" vals 2 0] n show ?thesis
    by (simp add: bslice_def measured_def Let_def)
qed

lemma unat_of_int_nonneg: "0 \<le> s \<Longrightarrow> s < 2 ^ 64 \<Longrightarrow> unat (of_int s :: u64) = nat s"
  by (simp add: unsigned_of_int take_bit_int_eq_self)

lemma cyc_stddev_measured:
  fixes avg :: u64
  assumes "2 < length vals" "length vals < 2 ^ 64"
  defines "S \<equiv> deviation avg (measured vals)"
  shows "cyc_stddev vals (of_nat (length vals)) avg =
    (if S < 2 ^ 63 then ret (of_nat (sqrt_double (to_double (nat S div length (measured vals))))) else undef)"
proof -
  let ?d = "of_nat (length vals) - first_result"
  have d: "unat ?d = length (measured vals)" using assms(1,2) by (intro count_measured) auto
  with assms(1) have "?d \<noteq> 0" by (auto simp: measured_def)
  moreover have "unat (of_int S div ?d) = nat S div length (measured vals)" if "S < 2 ^ 63"
    using that d deviation_nonneg [of avg "measured vals"] unat_of_int_nonneg [of S]
    by (simp add: unat_div S_def)
  ultimately show ?thesis
    using cyc_dev_measured [of vals avg] assms(1,2) by (simp add: cyc_stddev_def S_def)
qed

section \<open>Reports\<close>

text \<open>
  The line most programs end with,
  \<^verbatim>\<open>printf(..., average, stddev(times, count, average))\<close> with \<^verbatim>\<open>average = avg(times, count)\<close>.
\<close>

definition cyc_report :: "u64 list \<Rightarrow> u64 \<Rightarrow> (u64 \<times> u64) result" where
  "cyc_report vals count =
     rbind (cyc_avg vals count) (\<lambda>average.
     rbind (cyc_stddev vals count average) (\<lambda>dev. ret (average, dev)))"

text \<open>The figures such a line is meant to show: mean and deviation of what is measured.\<close>

definition mean_of :: "u64 list \<Rightarrow> u64" where
  "mean_of ms = of_nat (sum_list (map unat ms) div length ms)"

definition stddev_of :: "u64 list \<Rightarrow> u64" where
  "stddev_of ms = of_nat (sqrt_double (to_double (nat (deviation (mean_of ms) ms) div length ms)))"

text \<open>The conditions under which they are shown.\<close>

definition in_range :: "u64 list \<Rightarrow> bool" where
  "in_range ms \<longleftrightarrow> sum_list (map unat ms) < 2 ^ 64 \<and> deviation (mean_of ms) ms < 2 ^ 63"

lemma cyc_report_measured:
  assumes "2 < length vals" "length vals < 2 ^ 64" "in_range (measured vals)"
  shows "cyc_report vals (of_nat (length vals)) = ret (mean_of (measured vals), stddev_of (measured vals))"
  using cyc_avg_measured [of vals] cyc_stddev_measured [of vals "mean_of (measured vals)"] assms
  by (simp add: cyc_report_def mean_of_def stddev_of_def in_range_def)

text \<open>Measurements that are all the same.\<close>

lemma sum_unat_replicate: "sum_list (map unat (replicate n (x :: u64))) = n * unat x"
  by (simp add: sum_list_replicate)

lemma deviation_replicate: "deviation x (replicate n x) = 0"
  by (induction n) simp_all

lemma report_replicate:
  assumes "0 < n"
  shows "mean_of (replicate n x) = x" "stddev_of (replicate n x) = 0"
    "n * unat x < 2 ^ 64 \<Longrightarrow> in_range (replicate n x)"
proof -
  have "sum_list (map unat (replicate n x)) div n = unat x" using assms by (simp only: sum_unat_replicate) simp
  then show mean: "mean_of (replicate n x) = x" by (simp add: mean_of_def)
  show "stddev_of (replicate n x) = 0"
    by (simp add: stddev_of_def mean deviation_replicate to_double_small sqrt_double_small isqrt.simps)
  show "n * unat x < 2 ^ 64 \<Longrightarrow> in_range (replicate n x)"
    by (simp only: in_range_def mean deviation_replicate sum_unat_replicate) simp
qed

text \<open>Only the beginning of an array counts.\<close>

lemma cyc_avg_prefix:
  fixes xs rest :: "u64 list"
  assumes "length (xs @ rest) < 2 ^ 64" "2 < length xs" "sum_list (map unat (measured xs)) < 2 ^ 64"
  shows "cyc_avg (xs @ rest) (of_nat (length xs))
    = ret (of_nat (sum_list (map unat (measured xs)) div length (measured xs)))"
proof -
  have n: "unat (of_nat (length xs) :: u64) = length xs" using assms(1) by (simp add: unat_of_nat)
  with assms(2) have "2 \<le> (of_nat (length xs) :: u64)" by (simp add: word_le_nat_alt)
  then have "cyc_sum (xs @ rest) (of_nat (length xs)) = cyc_sum xs (of_nat (length xs))"
    using n assms(2) cyc_sum_loop_eq [of "of_nat (length xs)" "xs @ rest" 2 0]
      cyc_sum_loop_eq [of "of_nat (length xs)" xs 2 0] by (simp add: cyc_sum_def bslice_def)
  with cyc_avg_measured [of xs] assms show ?thesis by (simp add: cyc_avg_def)
qed

lemma cyc_stddev_prefix:
  fixes xs rest :: "u64 list"
  assumes "length (xs @ rest) < 2 ^ 64" "2 < length xs"
  shows "cyc_stddev (xs @ rest) (of_nat (length xs)) avg = cyc_stddev xs (of_nat (length xs)) avg"
proof -
  have n: "unat (of_nat (length xs) :: u64) = length xs" using assms(1) by (simp add: unat_of_nat)
  with assms(2) have "2 \<le> (of_nat (length xs) :: u64)" by (simp add: word_le_nat_alt)
  then have "cyc_dev_loop (xs @ rest) (of_nat (length xs)) avg 2 0 = cyc_dev_loop xs (of_nat (length xs)) avg 2 0"
    using n assms(2) cyc_dev_loop_eq [of "of_nat (length xs)" "xs @ rest" 2 0 avg]
      cyc_dev_loop_eq [of "of_nat (length xs)" xs 2 0 avg] by (simp add: bslice_def)
  then show ?thesis by (simp add: cyc_stddev_def)
qed

lemma cyc_report_prefix:
  fixes xs rest :: "u64 list"
  assumes "length (xs @ rest) < 2 ^ 64" "2 < length xs" "in_range (measured xs)"
  shows "cyc_report (xs @ rest) (of_nat (length xs)) = ret (mean_of (measured xs), stddev_of (measured xs))"
  using cyc_avg_prefix [of xs rest] cyc_stddev_prefix [of xs rest "mean_of (measured xs)"]
    cyc_stddev_measured [of xs "mean_of (measured xs)"] assms
  by (simp add: cyc_report_def mean_of_def stddev_of_def in_range_def)

section \<open>The busy loop\<close>

lemma compute_loop_eq: "compute_loop n k = k + (if n = 0 then 2 ^ 64 else unat n)"
proof -
  have pos: "compute_loop n k = k + unat n" if "0 < n" for n k
    using that
  proof (induction n k rule: compute_loop.induct)
    case (1 n k)
    show ?case
    proof (cases "n - 1 = 0")
      case True
      then have "n = 1" by simp
      then show ?thesis by (simp add: compute_loop.simps [of 1 k])
    next
      case False
      with "1.IH" [OF False] "1.prems" show ?thesis
        using unat_pred_u64 [of n] unat_gt_0 [of n]
        by (simp add: compute_loop.simps [of n k] word_gt_0)
    qed
  qed
  have "compute_loop 0 k = compute_loop (-1) (Suc k)" by (simp add: compute_loop.simps [of 0 k])
  with pos [of "-1" "Suc k"] pos [of n k] show ?thesis
    by (auto simp: word_gt_0 unsigned_minus_1_eq_mask mask_eq_exp_minus_1)
qed

section \<open>Properties\<close>

text \<open>
  C21: the statistics. Over an array of at least three measurements \<open>avg\<close> is the mean,
  rounded down, of all but the first two if their sum fits into 64 bits; with two
  measurements it divides by zero, with fewer the divisor wraps around and the result is 0.
  \<open>stddev\<close> has no undefined behaviour exactly when the sum of the squared deviations fits
  into \<open>long long\<close> (one measurement that is 3.1e9 cycles off is too much), and then
  returns the square root of the mean square as \<open>double\<close> arithmetic gives it; below
  \<open>2 ^ 52\<close> that is the integer square root. Neither reads outside the array.
\<close>

theorem mean_and_deviation:
  fixes avg :: u64
  assumes "2 < length vals" "length vals < 2 ^ 64"
  defines "ms \<equiv> measured vals" and "dev \<equiv> deviation avg (measured vals)"
  shows "(sum_list (map unat ms) < 2 ^ 64 \<longrightarrow>
         cyc_avg vals (of_nat (length vals)) = ret (of_nat (sum_list (map unat ms) div length ms)))
    \<and> cyc_avg vals 2 = undef \<and> cyc_avg vals 1 = ret 0 \<and> cyc_avg vals 0 = ret 0
    \<and> cyc_stddev vals (of_nat (length vals)) avg =
        (if dev < 2 ^ 63 then ret (of_nat (sqrt_double (to_double (nat dev div length ms)))) else undef)
    \<and> (nat dev div length ms < 2 ^ 52 \<longrightarrow>
         sqrt_double (to_double (nat dev div length ms)) = isqrt (nat dev div length ms))"
  using cyc_avg_measured [OF assms(1,2)] cyc_stddev_measured [OF assms(1,2), of avg] to_double_small sqrt_double_small
  by (simp add: ms_def dev_def cyc_avg_def cyc_sum_def cyc_sum_loop.simps)

theorem mean_and_deviation_witness:
  "cyc_avg [900, 800, 10, 13, 12] (of_nat (length [900, 800, 10, 13, 12 :: u64])) = ret 11
   \<and> cyc_avg [900, 800, 10, 13, 12] 2 = undef
   \<and> cyc_stddev [900, 800, 10, 13, 12] (of_nat (length [900, 800, 10, 13, 12 :: u64])) 11 = ret (of_nat (isqrt 2))
   \<and> cyc_stddev [900, 800, 3100000000, 0, 0] (of_nat (length [900, 800, 3100000000, 0, 0 :: u64])) 0 = undef"
  using mean_and_deviation [of "[900, 800, 10, 13, 12]" 11] mean_and_deviation [of "[900, 800, 3100000000, 0, 0]" 0]
  by (simp add: measured_def deviation_def)

text \<open>
  The busy loop: \<open>compute\<close> runs its loop once for every two cycles asked for, and
  \<open>2 ^ 64\<close> times when less than two are asked for.
\<close>

lemma compute_iterations:
  "compute cycles = (if cycles < 2 then 2 ^ 64 else unat cycles div 2)"
proof -
  have "unat (cycles div 2) = unat cycles div 2" by (simp add: unat_div)
  moreover have "cycles div 2 = 0 \<longleftrightarrow> unat cycles div 2 = 0"
    using calculation by (simp add: word_unat_eq_iff)
  ultimately show ?thesis by (auto simp: compute_def compute_loop_eq word_less_nat_alt)
qed

end
