(* ===== verification/Platform.thy ===== *)
theory Platform
  imports Stats
begin

text \<open>
  What the programs ask of the machine below them: the \<^verbatim>\<open>gem5\<close> pseudo instructions of
  \<^verbatim>\<open>include/common.h\<close> as the bytes and registers they consist of, on both instruction
  sets, the RISC-V cycle counter of \<^verbatim>\<open>include/cycles.h\<close>, and the wrappers of the system
  calls of the patched kernel in \<^verbatim>\<open>include/smemcpy.h\<close> and \<^verbatim>\<open>include/sysctrace.h\<close>.
\<close>

section \<open>gem5 pseudo instructions\<close>

datatype isa = X86_64 | RISCV64

text \<open>The bytes of an instruction and the argument registers it is executed with.\<close>

datatype instr = Instr bytes "(string \<times> u64) list"

text \<open>\<^verbatim>\<open>.byte 0x0F, 0x04\<close> and \<^verbatim>\<open>.word\<close>; \<^verbatim>\<open>.long\<close>: both assemblers write the low byte first.\<close>

definition asm_word :: "nat \<Rightarrow> bytes" where
  "asm_word n = rev (be_bytes 2 n)"

definition asm_long :: "nat \<Rightarrow> bytes" where
  "asm_long n = rev (be_bytes 4 n)"

definition gem5_resetstats :: "isa \<Rightarrow> instr" where
  "gem5_resetstats m =
     (case m of
        X86_64 \<Rightarrow> Instr ([0x0F, 0x04] @ asm_word 0x40) [(''rdi'', 0), (''rsi'', 0)]
      | RISCV64 \<Rightarrow> Instr (asm_long 0x8000007B) [(''a0'', 0), (''a1'', 0)])"

definition gem5_dumpstats :: "isa \<Rightarrow> instr" where
  "gem5_dumpstats m =
     (case m of
        X86_64 \<Rightarrow> Instr ([0x0F, 0x04] @ asm_word 0x41) [(''rdi'', 0), (''rsi'', 0)]
      | RISCV64 \<Rightarrow> Instr (asm_long 0x8100007B) [(''a0'', 0), (''a1'', 0)])"

text \<open>\<open>sim\<close> is what the simulator leaves in the result register.\<close>

definition gem5_debug :: "isa \<Rightarrow> u64 \<Rightarrow> (instr \<Rightarrow> u64) \<Rightarrow> instr \<times> u64" where
  "gem5_debug m msg sim =
     (let i = (case m of
                 X86_64 \<Rightarrow> Instr ([0x0F, 0x04] @ asm_word 0x63) [(''rdi'', msg)]
               | RISCV64 \<Rightarrow> Instr (asm_long 0xC600007B) [(''a0'', msg)])
      in (i, sim i))"

text \<open>
  The function a simulated machine executes, as both instruction formats encode it: the
  word behind \<^verbatim>\<open>0F 04\<close> on x86, the seven bits from bit 25 on of an instruction with the
  opcode \<^verbatim>\<open>7B\<close> on RISC-V, which the programs' own use of 0x40 and 0x63 in both formats
  shows.
\<close>

definition pseudo_op :: "isa \<Rightarrow> instr \<Rightarrow> nat option" where
  "pseudo_op m i =
     (case i of Instr bs _ \<Rightarrow>
        (case m of
           X86_64 \<Rightarrow> if length bs = 4 \<and> take 2 bs = [0x0F, 0x04] then Some (be_nat (rev (drop 2 bs))) else None
         | RISCV64 \<Rightarrow> if length bs = 4 \<and> hd bs = 0x7B then Some (be_nat (rev bs) div 2 ^ 25) else None))"

text \<open>
  The RISC-V version of \<open>gem5_dumpstats\<close> has the function of \<open>gem5_resetstats\<close>: where the
  x86 program dumps its statistics the RISC-V program resets them.
\<close>

lemma pseudo_ops:
  "pseudo_op m (gem5_resetstats m) = Some 0x40"
  "pseudo_op m (gem5_dumpstats m) = Some (if m = X86_64 then 0x41 else 0x40)"
  "pseudo_op m (fst (gem5_debug m msg sim)) = Some 0x63"
  by (cases m; simp add: pseudo_op_def gem5_resetstats_def gem5_dumpstats_def gem5_debug_def asm_word_def asm_long_def
      be_bytes_numeral be_nat_def Let_def)+

section \<open>Cycle counter on RISC-V\<close>

definition get_cycles_riscv :: "u64 \<Rightarrow> u64" where
  "get_cycles_riscv rdcycle = rdcycle"

section \<open>System calls of the patched kernel\<close>

text \<open>
  A call with its number and the values passed; pointers are \<open>Ptr\<close> with the name of the
  object they point to.
\<close>

datatype sys_arg = Val u64 | Ptr string

datatype sys_call = Sys_Call u64 "sys_arg list"

abbreviation (input) SYS_SMEMCPY :: u64 where "SYS_SMEMCPY \<equiv> 0"
abbreviation (input) SYS_SYSCRESET :: u64 where "SYS_SYSCRESET \<equiv> 442"
abbreviation (input) SYS_SYSCTRACE :: u64 where "SYS_SYSCTRACE \<equiv> 443"

text \<open>
  \<open>smemcpy\<close> returns a local variable that only the kernel writes. \<open>kern\<close> gives, for a
  call, what is written to the cycles and to the byte count, \<open>None\<close> for an object that is
  left alone (any kernel without the patch). The result: the call, the value returned, and
  what is written behind \<open>bytes\<close>, \<open>None\<close> for indeterminate values. Discarding one is
  harmless; the programs that print one are \<open>undef\<close>.
\<close>

definition smemcpy :: "(sys_call \<Rightarrow> u64 option \<times> u64 option) \<Rightarrow> string option \<Rightarrow> sys_call \<times> u64 option \<times> u64 option" where
  "smemcpy kern bytes =
     (let c = Sys_Call SYS_SMEMCPY [Ptr ''cycles'', (case bytes of None \<Rightarrow> Val 0 | Some p \<Rightarrow> Ptr p)];
          (cycles, b) = kern c
      in (c, cycles, if bytes = None then None else b))"

text \<open>A kernel with the patch writes both numbers whenever it is given somewhere to write them.\<close>

definition patched :: "(sys_call \<Rightarrow> u64 option \<times> u64 option) \<Rightarrow> u64 \<Rightarrow> u64 \<Rightarrow> bool" where
  "patched kern cycles copied \<longleftrightarrow> (\<forall>c. kern c = (Some cycles, Some copied))"

lemma smemcpy_patched:
  "patched kern cycles copied \<Longrightarrow>
   smemcpy kern (Some p) = (Sys_Call 0 [Ptr ''cycles'', Ptr p], Some cycles, Some copied)"
  "patched kern cycles copied \<Longrightarrow> smemcpy kern None = (Sys_Call 0 [Ptr ''cycles'', Val 0], Some cycles, None)"
  by (simp_all add: smemcpy_def patched_def)

lemma smemcpy_unpatched: "(\<And>c. kern c = (None, None)) \<Longrightarrow> fst (snd (smemcpy kern b)) = None \<and> snd (snd (smemcpy kern b)) = None"
  by (simp add: smemcpy_def)

definition syscreset :: "int \<Rightarrow> sys_call" where
  "syscreset pid = Sys_Call SYS_SYSCRESET [Val (of_int pid), Val 0]"

definition sysctrace :: sys_call where
  "sysctrace = Sys_Call SYS_SYSCTRACE [Val 0, Val 0]"

end
