(* ===== verification/Memcpy.thy ===== *)
theory Memcpy
  imports Platform
begin

text \<open>
  The copy routine of \<^verbatim>\<open>apps/memcpy/memcpy.c\<close> on a flat memory of bytes: the four
  loops of \<open>my_memcpy\<close> (bytes up to a word boundary, eight words at a time, single words,
  the remaining bytes) and the benchmark's \<open>main\<close>. A word is its eight bytes in memory
  order, so nothing depends on the byte order of the machine. The theorems: the routine
  is the plain forward byte copy for all arguments, overlapping ones included, and so a
  copy of the block wherever a forward copy is one.
\<close>

section \<open>Memory\<close>

type_synonym mem = "u64 \<Rightarrow> u8"

definition copy_byte :: "mem \<Rightarrow> u64 \<Rightarrow> u64 \<Rightarrow> mem" where
  "copy_byte m dst src = m(dst := m src)"

definition load_word :: "mem \<Rightarrow> u64 \<Rightarrow> u8 list" where
  "load_word m a = [m a, m (a + 1), m (a + 2), m (a + 3), m (a + 4), m (a + 5), m (a + 6), m (a + 7)]"

fun store_bytes :: "mem \<Rightarrow> u64 \<Rightarrow> u8 list \<Rightarrow> mem" where
  "store_bytes m a [] = m"
| "store_bytes m a (b # bs) = store_bytes (m(a := b)) (a + 1) bs"

definition copy_word :: "mem \<Rightarrow> u64 \<Rightarrow> u64 \<Rightarrow> mem" where
  "copy_word m dst src = store_bytes m dst (load_word m src)"

section \<open>The loops\<close>

text \<open>Each returns the memory, the two pointers and the length that is left.\<close>

function align_loop :: "mem \<Rightarrow> u64 \<Rightarrow> u64 \<Rightarrow> u64 \<Rightarrow> mem \<times> u64 \<times> u64 \<times> u64" where
  "align_loop m dst src len =
     (if len > 0 \<and> dst mod 8 \<noteq> 0 then align_loop (copy_byte m dst src) (dst + 1) (src + 1) (len - 1)
      else (m, dst, src, len))"
  by pat_completeness auto
termination
  by (relation "measure (\<lambda>(m, dst, src, len). unat len)") (auto simp: unat_pred_u64 unat_gt_0 word_gt_0)

function unrolled_loop :: "mem \<Rightarrow> u64 \<Rightarrow> u64 \<Rightarrow> u64 \<Rightarrow> mem \<times> u64 \<times> u64 \<times> u64" where
  "unrolled_loop m dst src len =
     (if len \<ge> 64 then
        let m0 = copy_word m dst src;
            m1 = copy_word m0 (dst + 8) (src + 8);
            m2 = copy_word m1 (dst + 16) (src + 16);
            m3 = copy_word m2 (dst + 24) (src + 24);
            m4 = copy_word m3 (dst + 32) (src + 32);
            m5 = copy_word m4 (dst + 40) (src + 40);
            m6 = copy_word m5 (dst + 48) (src + 48);
            m7 = copy_word m6 (dst + 56) (src + 56)
        in unrolled_loop m7 (dst + 64) (src + 64) (len - 64)
      else (m, dst, src, len))"
  by pat_completeness auto
termination
  by (relation "measure (\<lambda>(m, dst, src, len). unat len)") (auto simp: unat_sub word_le_nat_alt)

function word_loop :: "mem \<Rightarrow> u64 \<Rightarrow> u64 \<Rightarrow> u64 \<Rightarrow> mem \<times> u64 \<times> u64 \<times> u64" where
  "word_loop m dst src len =
     (if len \<ge> 8 then word_loop (copy_word m dst src) (dst + 8) (src + 8) (len - 8)
      else (m, dst, src, len))"
  by pat_completeness auto
termination
  by (relation "measure (\<lambda>(m, dst, src, len). unat len)") (auto simp: unat_sub word_le_nat_alt)

function byte_loop :: "mem \<Rightarrow> u64 \<Rightarrow> u64 \<Rightarrow> u64 \<Rightarrow> mem" where
  "byte_loop m dst src len =
     (if len > 0 then byte_loop (copy_byte m dst src) (dst + 1) (src + 1) (len - 1) else m)"
  by pat_completeness auto
termination
  by (relation "measure (\<lambda>(m, dst, src, len). unat len)") (auto simp: unat_pred_u64 unat_gt_0 word_gt_0)

declare align_loop.simps [simp del] unrolled_loop.simps [simp del] word_loop.simps [simp del]
  byte_loop.simps [simp del]

definition my_memcpy :: "mem \<Rightarrow> u64 \<Rightarrow> u64 \<Rightarrow> u64 \<Rightarrow> mem" where
  "my_memcpy m dst src len =
     (let (m, bdst, bsrc, len) =
        (if dst mod 8 = src mod 8 then
           let (m1, d1, s1, l1) = align_loop m dst src len;
               (m2, d2, s2, l2) = unrolled_loop m1 d1 s1 l1
           in word_loop m2 d2 s2 l2
         else (m, dst, src, len))
      in byte_loop m bdst bsrc len)"

text \<open>A round over the 256 pages of \<open>out\<close>, each copied to \<open>in\<close>.\<close>

datatype memcpy_event = Gem5 instr | Clock u64 | Copied u64 u64 u64 | Copy_Time u64

definition copy_round :: "u64 \<Rightarrow> u64 \<Rightarrow> mem \<times> memcpy_event list \<Rightarrow> mem \<times> memcpy_event list" where
  "copy_round in_buf out_buf s =
     fold (\<lambda>i (m, log). (my_memcpy m in_buf (out_buf + of_nat i * 4096) 4096,
                         log @ [Copied in_buf (out_buf + of_nat i * 4096) 4096])) [0..<256] s"

text \<open>
  \<open>main\<close>: three rounds, each between the clock readings and the instructions for the
  simulator and with its time printed. The arguments are the instruction set, the clock
  readings of the rounds and the two results of \<open>malloc\<close>, which are not checked.
\<close>

definition memcpy_main ::
  "isa \<Rightarrow> (nat \<Rightarrow> u64 \<times> u64) \<Rightarrow> u64 \<Rightarrow> u64 \<Rightarrow> mem \<Rightarrow> (mem \<times> memcpy_event list) result"
where
  "memcpy_main machine clk in_buf out_buf m =
     (if in_buf = 0 \<or> out_buf = 0 then undef
      else ret (fold (\<lambda>i (m, log).
             let (start, stop) = clk i;
                 (m', log') = copy_round in_buf out_buf (m, log @ [Gem5 (gem5_resetstats machine), Clock start])
             in (m', log' @ [Clock stop, Gem5 (gem5_dumpstats machine), Copy_Time (stop - start)])) [0..<3] (m, [])))"

section \<open>The forward byte copy\<close>

fun byte_copy :: "mem \<Rightarrow> u64 \<Rightarrow> u64 \<Rightarrow> nat \<Rightarrow> mem" where
  "byte_copy m dst src 0 = m"
| "byte_copy m dst src (Suc n) = byte_copy (copy_byte m dst src) (dst + 1) (src + 1) n"

lemma byte_copy_add:
  "byte_copy m dst src (a + b) = byte_copy (byte_copy m dst src a) (dst + of_nat a) (src + of_nat a) b"
  by (induction a arbitrary: m dst src) (simp_all add: add.assoc)

lemma byte_loop_eq: "byte_loop m dst src len = byte_copy m dst src (unat len)"
proof (induction m dst src len rule: byte_loop.induct)
  case (1 m dst src len)
  show ?case
  proof (cases "len > 0")
    case True
    then have "unat len = Suc (unat (len - 1))" by (simp add: unat_pred_u64 unat_gt_0 word_gt_0)
    with 1 True show ?thesis by (simp add: byte_loop.simps [of m dst src len])
  qed (simp add: byte_loop.simps [of m dst src 0] word_gt_0)
qed

text \<open>
  A word copy is eight byte copies when the two addresses differ by a multiple of eight:
  then no byte of the source is written before it is read.
\<close>

lemma unat_add_mod8: "unat (d + of_nat j :: u64) mod 8 = (unat d + j) mod 8"
proof -
  have "unat (d + of_nat j) = (unat d + j) mod 2 ^ 64"
    by (simp add: unat_word_ariths unat_of_nat mod_simps)
  moreover have "(8 :: nat) dvd 2 ^ 64" by simp
  ultimately show ?thesis by (simp only: mod_mod_cancel)
qed

lemma mod8_cancel:
  assumes "(a + j) mod 8 = (a + k) mod (8 :: nat)" "j < 8" "k < 8"
  shows "j = k"
proof -
  have "int ((a + j) mod 8) = int ((a + k) mod 8)" by (simp only: assms(1))
  then have "(int a + int j) mod 8 = (int a + int k) mod 8" by (simp only: zmod_int of_nat_add of_nat_numeral)
  then have "8 dvd int j - int k" by (simp add: mod_eq_dvd_iff)
  with assms(2,3) show ?thesis by presburger
qed

lemma aligned_apart:
  fixes d s :: u64
  assumes "d mod 8 = s mod 8" "d + of_nat j = s + of_nat k" "j < 8" "k < 8"
  shows "j = k"
proof -
  have "unat d mod 8 = unat s mod 8" using arg_cong [OF assms(1), of unat] by (simp add: unat_mod)
  then have "(unat s + j) mod 8 = (unat d + j) mod 8" by (rule mod_add_cong [OF sym refl])
  also have "\<dots> = (unat s + k) mod 8" using unat_add_mod8 [of d j] unat_add_mod8 [of s k] assms(2) by simp
  finally show ?thesis using assms(3,4) by (rule mod8_cancel)
qed

lemma store_bytes_snoc: "store_bytes m a (xs @ [b]) = (store_bytes m a xs)(a + of_nat (length xs) := b)"
  by (induction xs arbitrary: m a) (simp_all add: add.assoc)

lemma byte_copy_snoc:
  "byte_copy m dst src (Suc n) = copy_byte (byte_copy m dst src n) (dst + of_nat n) (src + of_nat n)"
  using byte_copy_add [of m dst src n 1] by simp

lemma byte_copy_other: "(\<And>j. j < n \<Longrightarrow> a \<noteq> dst + of_nat j) \<Longrightarrow> byte_copy m dst src n a = m a"
  by (induction n) (simp_all add: byte_copy_snoc copy_byte_def del: byte_copy.simps(2))

lemma store_bytes_copy:
  assumes "\<And>j k. j < k \<Longrightarrow> k < n \<Longrightarrow> dst + of_nat j \<noteq> src + of_nat k"
  shows "store_bytes m dst (map (\<lambda>i. m (src + of_nat i)) [0..<n]) = byte_copy m dst src n"
  using assms
proof (induction n)
  case (Suc n)
  have "byte_copy m dst src n (src + of_nat n) = m (src + of_nat n)"
    by (rule byte_copy_other) (use Suc.prems [OF _ lessI] in metis)
  with Suc show ?case
    by (simp add: store_bytes_snoc byte_copy_snoc copy_byte_def del: byte_copy.simps(2))
qed simp

lemma copy_word_eq:
  assumes "dst mod 8 = src mod 8"
  shows "copy_word m dst src = byte_copy m dst src 8"
proof -
  have "load_word m src = map (\<lambda>i. m (src + of_nat i)) [0..<8]" by (simp add: load_word_def upt_rec)
  moreover have "dst + of_nat j \<noteq> src + of_nat k" if "j < k" "k < 8" for j k
    using aligned_apart [OF assms, of j k] that by auto
  ultimately show ?thesis by (simp add: copy_word_def store_bytes_copy)
qed

lemma aligned_add:
  fixes d s :: u64
  assumes "d mod 8 = s mod 8"
  shows "(d + of_nat j) mod 8 = (s + of_nat j) mod 8"
proof -
  have "unat d mod 8 = unat s mod 8" using arg_cong [OF assms, of unat] by (simp add: unat_mod)
  then have "(unat d + j) mod 8 = (unat s + j) mod 8" by (rule mod_add_cong [OF _ refl])
  then have "unat (d + of_nat j) mod 8 = unat (s + of_nat j) mod 8" by (simp only: unat_add_mod8)
  then show ?thesis by (simp add: word_unat_eq_iff unat_mod)
qed

lemma copy_words_eq:
  assumes "dst mod 8 = src mod 8"
  shows "copy_word (byte_copy m dst src n) (dst + of_nat n) (src + of_nat n) = byte_copy m dst src (n + 8)"
  by (simp only: copy_word_eq [OF aligned_add [OF assms]] byte_copy_add)

text \<open>What a loop leaves to do: \<open>k\<close> bytes are copied, the state moves on by \<open>k\<close>.\<close>

definition advanced :: "mem \<Rightarrow> u64 \<Rightarrow> u64 \<Rightarrow> u64 \<Rightarrow> nat \<Rightarrow> mem \<times> u64 \<times> u64 \<times> u64" where
  "advanced m dst src len k = (byte_copy m dst src k, dst + of_nat k, src + of_nat k, len - of_nat k)"

lemma advanced_advanced:
  "advanced m dst src len a = (m', d', s', l') \<Longrightarrow> advanced m' d' s' l' b = advanced m dst src len (a + b)"
  by (auto simp: advanced_def byte_copy_add ac_simps)

lemma unat_sub_of_nat: "k \<le> unat len \<Longrightarrow> unat (len - of_nat k :: u64) = unat len - k"
proof -
  assume k: "k \<le> unat len"
  then have "k < 2 ^ 64" using unat_u64_less [of len] by simp
  then have "unat (of_nat k :: u64) = k" by (simp add: unat_of_nat)
  with k show ?thesis by (simp add: unat_sub word_le_nat_alt)
qed

lemma align_loop_advances: "\<exists>k \<le> unat len. align_loop m dst src len = advanced m dst src len k"
proof (induction m dst src len rule: align_loop.induct)
  case (1 m dst src len)
  show ?case
  proof (cases "len > 0 \<and> dst mod 8 \<noteq> 0")
    case True
    then have len: "unat len = Suc (unat (len - 1))" by (simp add: unat_pred_u64 unat_gt_0 word_gt_0)
    obtain k where "k \<le> unat (len - 1)"
      "align_loop (copy_byte m dst src) (dst + 1) (src + 1) (len - 1)
        = advanced (copy_byte m dst src) (dst + 1) (src + 1) (len - 1) k"
      using "1.IH" [OF True] by blast
    with True len show ?thesis
      by (intro exI [of _ "Suc k"]) (simp add: align_loop.simps [of m dst src len] advanced_def ac_simps)
  next
    case False
    then show ?thesis
      by (intro exI [of _ 0]) (auto simp: align_loop.simps [of m dst src len] advanced_def)
  qed
qed

lemma word_loop_advances:
  "dst mod 8 = src mod 8 \<Longrightarrow> \<exists>k \<le> unat len. word_loop m dst src len = advanced m dst src len k"
proof (induction m dst src len rule: word_loop.induct)
  case (1 m dst src len)
  show ?case
  proof (cases "len \<ge> 8")
    case True
    then have len: "unat len = unat (len - 8) + 8" by (simp add: unat_sub word_le_nat_alt)
    have al: "(dst + 8) mod 8 = (src + 8) mod 8" using aligned_add [OF "1.prems", of 8] by simp
    obtain k where k: "k \<le> unat (len - 8)"
      "word_loop (copy_word m dst src) (dst + 8) (src + 8) (len - 8)
        = advanced (copy_word m dst src) (dst + 8) (src + 8) (len - 8) k"
      using "1.IH" [OF True al] by blast
    have "word_loop m dst src len = advanced m dst src len (8 + k)"
      using True k advanced_advanced [of m dst src len 8 "copy_word m dst src" "dst + 8" "src + 8" "len - 8" k]
        copy_word_eq [OF "1.prems", of m]
      by (simp add: word_loop.simps [of m dst src len] advanced_def)
    with len k show ?thesis by (intro exI [of _ "8 + k"]) simp
  next
    case False
    then show ?thesis
      by (intro exI [of _ 0]) (simp add: word_loop.simps [of m dst src len] advanced_def)
  qed
qed

lemma unrolled_step:
  assumes "dst mod 8 = src mod 8"
  shows "(let m0 = copy_word m dst src;
              m1 = copy_word m0 (dst + 8) (src + 8);
              m2 = copy_word m1 (dst + 16) (src + 16);
              m3 = copy_word m2 (dst + 24) (src + 24);
              m4 = copy_word m3 (dst + 32) (src + 32);
              m5 = copy_word m4 (dst + 40) (src + 40);
              m6 = copy_word m5 (dst + 48) (src + 48);
              m7 = copy_word m6 (dst + 56) (src + 56)
          in f m7) = f (byte_copy m dst src 64)"
  using copy_word_eq [OF assms, of m] copy_words_eq [OF assms, of m 8] copy_words_eq [OF assms, of m 16]
    copy_words_eq [OF assms, of m 24] copy_words_eq [OF assms, of m 32] copy_words_eq [OF assms, of m 40]
    copy_words_eq [OF assms, of m 48] copy_words_eq [OF assms, of m 56]
  by (simp add: Let_def)

lemma unrolled_loop_advances:
  "dst mod 8 = src mod 8 \<Longrightarrow> \<exists>k \<le> unat len. unrolled_loop m dst src len = advanced m dst src len k"
proof (induction m dst src len rule: unrolled_loop.induct)
  case (1 m dst src len)
  show ?case
  proof (cases "len \<ge> 64")
    case True
    let ?m = "byte_copy m dst src 64"
    from True have len: "unat len = unat (len - 64) + 64" by (simp add: unat_sub word_le_nat_alt)
    have al: "(dst + 64) mod 8 = (src + 64) mod 8" using aligned_add [OF "1.prems", of 64] by simp
    obtain k where k: "k \<le> unat (len - 64)"
      "unrolled_loop ?m (dst + 64) (src + 64) (len - 64) = advanced ?m (dst + 64) (src + 64) (len - 64) k"
      using "1.IH" [OF True refl refl refl refl refl refl refl refl al] unrolled_step [OF "1.prems", of m "\<lambda>x. x"]
      by (auto simp: Let_def)
    have "unrolled_loop m dst src len = unrolled_loop ?m (dst + 64) (src + 64) (len - 64)"
      using True unrolled_step [OF "1.prems", of m "\<lambda>m7. unrolled_loop m7 (dst + 64) (src + 64) (len - 64)"]
      by (simp only: unrolled_loop.simps [of m dst src len] if_True)
    also have "\<dots> = advanced m dst src len (64 + k)"
      using k advanced_advanced [of m dst src len 64 ?m "dst + 64" "src + 64" "len - 64" k]
      by (simp add: advanced_def)
    finally show ?thesis using len k by (intro exI [of _ "64 + k"]) simp
  next
    case False
    then show ?thesis
      by (intro exI [of _ 0]) (simp add: unrolled_loop.simps [of m dst src len] advanced_def)
  qed
qed

lemma my_memcpy_byte_copy: "my_memcpy m dst src len = byte_copy m dst src (unat len)"
proof (cases "dst mod 8 = src mod 8")
  case True
  obtain a where a: "a \<le> unat len" "align_loop m dst src len = advanced m dst src len a"
    using align_loop_advances by blast
  obtain m1 d1 s1 l1 where 1: "advanced m dst src len a = (m1, d1, s1, l1)" by (metis prod_cases4)
  have al1: "d1 mod 8 = s1 mod 8" using 1 aligned_add [OF True, of a] by (simp add: advanced_def)
  obtain b where b: "b \<le> unat l1" "unrolled_loop m1 d1 s1 l1 = advanced m1 d1 s1 l1 b"
    using unrolled_loop_advances [OF al1] by blast
  obtain m2 d2 s2 l2 where 2: "advanced m1 d1 s1 l1 b = (m2, d2, s2, l2)" by (metis prod_cases4)
  have al2: "d2 mod 8 = s2 mod 8" using 2 aligned_add [OF al1, of b] by (simp add: advanced_def)
  obtain c where c: "c \<le> unat l2" "word_loop m2 d2 s2 l2 = advanced m2 d2 s2 l2 c"
    using word_loop_advances [OF al2] by blast
  have l1: "unat l1 = unat len - a" and l2: "unat l2 = unat l1 - b"
    using 1 2 a(1) b(1) by (auto simp: advanced_def unat_sub_of_nat)
  have sum: "a + b + c \<le> unat len" using a b c l1 l2 by simp
  have "advanced m2 d2 s2 l2 c = advanced m dst src len (a + b + c)"
    using advanced_advanced [OF 1, of b] advanced_advanced [of m dst src len "a + b" m2 d2 s2 l2 c] 2
    by (simp add: add.assoc)
  then have "my_memcpy m dst src len
      = (case advanced m dst src len (a + b + c) of (m, d, s, l) \<Rightarrow> byte_loop m d s l)"
    using True a b c 1 2 by (simp add: my_memcpy_def)
  also have "\<dots> = byte_copy m dst src (a + b + c + (unat len - (a + b + c)))"
    using sum by (simp only: advanced_def prod.case byte_loop_eq unat_sub_of_nat byte_copy_add)
  finally show ?thesis using sum by simp
next
  case False
  then show ?thesis by (simp add: my_memcpy_def byte_loop_eq)
qed

section \<open>Blocks\<close>

definition in_block :: "u64 \<Rightarrow> nat \<Rightarrow> u64 \<Rightarrow> bool" where
  "in_block base n a \<longleftrightarrow> unat base \<le> unat a \<and> unat a < unat base + n"

text \<open>The two blocks do not wrap around, and no byte of the source is overwritten too early.\<close>

definition copy_safe :: "u64 \<Rightarrow> u64 \<Rightarrow> nat \<Rightarrow> bool" where
  "copy_safe dst src n \<longleftrightarrow> unat dst + n \<le> 2 ^ 64 \<and> unat src + n \<le> 2 ^ 64
     \<and> (unat dst \<le> unat src \<or> unat src + n \<le> unat dst)"

lemma unat_offset: "unat (b :: u64) + n \<le> 2 ^ 64 \<Longrightarrow> j < n \<Longrightarrow> unat (b + of_nat j) = unat b + j"
  by (simp add: unat_word_ariths unat_of_nat)

lemma in_block_offset:
  assumes "unat b + n \<le> 2 ^ 64" "in_block b n a"
  shows "\<exists>j < n. a = b + of_nat j"
proof (intro exI conjI)
  show "unat a - unat b < n" using assms(2) by (auto simp: in_block_def)
  with assms show "a = b + of_nat (unat a - unat b)"
    by (simp add: word_unat_eq_iff unat_offset in_block_def)
qed

lemma byte_copy_block:
  "copy_safe dst src n \<Longrightarrow> j < n \<Longrightarrow> byte_copy m dst src n (dst + of_nat j) = m (src + of_nat j)"
proof (induction n)
  case (Suc n)
  then have safe: "copy_safe dst src n" by (auto simp: copy_safe_def)
  have off: "unat (dst + of_nat i) = unat dst + i" "unat (src + of_nat i) = unat src + i" if "i < Suc n" for i
    using Suc.prems(1) that by (auto simp: copy_safe_def intro!: unat_offset [of _ "Suc n"])
  show ?case
  proof (cases "j = n")
    case True
    have "src + of_nat n \<noteq> dst + of_nat i" if "i < n" for i
      using Suc.prems(1) off [of n] off [of i] that by (auto simp: word_unat_eq_iff copy_safe_def)
    then have "byte_copy m dst src n (src + of_nat n) = m (src + of_nat n)" by (rule byte_copy_other)
    with True show ?thesis by (simp add: byte_copy_snoc copy_byte_def del: byte_copy.simps(2))
  next
    case False
    with Suc.prems(2) have "j < n" by simp
    moreover have "dst + of_nat j \<noteq> dst + of_nat n"
      using off [of j] off [of n] \<open>j < n\<close> by (auto simp: word_unat_eq_iff)
    ultimately show ?thesis
      using Suc.IH [OF safe] by (simp add: byte_copy_snoc copy_byte_def del: byte_copy.simps(2))
  qed
qed simp

lemma byte_copy_frame:
  assumes "unat dst + n \<le> 2 ^ 64" "\<not> in_block dst n a"
  shows "byte_copy m dst src n a = m a"
  using assms by (intro byte_copy_other) (auto simp: in_block_def unat_offset)

lemma my_memcpy_block:
  assumes "copy_safe dst src (unat len)"
  shows "my_memcpy m dst src len = (\<lambda>a. if in_block dst (unat len) a then m (src + (a - dst)) else m a)"
proof
  fix a
  have d: "unat dst + unat len \<le> 2 ^ 64" using assms by (simp add: copy_safe_def)
  show "my_memcpy m dst src len a = (if in_block dst (unat len) a then m (src + (a - dst)) else m a)"
  proof (cases "in_block dst (unat len) a")
    case True
    then obtain j where j: "j < unat len" "a = dst + of_nat j" using in_block_offset [OF d] by blast
    with byte_copy_block [OF assms j(1), of m] True show ?thesis by (simp add: my_memcpy_byte_copy)
  qed (simp add: my_memcpy_byte_copy byte_copy_frame [OF d])
qed

section \<open>The benchmark\<close>

text \<open>The calls of a round, in order.\<close>

definition copy_calls :: "u64 \<Rightarrow> u64 \<Rightarrow> memcpy_event list" where
  "copy_calls in_buf out_buf = map (\<lambda>i. Copied in_buf (out_buf + of_nat i * 4096) 4096) [0..<256]"

lemma copy_round_eq:
  "copy_round in_buf out_buf (m, log)
     = (fold (\<lambda>i m. my_memcpy m in_buf (out_buf + of_nat i * 4096) 4096) [0..<256] m, log @ copy_calls in_buf out_buf)"
proof -
  have "fold (\<lambda>i (m, log). (f i m, log @ [g i])) is (m, log) = (fold f is m, log @ map g is)"
    for f :: "nat \<Rightarrow> mem \<Rightarrow> mem" and g :: "nat \<Rightarrow> memcpy_event" and "is"
    by (induction "is" arbitrary: m log) simp_all
  then show ?thesis unfolding copy_round_def copy_calls_def .
qed

lemma copy_round_block:
  assumes "unat in_buf + 4096 \<le> 2 ^ 64" "unat out_buf + 1048576 \<le> 2 ^ 64"
    "unat in_buf + 4096 \<le> unat out_buf \<or> unat out_buf + 1048576 \<le> unat in_buf"
  shows "copy_round in_buf out_buf (m, log)
    = (\<lambda>a. if in_block in_buf 4096 a then m (out_buf + 1044480 + (a - in_buf)) else m a, log @ copy_calls in_buf out_buf)"
proof -
  let ?f = "\<lambda>i m. my_memcpy m in_buf (out_buf + of_nat i * 4096) 4096"
  have off: "unat (out_buf + of_nat i * 4096) = unat out_buf + i * 4096" if "i < 256" for i
    using unat_offset [OF assms(2), of "i * 4096"] that by simp
  have safe: "copy_safe in_buf (out_buf + of_nat i * 4096) 4096" if "i < 256" for i
    using off [OF that] assms that by (auto simp: copy_safe_def)
  have page: "\<not> in_block in_buf 4096 (out_buf + of_nat i * 4096 + (a - in_buf))"
    if i: "i < 256" and a: "in_block in_buf 4096 a" for i a
  proof -
    obtain j where j: "j < 4096" "a = in_buf + of_nat j" using in_block_offset [OF assms(1) a] by blast
    have "unat (out_buf + of_nat (i * 4096 + j)) = unat out_buf + (i * 4096 + j)"
      using i j(1) by (intro unat_offset [OF assms(2)]) simp
    with j assms(3) i show ?thesis by (auto simp: in_block_def add.assoc)
  qed
  have run: "fold ?f [0..<Suc n] m
      = (\<lambda>a. if in_block in_buf 4096 a then m (out_buf + of_nat n * 4096 + (a - in_buf)) else m a)"
    if "n < 256" for n
    using that
  proof (induction n)
    case 0
    then show ?case using my_memcpy_block [of in_buf "out_buf" 4096 m] safe [of 0] by (simp cong: if_cong)
  next
    case (Suc n)
    have "fold ?f [0..<Suc (Suc n)] m = ?f (Suc n) (fold ?f [0..<Suc n] m)" by simp
    also have "\<dots> = (\<lambda>a. if in_block in_buf 4096 a
        then fold ?f [0..<Suc n] m (out_buf + of_nat (Suc n) * 4096 + (a - in_buf)) else fold ?f [0..<Suc n] m a)"
      using my_memcpy_block [of in_buf "out_buf + of_nat (Suc n) * 4096" 4096] safe [OF Suc.prems]
      by (simp del: of_nat_Suc upt_Suc)
    finally show ?case
      using Suc page [OF Suc.prems] by (auto simp: fun_eq_iff simp del: of_nat_Suc upt_Suc)
  qed
  from run [of 255] show ?thesis by (simp add: copy_round_eq del: upt_Suc cong: if_cong)
qed

section \<open>Properties\<close>

text \<open>
  C22: the optimised copy is the simple one. For every memory, addresses and length,
  aligned alike or not, overlapping or not, \<open>my_memcpy\<close> does what copying byte by byte
  in ascending order does.
\<close>

theorem memcpy_is_byte_copy: "my_memcpy m dst src len = byte_copy m dst src (unat len)"
  by (rule my_memcpy_byte_copy)

text \<open>
  C23: it copies the block. When the destination lies before the source, or the blocks
  are disjoint, and neither wraps around the address space, afterwards the destination
  holds what the source held and nothing else has changed.
\<close>

theorem memcpy_copies:
  assumes "copy_safe dst src (unat len)"
  shows "my_memcpy m dst src len = (\<lambda>a. if in_block dst (unat len) a then m (src + (a - dst)) else m a)"
  using my_memcpy_block [OF assms] .

theorem memcpy_copies_witness:
  "my_memcpy (\<lambda>a. ucast a) 5 9 100 = (\<lambda>a. if in_block 5 100 a then ucast (9 + (a - 5)) else ucast a)"
  using memcpy_copies [of 5 9 100 "\<lambda>a. ucast a"] by (simp add: copy_safe_def)

text \<open>
  C24: what the benchmark does. If both buffers could be allocated, the small one holds the
  last of the 256 pages of the large one after the three rounds, and no other byte has
  changed. Each round, in this order, resets the simulator's statistics, reads the clock,
  copies the 256 pages from the first to the last, reads the clock again, executes the
  instruction that is meant to dump the statistics (on RISC-V it has the function 0x40,
  which resets) and prints the difference of the two readings. A failed allocation is not
  noticed.
\<close>

theorem memcpy_benchmark:
  assumes "unat in_buf + 4096 \<le> 2 ^ 64" "unat out_buf + 1048576 \<le> 2 ^ 64"
    "unat in_buf + 4096 \<le> unat out_buf \<or> unat out_buf + 1048576 \<le> unat in_buf"
    "in_buf \<noteq> 0" "out_buf \<noteq> 0"
  shows "memcpy_main machine clk in_buf out_buf m
    = ret (\<lambda>a. if in_block in_buf 4096 a then m (out_buf + 1044480 + (a - in_buf)) else m a,
           concat (map (\<lambda>i. [Gem5 (gem5_resetstats machine), Clock (fst (clk i))]
                          @ map (\<lambda>j. Copied in_buf (out_buf + of_nat j * 4096) 4096) [0..<256]
                          @ [Clock (snd (clk i)), Gem5 (gem5_dumpstats machine),
                             Copy_Time (snd (clk i) - fst (clk i))]) [0..<3]))
    \<and> pseudo_op machine (gem5_resetstats machine) = Some 0x40
    \<and> pseudo_op machine (gem5_dumpstats machine) = Some (if machine = X86_64 then 0x41 else 0x40)
    \<and> memcpy_main machine clk 0 out_buf m = undef \<and> memcpy_main machine clk in_buf 0 m = undef"
proof -
  have page: "\<not> in_block in_buf 4096 (out_buf + 1044480 + (a - in_buf))" if a: "in_block in_buf 4096 a" for a
  proof -
    obtain j where j: "j < 4096" "a = in_buf + of_nat j" using in_block_offset [OF assms(1) a] by blast
    have "unat (out_buf + of_nat (1044480 + j)) = unat out_buf + (1044480 + j)"
      using j(1) by (intro unat_offset [OF assms(2)]) simp
    with j assms(3) show ?thesis by (auto simp: in_block_def add.assoc)
  qed
  have "[0..<3] = [0, 1, 2 :: nat]" by (simp add: upt_rec)
  with assms(4,5) pseudo_ops [of machine] show ?thesis
    by (simp add: memcpy_main_def copy_round_block [OF assms(1-3)] page fun_eq_iff case_prod_unfold Let_def
        flip: copy_calls_def)
qed

theorem memcpy_benchmark_witness:
  "memcpy_main X86_64 (\<lambda>i. (5, 7)) 4096 1048576 (\<lambda>a. ucast a)
    = ret (\<lambda>a. if in_block 4096 4096 a then ucast (1048576 + 1044480 + (a - 4096)) else ucast a,
           concat (map (\<lambda>i. [Gem5 (gem5_resetstats X86_64), Clock 5]
                          @ map (\<lambda>j. Copied 4096 (1048576 + of_nat j * 4096) 4096) [0..<256]
                          @ [Clock 7, Gem5 (gem5_dumpstats X86_64), Copy_Time 2]) [0..<3]))"
  using memcpy_benchmark [of 4096 1048576 X86_64 "\<lambda>i. (5, 7)" "\<lambda>a. ucast a"] by (simp del: upt_rec_numeral)

end
