(* ===== verification/Transition.thy ===== *)
theory Transition
  imports Prelude
begin

text \<open>
  Programs of several processes: labelled steps, runs, and the contracts by which they are
  verified here, as locales: an invariant, a bound on the work that is left, an exact
  account of it, and a simulation of an abstract relation. The models of
  \<^verbatim>\<open>apps/pingpong\<close>, \<^verbatim>\<open>apps/yield\<close> and \<^verbatim>\<open>apps/mwait\<close> interpret them.
\<close>

section \<open>Runs\<close>

text \<open>A run with the labels of its steps, the last step last.\<close>

inductive lrun :: "('l \<Rightarrow> 's \<Rightarrow> 's \<Rightarrow> bool) \<Rightarrow> 's \<Rightarrow> 'l list \<Rightarrow> 's \<Rightarrow> bool" for step s where
  lrun_none: "lrun step s [] s"
| lrun_step: "lrun step s ls t \<Longrightarrow> step l t u \<Longrightarrow> lrun step s (ls @ [l]) u"

text \<open>Runs of a relation without labels.\<close>

lemma relpowp_lrun: "(R ^^ n) s t \<Longrightarrow> lrun (\<lambda>_ :: unit. R) s (replicate n ()) t"
proof (induction n arbitrary: t)
  case (Suc n)
  then obtain u where u: "(R ^^ n) s u" "R u t" by auto
  have "lrun (\<lambda>_ :: unit. R) s (replicate n () @ [()]) t"
    by (rule lrun_step [OF Suc.IH [OF u(1)]]) (rule u(2))
  then show ?case by (simp add: replicate_append_same)
qed (simp add: lrun_none)

lemma rtranclp_lrun:
  assumes "R\<^sup>*\<^sup>* s t"
  shows "\<exists>ls. lrun (\<lambda>_ :: unit. R) s ls t"
proof -
  obtain n where "(R ^^ n) s t" using rtranclp_imp_relpowp [OF assms] by blast
  from relpowp_lrun [OF this] show ?thesis by blast
qed

lemma lrun_rtranclp: "lrun (\<lambda>_ :: unit. R) s ls t \<Longrightarrow> R\<^sup>*\<^sup>* s t"
  by (induction rule: lrun.induct) (auto intro: rtranclp.rtrancl_into_rtrancl)

lemma lrun_first: "lrun step t ls u \<Longrightarrow> step l s t \<Longrightarrow> lrun step s (l # ls) u"
proof (induction rule: lrun.induct)
  case lrun_none
  with lrun.lrun_step [OF lrun.lrun_none] show ?case by fastforce
next
  case (lrun_step ls t' l' u)
  with lrun.lrun_step [of step s "l # ls" t' l' u] show ?case by simp
qed

text \<open>The steps of one process.\<close>

lemma sum_list_count: "sum_list (map (\<lambda>l. if l = w then 1 else 0) ls) = count_list ls w"
  by (induction ls) auto

section \<open>Contracts\<close>

locale invariant =
  fixes step :: "'l \<Rightarrow> 's \<Rightarrow> 's \<Rightarrow> bool"
    and inv :: "'s \<Rightarrow> bool"
  assumes inv_step: "step l s t \<Longrightarrow> inv s \<Longrightarrow> inv t"
begin

lemma run_inv: "lrun step s ls t \<Longrightarrow> inv s \<Longrightarrow> inv t"
  by (induction rule: lrun.induct) (auto intro: inv_step)

end

text \<open>\<open>cost\<close> says which steps are counted, \<open>left\<close> how much work is left.\<close>

locale bounded = invariant step inv for step :: "'l \<Rightarrow> 's \<Rightarrow> 's \<Rightarrow> bool" and inv +
  fixes cost :: "'l \<Rightarrow> nat"
    and left :: "'s \<Rightarrow> nat"
  assumes left_step: "step l s t \<Longrightarrow> inv s \<Longrightarrow> left t + cost l \<le> left s"
begin

lemma run_left: "lrun step s ls t \<Longrightarrow> inv s \<Longrightarrow> left t + sum_list (map cost ls) \<le> left s"
proof (induction rule: lrun.induct)
  case (lrun_step ls t l u)
  with left_step [OF lrun_step.hyps(2) run_inv [OF lrun_step.hyps(1)]] show ?case by simp
qed simp

text \<open>Where every step is counted, every state is on the way to an end.\<close>

lemma run_to_end: "(\<And>l. 0 < cost l) \<Longrightarrow> inv s \<Longrightarrow> \<exists>ls t. lrun step s ls t \<and> (\<nexists>l u. step l t u)"
proof (induction "left s" arbitrary: s rule: less_induct)
  case less
  show ?case
  proof (cases "\<exists>l u. step l s u")
    case True
    then obtain l u where u: "step l s u" by blast
    from left_step [OF u less.prems(2)] less.prems(1) [of l] have "left u < left s" by simp
    from less.hyps [OF this less.prems(1) inv_step [OF u less.prems(2)]]
    obtain ls t where "lrun step u ls t" "\<nexists>l u. step l t u" by blast
    with lrun_first [of step u ls t l s] u show ?thesis by blast
  next
    case False
    with lrun_none show ?thesis by meson
  qed
qed

end

locale exact = invariant step inv for step :: "'l \<Rightarrow> 's \<Rightarrow> 's \<Rightarrow> bool" and inv +
  fixes cost :: "'l \<Rightarrow> nat"
    and left :: "'s \<Rightarrow> nat"
  assumes exact_step: "step l s t \<Longrightarrow> inv s \<Longrightarrow> left t + cost l = left s"
begin

lemma run_exact: "lrun step s ls t \<Longrightarrow> inv s \<Longrightarrow> left t + sum_list (map cost ls) = left s"
proof (induction rule: lrun.induct)
  case (lrun_step ls t l u)
  with exact_step [OF lrun_step.hyps(2) run_inv [OF lrun_step.hyps(1)]] show ?case by simp
qed simp

end

sublocale exact \<subseteq> bounded
  by unfold_locales (simp add: exact_step)

text \<open>A step of the program leaves its view alone or is a step of the specification.\<close>

locale simulation = invariant step inv for step :: "'l \<Rightarrow> 's \<Rightarrow> 's \<Rightarrow> bool" and inv +
  fixes view :: "'s \<Rightarrow> 'v"
    and spec :: "'v \<Rightarrow> 'v \<Rightarrow> bool"
  assumes sim_step: "step l s t \<Longrightarrow> inv s \<Longrightarrow> view t = view s \<or> spec (view s) (view t)"
begin

lemma run_sim: "lrun step s ls t \<Longrightarrow> inv s \<Longrightarrow> spec\<^sup>*\<^sup>* (view s) (view t)"
proof (induction rule: lrun.induct)
  case (lrun_step ls t l u)
  with sim_step [OF lrun_step.hyps(2) run_inv [OF lrun_step.hyps(1)]] show ?case
    by (metis rtranclp.rtrancl_into_rtrancl)
qed simp

end

end
