(* ===== verification/Pingpong.thy ===== *)
theory Pingpong
  imports Stats Transition
begin

text \<open>
  The message-queue benchmark \<^verbatim>\<open>apps/pingpong/pingpong.c\<close>: after \<open>fork\<close> the parent
  sends a message and waits for the reply, the child waits for a message and replies,
  both in the same two nested loops. The two processes and the queue are a state, the
  calls to the queue are the steps, interleaved in any order. The queue is a System V
  queue that outlives the program: it may hold messages of an earlier run. Shown: what the
  processes have done and what the queue holds always account for each other; without
  failures the benchmark terminates and leaves the queue as it found it; and what happens
  when one of the processes gives up before its loops.
\<close>

section \<open>The message queue\<close>

text \<open>A message is its type and its length.\<close>

type_synonym msg = "int \<times> nat"

abbreviation client_message :: int where "client_message \<equiv> 1"
abbreviation server_message :: int where "server_message \<equiv> 2"
abbreviation rounds :: nat where "rounds \<equiv> 1100"

text \<open>
  \<open>msgrcv\<close> takes the first message of the type, wherever it is in the queue; \<open>None\<close>
  is a blocked caller. A message that is too long stays in the queue.
\<close>

fun msgrcv :: "msg list \<Rightarrow> nat \<Rightarrow> int \<Rightarrow> (int \<times> msg list) option" where
  "msgrcv [] n ty = None"
| "msgrcv (m # q) n ty =
     (if fst m = ty then
        if snd m \<le> n then Some (int (snd m), q) else Some (-1, m # q)
      else map_option (\<lambda>(r, q'). (r, m # q')) (msgrcv q n ty))"

text \<open>
  \<open>msgsnd\<close> with the kernel's limits for a message and for the bytes of a queue. Where there
  is no room the call fails with \<open>IPC_NOWAIT\<close> and blocks without it.
\<close>

datatype send_res = Sent "msg list" | No_Room | Too_Long

definition msgsnd :: "nat \<Rightarrow> nat \<Rightarrow> msg list \<Rightarrow> msg \<Rightarrow> send_res" where
  "msgsnd msgmax qbytes q m =
     (if msgmax < snd m then Too_Long
      else if sum_list (map snd q) + snd m \<le> qbytes \<and> length q + 1 \<le> qbytes then Sent (q @ [m])
      else No_Room)"

section \<open>The two processes\<close>

datatype pc = Setup | Send | Receive | Report | Wait | Done | Failed

text \<open>\<open>p_idx\<close> and \<open>c_idx\<close> are the loop counters \<open>x\<close> and \<open>i\<close> of parent and child.\<close>

record pingpong =
  p_pc :: pc
  p_idx :: "int \<times> nat"
  p_start :: u64
  p_times :: "u64 list"
  c_pc :: pc
  c_idx :: "int \<times> nat"
  mq :: "msg list"

definition next_idx :: "int \<times> nat \<Rightarrow> int \<times> nat" where
  "next_idx xi = (if Suc (snd xi) < rounds then (fst xi, Suc (snd xi)) else (fst xi + 1, 0))"

text \<open>Where a process is when it comes back to the head of its loops.\<close>

definition loop_head :: "int \<Rightarrow> pc \<Rightarrow> pc \<Rightarrow> int \<times> nat \<Rightarrow> pc" where
  "loop_head runs body out xi = (if fst xi < runs then body else out)"

definition pingpong_init :: "u64 list \<Rightarrow> msg list \<Rightarrow> pingpong" where
  "pingpong_init mem q = \<lparr>p_pc = Setup, p_idx = (0, 0), p_start = 0, p_times = mem,
     c_pc = Setup, c_idx = (0, 0), mq = q\<rparr>"

text \<open>
  The parameters: the command line's \<open>runs\<close> and \<open>msgsize\<close>, the limits of the queue, and
  whether the affinity, scheduler and \<open>mlockall\<close> calls of the parent and of the child
  succeed. The parent's \<open>msgsnd\<close> does not wait, the child's does. Clock readings are
  arbitrary.
\<close>

record pp_param =
  runs :: int
  msgsize :: nat
  msg_max :: nat
  q_bytes :: nat
  p_ok :: bool
  c_ok :: bool

inductive pp_step :: "pp_param \<Rightarrow> pingpong \<Rightarrow> pingpong \<Rightarrow> bool" for P where
  p_setup: "p_pc s = Setup \<Longrightarrow>
     pp_step P s (s\<lparr>p_pc := (if p_ok P then loop_head (runs P) Send Report (p_idx s) else Failed)\<rparr>)"
| p_send: "p_pc s = Send \<Longrightarrow> msgsnd (msg_max P) (q_bytes P) (mq s) (server_message, msgsize P) = Sent q \<Longrightarrow>
     pp_step P s (s\<lparr>p_pc := Receive, p_start := start, mq := q\<rparr>)"
| p_send_fails: "p_pc s = Send \<Longrightarrow> msgsnd (msg_max P) (q_bytes P) (mq s) (server_message, msgsize P) \<in> {No_Room, Too_Long} \<Longrightarrow>
     pp_step P s (s\<lparr>p_pc := Failed\<rparr>)"
| p_receive: "p_pc s = Receive \<Longrightarrow> msgrcv (mq s) (msgsize P) client_message = Some (r, q) \<Longrightarrow> r \<ge> int (msgsize P) \<Longrightarrow>
     pp_step P s (s\<lparr>p_pc := loop_head (runs P) Send Report (next_idx (p_idx s)), p_idx := next_idx (p_idx s),
                    p_times := (p_times s)[snd (p_idx s) := stop - p_start s], mq := q\<rparr>)"
| p_receive_short: "p_pc s = Receive \<Longrightarrow> msgrcv (mq s) (msgsize P) client_message = Some (r, q) \<Longrightarrow> r < int (msgsize P) \<Longrightarrow>
     pp_step P s (s\<lparr>p_pc := Failed, mq := q\<rparr>)"
| p_report: "p_pc s = Report \<Longrightarrow> pp_step P s (s\<lparr>p_pc := Wait\<rparr>)"
| p_wait: "p_pc s = Wait \<Longrightarrow> c_pc s \<in> {Done, Failed} \<Longrightarrow> pp_step P s (s\<lparr>p_pc := Done\<rparr>)"
| c_setup: "c_pc s = Setup \<Longrightarrow>
     pp_step P s (s\<lparr>c_pc := (if c_ok P then loop_head (runs P) Receive Done (c_idx s) else Failed)\<rparr>)"
| c_receive: "c_pc s = Receive \<Longrightarrow> msgrcv (mq s) (msgsize P) server_message = Some (r, q) \<Longrightarrow> r \<ge> int (msgsize P) \<Longrightarrow>
     pp_step P s (s\<lparr>c_pc := Send, mq := q\<rparr>)"
| c_receive_short: "c_pc s = Receive \<Longrightarrow> msgrcv (mq s) (msgsize P) server_message = Some (r, q) \<Longrightarrow> r < int (msgsize P) \<Longrightarrow>
     pp_step P s (s\<lparr>c_pc := Failed, mq := q\<rparr>)"
| c_send: "c_pc s = Send \<Longrightarrow> msgsnd (msg_max P) (q_bytes P) (mq s) (client_message, msgsize P) = Sent q \<Longrightarrow>
     pp_step P s (s\<lparr>c_pc := loop_head (runs P) Receive Done (next_idx (c_idx s)), c_idx := next_idx (c_idx s), mq := q\<rparr>)"
| c_send_fails: "c_pc s = Send \<Longrightarrow> msgsnd (msg_max P) (q_bytes P) (mq s) (client_message, msgsize P) = Too_Long \<Longrightarrow>
     pp_step P s (s\<lparr>c_pc := Failed\<rparr>)"

text \<open>
  The parent's report over the collected times: mean and deviation of all of them and of
  those after the warm-up, then every time.
\<close>

definition pp_report :: "u64 list \<Rightarrow> ((u64 \<times> u64 \<times> u64 \<times> u64) \<times> u64 list) result" where
  "pp_report ts =
     rbind (cyc_avg ts 1100) (\<lambda>cold.
     rbind (cyc_stddev ts 1100 cold) (\<lambda>cold_dev.
     rbind (cyc_avg (drop 100 ts) 1000) (\<lambda>warm.
     rbind (cyc_stddev (drop 100 ts) 1000 warm) (\<lambda>warm_dev. 
     ret ((cold, cold_dev, warm, warm_dev), take rounds ts)))))"

lemma pp_report_measured:
  assumes "length ts = rounds" "in_range (measured ts)" "in_range (measured (drop 100 ts))"
  shows "pp_report ts = ret ((mean_of (measured ts), stddev_of (measured ts),
      mean_of (measured (drop 100 ts)), stddev_of (measured (drop 100 ts))), ts)"
  using cyc_report_measured [of ts] cyc_report_measured [of "drop 100 ts"] assms
  by (auto simp: pp_report_def cyc_report_def rbind_eq_ret)

section \<open>Messages of one size\<close>

definition of_type :: "int \<Rightarrow> msg list \<Rightarrow> nat" where
  "of_type ty q = length (filter (\<lambda>m. fst m = ty) q)"

text \<open>A queue as runs with messages of size \<open>n\<close> use it.\<close>

definition uniform :: "nat \<Rightarrow> msg list \<Rightarrow> bool" where
  "uniform n q \<longleftrightarrow> (\<forall>m \<in> set q. snd m = n \<and> fst m \<in> {client_message, server_message})"

lemma of_type_simps [simp]:
  "of_type ty [] = 0" "of_type ty (m # q) = (if fst m = ty then Suc (of_type ty q) else of_type ty q)"
  "of_type ty (q @ q') = of_type ty q + of_type ty q'"
  by (simp_all add: of_type_def)

lemma uniform_simps [simp]:
  "uniform n []" "uniform n (m # q) \<longleftrightarrow> snd m = n \<and> fst m \<in> {client_message, server_message} \<and> uniform n q"
  "uniform n (q @ q') \<longleftrightarrow> uniform n q \<and> uniform n q'"
  by (auto simp: uniform_def)

lemma uniform_length: "uniform n q \<Longrightarrow> length q = of_type server_message q + of_type client_message q"
  by (induction q) auto

lemma uniform_size: "uniform n q \<Longrightarrow> sum_list (map snd q) = length q * n"
  by (induction q) auto

lemma msgrcv_None: "uniform n q \<Longrightarrow> msgrcv q n ty = None \<longleftrightarrow> of_type ty q = 0"
  by (induction q) auto

lemma msgrcv_Some:
  "msgrcv q n ty = Some (r, q') \<Longrightarrow> uniform n q \<Longrightarrow>
   r = int n \<and> uniform n q' \<and> of_type ty q = Suc (of_type ty q') \<and> (\<forall>ty'. ty' \<noteq> ty \<longrightarrow> of_type ty' q' = of_type ty' q)"
proof (induction q arbitrary: q')
  case (Cons m q)
  show ?case
  proof (cases "fst m = ty")
    case True
    with Cons.prems show ?thesis by auto
  next
    case False
    with Cons.prems(1) obtain q1 where "msgrcv q n ty = Some (r, q1)" "q' = m # q1" by auto
    with Cons.IH [of q1] Cons.prems(2) False show ?thesis by auto
  qed
qed simp

text \<open>Room for \<open>k\<close> messages.\<close>

definition room :: "pp_param \<Rightarrow> nat \<Rightarrow> bool" where
  "room P k \<longleftrightarrow> msgsize P \<le> msg_max P \<and> k * msgsize P \<le> q_bytes P \<and> k \<le> q_bytes P"

lemma msgsnd_room:
  assumes "uniform (msgsize P) q" "length q < k" "room P k"
  shows "msgsnd (msg_max P) (q_bytes P) q (ty, msgsize P) = Sent (q @ [(ty, msgsize P)])"
proof -
  have "length q * msgsize P + msgsize P = Suc (length q) * msgsize P" by simp
  also have "\<dots> \<le> k * msgsize P" using assms(2) by (intro mult_le_mono1) simp
  finally show ?thesis using assms uniform_size [OF assms(1)] by (simp add: msgsnd_def room_def)
qed

lemma msgsnd_Sent: "msgsnd mx qb q m = Sent q' \<Longrightarrow> q' = q @ [m]"
  by (simp add: msgsnd_def split: if_splits)

lemma msgsnd_Too_Long: "msgsnd (msg_max P) qb q (ty, msgsize P) = Too_Long \<Longrightarrow> \<not> room P k"
  by (auto simp: msgsnd_def room_def split: if_splits)

section \<open>Invariant\<close>

text \<open>The number of rounds before a pair of loop counters, and of all rounds.\<close>

definition idx_no :: "int \<times> nat \<Rightarrow> nat" where
  "idx_no xi = nat (fst xi) * rounds + snd xi"

definition pp_total :: "pp_param \<Rightarrow> nat" where
  "pp_total P = nat (runs P) * rounds"

definition idx_ok :: "pp_param \<Rightarrow> int \<times> nat \<Rightarrow> bool" where
  "idx_ok P xi \<longleftrightarrow> 0 \<le> fst xi \<and> snd xi < rounds \<and> idx_no xi \<le> pp_total P"

lemma idx_no_0 [simp]: "idx_no (0, 0) = 0"
  by (simp add: idx_no_def)

lemma idx_ok_0 [simp]: "idx_ok P (0, 0)"
  by (simp add: idx_ok_def)

lemma idx_no_next: "0 \<le> fst xi \<Longrightarrow> snd xi < rounds \<Longrightarrow> idx_no (next_idx xi) = Suc (idx_no xi)"
  by (auto simp: idx_no_def next_idx_def nat_add_distrib)

lemma idx_ok_less:
  assumes "idx_ok P xi"
  shows "fst xi < runs P \<longleftrightarrow> idx_no xi < pp_total P"
proof
  assume "fst xi < runs P"
  then have "Suc (nat (fst xi)) \<le> nat (runs P)" using assms by (auto simp: idx_ok_def)
  then have "Suc (nat (fst xi)) * rounds \<le> pp_total P" unfolding pp_total_def by (rule mult_le_mono1)
  with assms show "idx_no xi < pp_total P" by (simp add: idx_no_def idx_ok_def)
next
  assume "idx_no xi < pp_total P"
  then have "nat (fst xi) < nat (runs P)" unfolding idx_no_def pp_total_def by linarith
  then show "fst xi < runs P" by linarith
qed

lemma idx_ok_next:
  assumes "idx_ok P xi" "fst xi < runs P"
  shows "idx_ok P (next_idx xi)" "idx_no (next_idx xi) = Suc (idx_no xi)"
proof -
  show no: "idx_no (next_idx xi) = Suc (idx_no xi)" using assms(1) by (intro idx_no_next) (simp_all add: idx_ok_def)
  have "0 \<le> fst (next_idx xi)" "snd (next_idx xi) < rounds" using assms(1) by (simp_all add: idx_ok_def next_idx_def)
  with no idx_ok_less [OF assms(1)] assms(2) show "idx_ok P (next_idx xi)" by (simp add: idx_ok_def)
qed

lemma idx_no_inj: "idx_ok P xi \<Longrightarrow> idx_ok P yi \<Longrightarrow> idx_no xi = idx_no yi \<Longrightarrow> xi = yi"
proof -
  assume ok: "idx_ok P xi" "idx_ok P yi" and eq: "idx_no xi = idx_no yi"
  have "nat (fst xi) = idx_no xi div rounds" "nat (fst yi) = idx_no yi div rounds"
    "snd xi = idx_no xi mod rounds" "snd yi = idx_no yi mod rounds"
    using ok by (simp_all add: idx_no_def idx_ok_def)
  with eq ok show "xi = yi" by (auto simp: idx_ok_def prod_eq_iff intro: eq_nat_nat_iff [THEN iffD1])
qed

text \<open>Messages sent and replies received by the parent, messages taken and replied to by the child
  (a child that fails after its setup has taken a message).\<close>

definition sent :: "pingpong \<Rightarrow> nat" where
  "sent s = idx_no (p_idx s) + (if p_pc s = Receive then 1 else 0)"

definition answered :: "pingpong \<Rightarrow> nat" where
  "answered s = idx_no (p_idx s)"

definition taken :: "pp_param \<Rightarrow> pingpong \<Rightarrow> nat" where
  "taken P s = idx_no (c_idx s) + (if c_pc s = Send \<or> c_pc s = Failed \<and> c_ok P then 1 else 0)"

definition replied :: "pingpong \<Rightarrow> nat" where
  "replied s = idx_no (c_idx s)"

lemmas counters = sent_def answered_def taken_def replied_def

text \<open>\<open>k\<close> messages and \<open>j\<close> replies were in the queue at the start.\<close>

definition parent_inv :: "nat \<Rightarrow> pp_param \<Rightarrow> pingpong \<Rightarrow> bool" where
  "parent_inv l P s \<longleftrightarrow>
     (case p_pc s of
        Setup \<Rightarrow> p_idx s = (0, 0)
      | Send \<Rightarrow> p_ok P \<and> fst (p_idx s) < runs P
      | Receive \<Rightarrow> p_ok P \<and> fst (p_idx s) < runs P
      | Report \<Rightarrow> p_ok P \<and> \<not> fst (p_idx s) < runs P
      | Wait \<Rightarrow> p_ok P \<and> \<not> fst (p_idx s) < runs P
      | Done \<Rightarrow> p_ok P \<and> \<not> fst (p_idx s) < runs P \<and> c_pc s \<in> {Done, Failed}
      | Failed \<Rightarrow> \<not> p_ok P \<and> p_idx s = (0, 0) \<or> \<not> room P l)"

definition child_inv :: "nat \<Rightarrow> pp_param \<Rightarrow> pingpong \<Rightarrow> bool" where
  "child_inv l P s \<longleftrightarrow>
     (case c_pc s of
        Setup \<Rightarrow> c_idx s = (0, 0)
      | Receive \<Rightarrow> c_ok P \<and> fst (c_idx s) < runs P
      | Send \<Rightarrow> c_ok P \<and> fst (c_idx s) < runs P
      | Done \<Rightarrow> c_ok P \<and> \<not> fst (c_idx s) < runs P
      | Failed \<Rightarrow> if c_ok P then \<not> room P l else c_idx s = (0, 0)
      | _ \<Rightarrow> False)"

definition pp_inv :: "nat \<Rightarrow> nat \<Rightarrow> pp_param \<Rightarrow> pingpong \<Rightarrow> bool" where
  "pp_inv k j P s \<longleftrightarrow> idx_ok P (p_idx s) \<and> idx_ok P (c_idx s) \<and> length (p_times s) = rounds
     \<and> uniform (msgsize P) (mq s)
     \<and> taken P s + of_type server_message (mq s) = k + sent s
     \<and> answered s + of_type client_message (mq s) = j + replied s
     \<and> parent_inv (k + j + 1) P s \<and> child_inv (k + j + 1) P s"

lemma pp_inv_init:
  "length mem = rounds \<Longrightarrow> uniform (msgsize P) q \<Longrightarrow>
   pp_inv (of_type server_message q) (of_type client_message q) P (pingpong_init mem q)"
  by (simp add: pp_inv_def pingpong_init_def counters parent_inv_def child_inv_def)

lemma pp_inv_length:
  assumes "pp_inv k j P s"
  shows "length (mq s) \<le> k + j + 1" "p_pc s = Send \<or> c_pc s = Send \<Longrightarrow> length (mq s) \<le> k + j"
  using assms uniform_length [of "msgsize P" "mq s"] by (auto simp: pp_inv_def counters split: if_splits)

lemma parent_step:
  assumes "pp_step P s s'" "parent_inv l P s" "uniform (msgsize P) (mq s)" "p_pc s = Send \<Longrightarrow> length (mq s) < l"
  shows "parent_inv l P s'"
  using assms(1)
proof (cases rule: pp_step.cases)
  case p_send_fails
  with assms(3,4) msgsnd_room [of P "mq s" l server_message] have "\<not> room P l" by fastforce
  with p_send_fails show ?thesis by (simp add: parent_inv_def)
next
  case (p_receive_short r q)
  with msgrcv_Some [OF p_receive_short(3) assms(3)] show ?thesis by simp
qed (use assms(2) in \<open>auto simp: parent_inv_def loop_head_def split: pc.splits\<close>)

lemma child_step:
  assumes "pp_step P s s'" "child_inv l P s" "uniform (msgsize P) (mq s)"
  shows "child_inv l P s'"
  using assms(1)
proof (cases rule: pp_step.cases)
  case (c_receive_short r q)
  with msgrcv_Some [OF c_receive_short(3) assms(3)] show ?thesis by simp
next
  case c_send_fails
  with msgsnd_Too_Long [OF c_send_fails(3), of l] assms(2) show ?thesis by (simp add: child_inv_def)
qed (use assms(2) in \<open>auto simp: child_inv_def loop_head_def split: pc.splits\<close>)

lemma loop_head_pc [simp]: "loop_head r Send Report xi \<noteq> Receive" "loop_head r Receive Done xi \<noteq> Send"
  "Receive \<noteq> loop_head r Send Report xi" "Send \<noteq> loop_head r Receive Done xi"
  "loop_head r Receive Done xi \<noteq> Failed"
  by (simp_all add: loop_head_def)

lemma parent_running: "parent_inv l P s \<Longrightarrow> p_pc s = Receive \<Longrightarrow> fst (p_idx s) < runs P"
  by (simp add: parent_inv_def)

lemma child_running: "child_inv l P s \<Longrightarrow> c_pc s = Send \<Longrightarrow> fst (c_idx s) < runs P"
  by (simp add: child_inv_def)

lemma pp_inv_step:
  assumes "pp_step P s s'" "pp_inv k j P s"
  shows "pp_inv k j P s'"
proof -
  have inv: "idx_ok P (p_idx s)" "idx_ok P (c_idx s)" "length (p_times s) = rounds" "uniform (msgsize P) (mq s)"
    "taken P s + of_type server_message (mq s) = k + sent s" "answered s + of_type client_message (mq s) = j + replied s"
    "parent_inv (k + j + 1) P s" "child_inv (k + j + 1) P s"
    using assms(2) by (simp_all add: pp_inv_def)
  note p_next = idx_ok_next [OF inv(1) parent_running [OF inv(7)]]
  note c_next = idx_ok_next [OF inv(2) child_running [OF inv(8)]]
  note local = parent_step [OF assms(1) inv(7,4)] child_step [OF assms(1) inv(8,4)]
  have loc: "parent_inv (k + j + 1) P s'" "child_inv (k + j + 1) P s'"
    using local pp_inv_length(2) [OF assms(2)] by (simp_all add: less_Suc_eq_le)
  have "idx_ok P (p_idx s') \<and> idx_ok P (c_idx s') \<and> length (p_times s') = rounds \<and> uniform (msgsize P) (mq s')
     \<and> taken P s' + of_type server_message (mq s') = k + sent s' \<and> answered s' + of_type client_message (mq s') = j + replied s'"
    using assms(1)
  proof (cases rule: pp_step.cases)
    case p_setup
    with inv show ?thesis by (simp add: counters)
  next
    case (p_send q start)
    with inv msgsnd_Sent [OF p_send(3)] show ?thesis by (simp add: counters)
  next
    case (p_receive r q stop)
    with inv p_next msgrcv_Some [OF p_receive(3) inv(4)] show ?thesis by (simp add: counters)
  next
    case (p_receive_short r q)
    with msgrcv_Some [OF p_receive_short(3) inv(4)] show ?thesis by simp
  next
    case c_setup
    with inv show ?thesis by (simp add: counters)
  next
    case (c_receive r q)
    with inv msgrcv_Some [OF c_receive(3) inv(4)] show ?thesis by (simp add: counters)
  next
    case (c_receive_short r q)
    with msgrcv_Some [OF c_receive_short(3) inv(4)] show ?thesis by simp
  next
    case (c_send q)
    with inv c_next msgsnd_Sent [OF c_send(3)] show ?thesis by (simp add: counters)
  next
    case c_send_fails
    with inv(1-6,8) show ?thesis by (simp add: counters child_inv_def)
  qed (use inv in \<open>simp_all add: counters\<close>)
  with loc show ?thesis by (simp add: pp_inv_def)
qed

section \<open>States that cannot go on\<close>

definition stuck :: "pp_param \<Rightarrow> pingpong \<Rightarrow> bool" where
  "stuck P s \<longleftrightarrow> (\<nexists>s'. pp_step P s s')"

definition finished :: "pingpong \<Rightarrow> bool" where
  "finished s \<longleftrightarrow> p_pc s = Done \<and> c_pc s = Done"

lemma child_stuck:
  assumes "stuck P s" "pp_inv k j P s" "room P (k + j + 1)"
  shows "c_pc s = Done \<or> c_pc s = Failed \<and> \<not> c_ok P \<or> c_pc s = Receive \<and> of_type server_message (mq s) = 0"
proof -
  have uni: "uniform (msgsize P) (mq s)" and cinv: "child_inv (k + j + 1) P s"
    using assms(2) by (simp_all add: pp_inv_def)
  show ?thesis
  proof (cases "c_pc s")
    case Setup
    with assms(1) c_setup show ?thesis unfolding stuck_def by blast
  next
    case Send
    with pp_inv_length(2) [OF assms(2)] have "length (mq s) < k + j + 1" by simp
    from msgsnd_room [OF uni this assms(3)] Send c_send [of s P] assms(1) show ?thesis unfolding stuck_def by blast
  next
    case Receive
    show ?thesis
    proof (cases "msgrcv (mq s) (msgsize P) server_message")
      case None
      with msgrcv_None [OF uni] Receive show ?thesis by simp
    next
      case (Some x)
      obtain r q where x: "x = (r, q)" by (cases x)
      note rcv = Some [unfolded x]
      have "int (msgsize P) \<le> r" using msgrcv_Some [OF rcv uni] by simp
      with c_receive [OF Receive rcv] assms(1) show ?thesis unfolding stuck_def by blast
    qed
  qed (use cinv assms(3) in \<open>simp_all add: child_inv_def split: if_splits\<close>)
qed

lemma parent_stuck:
  assumes "stuck P s" "pp_inv k j P s" "room P (k + j + 1)"
  shows "p_pc s = Done \<or> p_pc s = Wait \<and> c_pc s = Receive \<or> p_pc s = Failed \<and> \<not> p_ok P
    \<or> p_pc s = Receive \<and> of_type client_message (mq s) = 0"
proof -
  have uni: "uniform (msgsize P) (mq s)" and pinv: "parent_inv (k + j + 1) P s"
    using assms(2) by (simp_all add: pp_inv_def)
  show ?thesis
  proof (cases "p_pc s")
    case Setup
    with assms(1) p_setup show ?thesis unfolding stuck_def by blast
  next
    case Send
    with pp_inv_length(2) [OF assms(2)] have "length (mq s) < k + j + 1" by simp
    from msgsnd_room [OF uni this assms(3)] Send p_send [of s P] assms(1) show ?thesis unfolding stuck_def by blast
  next
    case Receive
    show ?thesis
    proof (cases "msgrcv (mq s) (msgsize P) client_message")
      case None
      with msgrcv_None [OF uni] Receive show ?thesis by simp
    next
      case (Some x)
      obtain r q where x: "x = (r, q)" by (cases x)
      note rcv = Some [unfolded x]
      have "int (msgsize P) \<le> r" using msgrcv_Some [OF rcv uni] by simp
      with p_receive [OF Receive rcv] assms(1) show ?thesis unfolding stuck_def by blast
    qed
  next
    case Report
    with assms(1) p_report show ?thesis unfolding stuck_def by blast
  next
    case Wait
    with assms(1) p_wait child_stuck [OF assms] show ?thesis unfolding stuck_def by blast
  qed (use pinv assms(3) in \<open>simp_all add: parent_inv_def\<close>)
qed

text \<open>The accounts of a state that cannot go on.\<close>

definition queue_is :: "nat \<Rightarrow> nat \<Rightarrow> pingpong \<Rightarrow> bool" where
  "queue_is k j s \<longleftrightarrow> of_type server_message (mq s) = k \<and> of_type client_message (mq s) = j"

lemma pp_end:
  assumes "stuck P s" "pp_inv k j P s" "room P (k + j + 1)"
  defines "n \<equiv> pp_total P"
  shows "p_ok P \<Longrightarrow> c_ok P \<Longrightarrow> finished s \<and> answered s = n \<and> replied s = n \<and> queue_is k j s"
    and "p_ok P \<Longrightarrow> \<not> c_ok P \<Longrightarrow> c_pc s = Failed \<and>
      (if j < n then p_pc s = Receive \<and> answered s = j \<and> queue_is (k + j + 1) 0 s
       else p_pc s = Done \<and> answered s = n \<and> queue_is (k + n) (j - n) s)"
    and "\<not> p_ok P \<Longrightarrow> c_ok P \<Longrightarrow> p_pc s = Failed \<and>
      (if k < n then c_pc s = Receive \<and> replied s = k \<and> queue_is 0 (j + k) s
       else c_pc s = Done \<and> replied s = n \<and> queue_is (k - n) (j + n) s)"
    and "\<not> p_ok P \<Longrightarrow> \<not> c_ok P \<Longrightarrow> p_pc s = Failed \<and> c_pc s = Failed \<and> queue_is k j s"
proof -
  note cs = child_stuck [OF assms(1-3)] and ps = parent_stuck [OF assms(1-3)]
  have inv: "idx_ok P (p_idx s)" "idx_ok P (c_idx s)"
    "taken P s + of_type server_message (mq s) = k + sent s" "answered s + of_type client_message (mq s) = j + replied s"
    "parent_inv (k + j + 1) P s" "child_inv (k + j + 1) P s"
    using assms(2) by (simp_all add: pp_inv_def)
  have le: "answered s \<le> n" "replied s \<le> n" using inv(1,2) by (simp_all add: idx_ok_def counters n_def)
  have lt: "fst (p_idx s) < runs P \<longleftrightarrow> answered s < n" "fst (c_idx s) < runs P \<longleftrightarrow> replied s < n"
    using idx_ok_less [OF inv(1)] idx_ok_less [OF inv(2)] by (simp_all add: counters n_def)
  have p: "p_pc s = Receive \<Longrightarrow> p_ok P \<and> answered s < n \<and> sent s = answered s + 1"
    "p_pc s = Wait \<or> p_pc s = Done \<Longrightarrow> p_ok P \<and> answered s = n \<and> sent s = n"
    "p_pc s = Failed \<Longrightarrow> \<not> p_ok P \<and> answered s = 0 \<and> sent s = 0"
  proof -
    show "p_ok P \<and> answered s < n \<and> sent s = answered s + 1" if "p_pc s = Receive"
      using inv(5) lt(1) that by (simp add: parent_inv_def counters)
    have "p_ok P \<and> \<not> fst (p_idx s) < runs P" if "p_pc s = Wait \<or> p_pc s = Done"
      using inv(5) that by (elim disjE) (simp_all add: parent_inv_def)
    with lt(1) le(1) show "p_ok P \<and> answered s = n \<and> sent s = n" if "p_pc s = Wait \<or> p_pc s = Done"
      using that by (elim disjE) (simp_all add: counters)
    show "\<not> p_ok P \<and> answered s = 0 \<and> sent s = 0" if "p_pc s = Failed"
      using inv(5) assms(3) that by (simp add: parent_inv_def counters)
  qed
  have c: "c_pc s = Receive \<Longrightarrow> c_ok P \<and> replied s < n \<and> taken P s = replied s"
    "c_pc s = Done \<Longrightarrow> c_ok P \<and> replied s = n \<and> taken P s = n"
    "c_pc s = Failed \<Longrightarrow> \<not> c_ok P \<and> replied s = 0 \<and> taken P s = 0"
  proof -
    show "c_ok P \<and> replied s < n \<and> taken P s = replied s" if "c_pc s = Receive"
      using inv(6) lt(2) that by (simp add: child_inv_def counters)
    have "c_ok P \<and> \<not> fst (c_idx s) < runs P" if "c_pc s = Done"
      using inv(6) that by (simp add: child_inv_def)
    with lt(2) le(2) show "c_ok P \<and> replied s = n \<and> taken P s = n" if "c_pc s = Done"
      using that by (simp add: counters)
    show "\<not> c_ok P \<and> replied s = 0 \<and> taken P s = 0" if "c_pc s = Failed"
      using inv(6) assms(3) that by (simp add: child_inv_def counters split: if_splits)
  qed
  show "finished s \<and> answered s = n \<and> replied s = n \<and> queue_is k j s" if "p_ok P" "c_ok P"
    using that ps cs p c inv(3,4) le by (auto simp: finished_def queue_is_def)
  show "c_pc s = Failed \<and>
      (if j < n then p_pc s = Receive \<and> answered s = j \<and> queue_is (k + j + 1) 0 s
       else p_pc s = Done \<and> answered s = n \<and> queue_is (k + n) (j - n) s)" if "p_ok P" "\<not> c_ok P"
    using that ps cs p c inv(3,4) le by (auto simp: queue_is_def)
  show "p_pc s = Failed \<and>
      (if k < n then c_pc s = Receive \<and> replied s = k \<and> queue_is 0 (j + k) s
       else c_pc s = Done \<and> replied s = n \<and> queue_is (k - n) (j + n) s)" if "\<not> p_ok P" "c_ok P"
    using that ps cs p c inv(3,4) le by (auto simp: queue_is_def)
  show "p_pc s = Failed \<and> c_pc s = Failed \<and> queue_is k j s" if "\<not> p_ok P" "\<not> c_ok P"
    using that ps cs p c inv(3,4) le by (auto simp: queue_is_def)
qed

text \<open>A message longer than the kernel allows is never sent.\<close>

definition nothing_sent :: "pp_param \<Rightarrow> pingpong \<Rightarrow> bool" where
  "nothing_sent P s \<longleftrightarrow> msg_max P < msgsize P \<and> p_pc s \<noteq> Receive \<and> p_idx s = (0, 0) \<and> c_idx s = (0, 0)"

lemma nothing_sent_step: "pp_step P s s' \<Longrightarrow> nothing_sent P s \<Longrightarrow> nothing_sent P s'"
  by (induction rule: pp_step.induct) (auto simp: nothing_sent_def msgsnd_def)

lemma pp_end_too_long:
  assumes "stuck P s" "pp_inv 0 0 P s" "nothing_sent P s" "p_ok P" "c_ok P" "0 < runs P"
  shows "p_pc s = Failed \<and> c_pc s = Receive \<and> mq s = []"
proof -
  have inv: "uniform (msgsize P) (mq s)" "taken P s + of_type server_message (mq s) = sent s"
    "of_type client_message (mq s) = 0" "parent_inv 1 P s" "child_inv 1 P s"
    using assms(2,3) by (simp_all add: pp_inv_def nothing_sent_def counters)
  have "sent s = 0" using assms(3) by (simp add: nothing_sent_def counters)
  with inv(2) have none: "taken P s = 0" "of_type server_message (mq s) = 0" by simp_all
  with inv(1,3) uniform_length have mq: "mq s = []" by fastforce
  have "\<exists>s'. pp_step P s s'" if "p_pc s = Send"
    using p_send_fails [OF that, of P] assms(3) by (auto simp: nothing_sent_def msgsnd_def)
  then have "p_pc s = Failed"
    using assms(1,3,6) inv(4) p_setup [of s P] p_report [of s P]
    by (cases "p_pc s") (auto simp: stuck_def nothing_sent_def parent_inv_def)
  moreover have "c_pc s = Receive"
    using assms(1,3,5,6) inv(5) none(1) c_setup [of s P]
    by (cases "c_pc s") (auto simp: stuck_def nothing_sent_def child_inv_def counters)
  ultimately show ?thesis using mq by blast
qed

section \<open>Termination\<close>

definition rounds_left :: "pp_param \<Rightarrow> int \<times> nat \<Rightarrow> nat" where
  "rounds_left P xi = pp_total P - idx_no xi"

fun pc_work :: "pc \<Rightarrow> pc \<Rightarrow> nat \<Rightarrow> nat" where
  "pc_work second Setup n = 2 * n + 4"
| "pc_work second Report n = 2"
| "pc_work second Wait n = 1"
| "pc_work second Done n = 0"
| "pc_work second Failed n = 0"
| "pc_work second pc n = (if pc = second then 2 * n + 2 else 2 * n + 3)"

text \<open>A round of the parent ends with a receive, one of the child with a send.\<close>

definition pp_work :: "pp_param \<Rightarrow> pingpong \<Rightarrow> nat" where
  "pp_work P s = pc_work Receive (p_pc s) (rounds_left P (p_idx s)) + pc_work Send (c_pc s) (rounds_left P (c_idx s))"

lemma rounds_left_next:
  assumes "idx_ok P xi" "fst xi < runs P"
  shows "rounds_left P xi = Suc (rounds_left P (next_idx xi))"
  using idx_ok_next [OF assms] idx_ok_less [OF assms(1)] assms(2) by (simp add: rounds_left_def)

lemma pp_step_work:
  assumes "pp_step P s s'" "pp_inv k j P s"
  shows "pp_work P s' < pp_work P s"
proof -
  have inv: "idx_ok P (p_idx s)" "idx_ok P (c_idx s)" "parent_inv (k + j + 1) P s" "child_inv (k + j + 1) P s"
    using assms(2) by (simp_all add: pp_inv_def)
  note p_left = rounds_left_next [OF inv(1) parent_running [OF inv(3)]]
  note c_left = rounds_left_next [OF inv(2) child_running [OF inv(4)]]
  show ?thesis
    using assms(1)
  proof (cases rule: pp_step.cases)
    case (p_receive r q stop)
    with p_left show ?thesis by (simp add: pp_work_def loop_head_def)
  next
    case (c_send q)
    with c_left show ?thesis by (simp add: pp_work_def loop_head_def)
  qed (auto simp: pp_work_def loop_head_def)
qed

section \<open>Runs\<close>

interpretation pp_steps: bounded "\<lambda>_ :: unit. pp_step P" "pp_inv k j P" "\<lambda>_. 1" "pp_work P"
proof
  show "pp_inv k j P t" if "pp_step P s t" "pp_inv k j P s" for s t
    using pp_inv_step [OF that] .
  show "pp_work P t + 1 \<le> pp_work P s" if "pp_step P s t" "pp_inv k j P s" for s t
    using pp_step_work [OF that] by simp
qed

interpretation pp_too_long: invariant "\<lambda>_ :: unit. pp_step P" "nothing_sent P"
  by unfold_locales (rule nothing_sent_step)

lemma pp_reach:
  assumes "(pp_step P)\<^sup>*\<^sup>* (pingpong_init mem q) s" "length mem = rounds" "uniform (msgsize P) q"
  shows "pp_inv (of_type server_message q) (of_type client_message q) P s"
  using rtranclp_lrun [OF assms(1)] pp_steps.run_inv pp_inv_init [OF assms(2,3)] by blast

lemma pp_bounded:
  assumes "(pp_step P ^^ n) (pingpong_init mem q) s" "length mem = rounds" "uniform (msgsize P) q"
  shows "pp_inv (of_type server_message q) (of_type client_message q) P s" "n \<le> 4400 * nat (runs P) + 8"
    "msg_max P < msgsize P \<Longrightarrow> nothing_sent P s"
proof -
  note run = relpowp_lrun [OF assms(1)] and init = pp_inv_init [OF assms(2,3)]
  show "pp_inv (of_type server_message q) (of_type client_message q) P s"
    using pp_steps.run_inv [OF run init] .
  have "n \<le> pp_work P (pingpong_init mem q)"
    using pp_steps.run_left [OF run init] by (simp add: sum_list_replicate)
  then show "n \<le> 4400 * nat (runs P) + 8"
    by (simp add: pp_work_def pingpong_init_def rounds_left_def pp_total_def)
  show "nothing_sent P s" if "msg_max P < msgsize P"
    using pp_too_long.run_inv [OF run] that by (simp add: nothing_sent_def pingpong_init_def)
qed

lemma pp_to_end: "pp_inv k j P s \<Longrightarrow> \<exists>t. (pp_step P)\<^sup>*\<^sup>* s t \<and> stuck P t"
  using pp_steps.run_to_end [of k j P s] lrun_rtranclp [of "pp_step P" s] unfolding stuck_def by fastforce

section \<open>Properties\<close>

text \<open>
  C26: the protocol's invariant. The queue may hold \<open>k\<close> messages and \<open>j\<close> replies of
  earlier runs, of the size used now, and have room for one message more. In every
  reachable state it holds at most \<open>k + j + 1\<close> messages, all of that size; no message is
  lost: those the child has taken and those still in the queue are together the \<open>k\<close> old ones
  and those the parent has sent, and likewise for the replies; a process is
  never ahead of the other by more than those; every time is stored inside the array; and
  no process fails unless its setup calls do. If the queue was empty the two are in the
  same round or the child is one ahead.
\<close>

theorem pingpong_protocol:
  assumes "(pp_step P)\<^sup>*\<^sup>* (pingpong_init mem q) s" "length mem = rounds" "uniform (msgsize P) q"
  defines "k \<equiv> of_type server_message q" and "j \<equiv> of_type client_message q"
  assumes "room P (k + j + 1)"
  shows "length (mq s) \<le> k + j + 1 \<and> (\<forall>m \<in> set (mq s). snd m = msgsize P)
    \<and> length (mq s) = of_type server_message (mq s) + of_type client_message (mq s)
    \<and> taken P s + of_type server_message (mq s) = k + sent s
    \<and> answered s + of_type client_message (mq s) = j + replied s
    \<and> sent s \<le> answered s + 1 \<and> answered s \<le> replied s + j \<and> replied s \<le> taken P s \<and> taken P s \<le> sent s + k
    \<and> snd (p_idx s) < length (p_times s)
    \<and> (p_pc s = Failed \<longrightarrow> \<not> p_ok P) \<and> (c_pc s = Failed \<longrightarrow> \<not> c_ok P)
    \<and> (q = [] \<longrightarrow> c_idx s = p_idx s \<or> c_idx s = next_idx (p_idx s))"
proof -
  note reach = pp_reach [OF assms(1-3), folded k_def j_def]
  from reach have inv: "idx_ok P (p_idx s)" "idx_ok P (c_idx s)" "length (p_times s) = rounds" "uniform (msgsize P) (mq s)"
    "taken P s + of_type server_message (mq s) = k + sent s" "answered s + of_type client_message (mq s) = j + replied s"
    "parent_inv (k + j + 1) P s" "child_inv (k + j + 1) P s"
    by (simp_all add: pp_inv_def)
  have "c_idx s = p_idx s \<or> c_idx s = next_idx (p_idx s)" if "q = []"
  proof -
    have "idx_no (c_idx s) = idx_no (p_idx s) \<or> p_pc s = Receive \<and> idx_no (c_idx s) = Suc (idx_no (p_idx s))"
      using inv(5,6) that by (auto simp: counters k_def j_def split: if_splits)
    with idx_no_inj [OF inv(2,1)] idx_no_inj [OF inv(2)] idx_ok_next [OF inv(1) parent_running [OF inv(7)]]
    show ?thesis by metis
  qed
  moreover have "\<forall>m \<in> set (mq s). snd m = msgsize P" using inv(4) by (simp add: uniform_def)
  moreover have "snd (p_idx s) < length (p_times s)" using inv(1,3) by (simp add: idx_ok_def)
  moreover have "p_pc s = Failed \<longrightarrow> \<not> p_ok P" using inv(7) assms(6) by (auto simp: parent_inv_def)
  moreover have "c_pc s = Failed \<longrightarrow> \<not> c_ok P" using inv(8) assms(6) by (auto simp: child_inv_def split: if_splits)
  moreover have "sent s \<le> answered s + 1" "replied s \<le> taken P s" by (simp_all add: counters)
  ultimately show ?thesis using pp_inv_length(1) [OF reach] uniform_length [OF inv(4)] inv(5,6) by simp
qed

theorem pingpong_protocol_witness:
  "let P = \<lparr>runs = 1, msgsize = 1, msg_max = 8192, q_bytes = 16384, p_ok = True, c_ok = True\<rparr>;
       s = (pingpong_init (replicate 1100 0) [(2, 1)])\<lparr>p_pc := Send\<rparr>
   in length (mq s) \<le> 2 \<and> taken P s + of_type server_message (mq s) = 1 + sent s
     \<and> snd (p_idx s) < length (p_times s) \<and> taken P s \<le> sent s + 1"
proof -
  let ?P = "\<lparr>runs = 1, msgsize = 1, msg_max = 8192, q_bytes = 16384, p_ok = True, c_ok = True\<rparr>"
  let ?i = "pingpong_init (replicate 1100 0) [(2, 1)]"
  have "pp_step ?P ?i (?i\<lparr>p_pc := Send\<rparr>)"
    using p_setup [of ?i ?P] by (simp add: pingpong_init_def loop_head_def)
  then have "(pp_step ?P)\<^sup>*\<^sup>* ?i (?i\<lparr>p_pc := Send\<rparr>)" by blast
  from pingpong_protocol [OF this] show ?thesis by (simp add: Let_def room_def)
qed

text \<open>
  C27: the benchmark terminates. If the setup calls succeed, every run, however the two
  processes are interleaved, takes at most 4400 steps for each of the \<open>runs\<close> and eight
  more, and a run that cannot go on has both processes at their end, all rounds done and
  the queue as it was: there is no deadlock. The parent has reported the mean and the
  deviation of its last 1100 times and of those after the warm-up, and the times.
\<close>

theorem pingpong_terminates:
  assumes "(pp_step P ^^ n) (pingpong_init mem q) s" "length mem = rounds" "uniform (msgsize P) q"
  defines "k \<equiv> of_type server_message q" and "j \<equiv> of_type client_message q"
  assumes "room P (k + j + 1)" "p_ok P" "c_ok P"
  shows "n \<le> 4400 * nat (runs P) + 8
    \<and> (stuck P s \<longrightarrow> finished s \<and> answered s = nat (runs P) * 1100 \<and> queue_is k j s)
    \<and> (let ts = p_times s in in_range (measured ts) \<and> in_range (measured (drop 100 ts)) \<longrightarrow>
         pp_report ts = ret ((mean_of (measured ts), stddev_of (measured ts),
                              mean_of (measured (drop 100 ts)), stddev_of (measured (drop 100 ts))), ts))"
proof -
  note inv = pp_bounded(1) [OF assms(1-3), folded k_def j_def]
  have "length (p_times s) = rounds" using inv by (simp add: pp_inv_def)
  with pp_report_measured pp_bounded(2) [OF assms(1-3)] pp_end(1) [OF _ inv assms(6) assms(7,8)]
  show ?thesis by (simp add: Let_def pp_total_def)
qed

theorem pingpong_terminates_witness:
  "let P = \<lparr>runs = 0, msgsize = 1, msg_max = 8192, q_bytes = 16384, p_ok = True, c_ok = True\<rparr>;
       s = (pingpong_init (replicate 1100 0) [(2, 1)])\<lparr>p_pc := Done, c_pc := Done\<rparr>
   in (pp_step P ^^ 4) (pingpong_init (replicate 1100 0) [(2, 1)]) s \<and> stuck P s
    \<and> finished s \<and> answered s = 0 \<and> queue_is 1 0 s"
proof -
  let ?P = "\<lparr>runs = 0, msgsize = 1, msg_max = 8192, q_bytes = 16384, p_ok = True, c_ok = True\<rparr>"
  let ?i = "pingpong_init (replicate 1100 0) [(2, 1)]"
  let ?a = "?i\<lparr>p_pc := Report\<rparr>" and ?b = "?i\<lparr>p_pc := Wait\<rparr>" and ?c = "?i\<lparr>p_pc := Wait, c_pc := Done\<rparr>"
    and ?d = "?i\<lparr>p_pc := Done, c_pc := Done\<rparr>"
  have "pp_step ?P ?i ?a" using p_setup [of ?i ?P] by (simp add: pingpong_init_def loop_head_def)
  moreover have "pp_step ?P ?a ?b" using p_report [of ?a ?P] by (simp add: pingpong_init_def)
  moreover have "pp_step ?P ?b ?c" using c_setup [of ?b ?P] by (simp add: pingpong_init_def loop_head_def)
  moreover have "pp_step ?P ?c ?d" using p_wait [of ?c ?P] by (simp add: pingpong_init_def)
  ultimately have run: "(pp_step ?P ^^ 4) ?i ?d" by (auto simp: eval_nat_numeral relpowp_Suc_I)
  have stuck: "stuck ?P ?d"
    unfolding stuck_def by (auto simp: pingpong_init_def elim: pp_step.cases)
  from pingpong_terminates [OF run] stuck have "finished ?d \<and> answered ?d = 0 \<and> queue_is 1 0 ?d"
    by (simp add: room_def)
  with run stuck show ?thesis unfolding Let_def by blast
qed

text \<open>
  C28: a process that gives up. If the setup of the child fails it exits without a message,
  and the parent blocks for ever once it has used up the \<open>j\<close> replies found in the queue,
  leaving its messages behind for the next run (with \<open>j\<close> large enough it even reports a
  complete measurement). If the setup of the parent fails the child blocks for ever once it
  has answered the \<open>k\<close> messages found in the queue, leaving the answers behind. If messages
  are longer than the kernel allows the parent fails and the child blocks for ever. All
  runs, whatever fails, are bounded, and from every state one of these ends can be reached.
\<close>

theorem pingpong_gives_up:
  assumes "(pp_step P ^^ n) (pingpong_init mem q) s" "length mem = rounds" "uniform (msgsize P) q"
  defines "k \<equiv> of_type server_message q" and "j \<equiv> of_type client_message q"
    and "all \<equiv> nat (runs P) * 1100"
  shows "n \<le> 4400 * nat (runs P) + 8 \<and> (\<exists>t. (pp_step P)\<^sup>*\<^sup>* s t \<and> stuck P t)
    \<and> (stuck P s \<longrightarrow>
      (room P (k + j + 1) \<and> p_ok P \<and> \<not> c_ok P \<longrightarrow> c_pc s = Failed \<and>
        (if j < all then p_pc s = Receive \<and> answered s = j \<and> queue_is (k + j + 1) 0 s
         else p_pc s = Done \<and> answered s = all \<and> queue_is (k + all) (j - all) s))
    \<and> (room P (k + j + 1) \<and> \<not> p_ok P \<and> c_ok P \<longrightarrow> p_pc s = Failed \<and>
        (if k < all then c_pc s = Receive \<and> replied s = k \<and> queue_is 0 (j + k) s
         else c_pc s = Done \<and> replied s = all \<and> queue_is (k - all) (j + all) s))
    \<and> (room P (k + j + 1) \<and> \<not> p_ok P \<and> \<not> c_ok P \<longrightarrow> p_pc s = Failed \<and> c_pc s = Failed \<and> queue_is k j s)
    \<and> (msg_max P < msgsize P \<and> q = [] \<and> p_ok P \<and> c_ok P \<and> 0 < runs P \<longrightarrow>
         p_pc s = Failed \<and> c_pc s = Receive \<and> mq s = []))"
proof -
  note run = pp_bounded [OF assms(1-3), folded k_def j_def]
  have all: "pp_total P = all" by (simp add: pp_total_def all_def)
  have "p_pc s = Failed \<and> c_pc s = Receive \<and> mq s = []"
    if "stuck P s" "msg_max P < msgsize P \<and> q = [] \<and> p_ok P \<and> c_ok P \<and> 0 < runs P"
    using pp_end_too_long [OF that(1)] run(1,3) that by (simp add: k_def j_def)
  then show ?thesis
    using run(2) pp_to_end [OF run(1)] pp_end(2-4) [OF _ run(1), unfolded all] by blast
qed

theorem pingpong_gives_up_witness:
  "let P = \<lparr>runs = 1, msgsize = 1, msg_max = 8192, q_bytes = 16384, p_ok = True, c_ok = False\<rparr>;
       s = (pingpong_init (replicate 1100 0) [])\<lparr>c_pc := Failed, p_pc := Receive, p_start := 0, mq := [(2, 1)]\<rparr>
   in (pp_step P ^^ 3) (pingpong_init (replicate 1100 0) []) s \<and> stuck P s \<and> answered s = 0 \<and> queue_is 1 0 s"
proof -
  let ?P = "\<lparr>runs = 1, msgsize = 1, msg_max = 8192, q_bytes = 16384, p_ok = True, c_ok = False\<rparr>"
  let ?i = "pingpong_init (replicate 1100 0) []"
  let ?a = "?i\<lparr>c_pc := Failed\<rparr>" and ?b = "?i\<lparr>c_pc := Failed, p_pc := Send\<rparr>"
    and ?c = "?i\<lparr>c_pc := Failed, p_pc := Receive, p_start := 0, mq := [(2, 1)]\<rparr>"
  have "pp_step ?P ?i ?a" using c_setup [of ?i ?P] by (simp add: pingpong_init_def)
  moreover have "pp_step ?P ?a ?b" using p_setup [of ?a ?P] by (simp add: pingpong_init_def loop_head_def)
  moreover have "pp_step ?P ?b ?c"
    using p_send [of ?b ?P "[(2, 1)]" 0] by (simp add: pingpong_init_def msgsnd_def)
  ultimately have run: "(pp_step ?P ^^ 3) ?i ?c" by (auto simp: numeral_3_eq_3 relpowp_Suc_I)
  have stuck: "stuck ?P ?c"
    unfolding stuck_def by (auto simp: pingpong_init_def elim: pp_step.cases)
  from pingpong_gives_up [OF run] stuck have "answered ?c = 0 \<and> queue_is 1 0 ?c"
    by (simp add: room_def)
  with run stuck show ?thesis unfolding Let_def by blast
qed

end
