(* ===== verification/Pingpong_Spec.thy ===== *)
theory Pingpong_Spec
  imports Pingpong Numtext
begin

text \<open>
  The beginning of \<^verbatim>\<open>apps/pingpong/pingpong.c\<close> (arguments, queue, message buffer, \<open>fork\<close>,
  the setup calls of both processes), and the program's contract: a counter of messages
  sent and of messages answered, of which the two processes are an implementation.
\<close>

section \<open>From the command line to the two processes\<close>

text \<open>The three setup calls of a process; any of them may end it.\<close>

definition setup_ok :: "int \<Rightarrow> int \<Rightarrow> int \<Rightarrow> bool" where
  "setup_ok affinity scheduler mlockall \<longleftrightarrow> affinity \<noteq> -1 \<and> scheduler \<noteq> -1 \<and> mlockall \<noteq> -1"

text \<open>
  What the kernel and the C library answer: \<open>ftok\<close> for a path and a project number, \<open>msgget\<close>
  for a key, \<open>malloc\<close> for a number of bytes, \<open>fork\<close>, the affinity call for a core, and
  the other setup calls of parent and child; and the limits and the contents of the queue
  of a key, which is that of earlier runs if it exists.
\<close>

record pp_env =
  e_ftok :: "bytes \<Rightarrow> u8 \<Rightarrow> int"
  e_msgget :: "int \<Rightarrow> int"
  e_malloc :: "u64 \<Rightarrow> bool"
  e_fork :: int
  e_affinity :: "int \<Rightarrow> int"
  e_parent :: "int \<times> int"
  e_child :: "int \<times> int"
  e_msg_max :: nat
  e_q_bytes :: nat
  e_queue :: "int \<Rightarrow> msg list"

text \<open>
  The key of the queue, for the character \<open>X\<close>. A key of \<open>-1\<close>, as there is no such file in
  the working directory, is not told from any other.
\<close>

definition generate_key :: "pp_env \<Rightarrow> bytes \<Rightarrow> int" where
  "generate_key e path = e_ftok e path 88"

datatype pp_outcome = Pp_Exit int | Pp_Run pp_param pingpong

text \<open>
  The buffer has eight bytes for the type and \<open>msgsize\<close> for the text; where that sum wraps
  around, it is too small for the type, and a process that gets to its first round writes
  behind its end (the child too: \<open>msgrcv\<close> fails for such a size, but its \<open>-1\<close> is not less than
  the size read as a signed number). A null pointer is not checked for; \<open>malloc\<close> returns one
  for more than \<open>2 ^ 63 - 1\<close> bytes.
\<close>

definition pp_start :: "bytes list \<Rightarrow> pp_env \<Rightarrow> u64 list \<Rightarrow> pp_outcome result" where
  "pp_start argv e mem =
     (let core1 = arg_or argv 1 atoi 0;
          core2 = arg_or argv 2 atoi 1;
          rs = arg_or argv 3 atoi 1;
          msize = arg_or argv 4 strtoul 1;
          key = generate_key e (ascii ''pingpong'')
      in if e_msgget e key = -1 then ret (Pp_Exit 1)
         else if \<not> e_malloc e (8 + msize) \<or> 2 ^ 63 \<le> 8 + msize then undef
         else if e_fork e = -1 then ret (Pp_Exit 0)
         else
           let parent_ok = setup_ok (e_affinity e core2) (fst (e_parent e)) (snd (e_parent e));
               child_ok = setup_ok (e_affinity e core1) (fst (e_child e)) (snd (e_child e))
           in if 8 + msize < 8 \<and> 0 < rs \<and> (parent_ok \<or> child_ok) then undef
              else ret (Pp_Run
                \<lparr>runs = rs, msgsize = unat msize, msg_max = e_msg_max e, q_bytes = e_q_bytes e,
                 p_ok = parent_ok, c_ok = child_ok\<rparr>
                (pingpong_init mem (e_queue e key))))"

lemma pp_start_run:
  "pp_start argv e mem = ret (Pp_Run P s) \<Longrightarrow>
   s = pingpong_init mem (e_queue e (generate_key e (ascii ''pingpong''))) \<and> runs P = arg_or argv 3 atoi 1 \<and> msgsize P = unat (arg_or argv 4 strtoul 1)
     \<and> msg_max P = e_msg_max e \<and> q_bytes P = e_q_bytes e"
  by (auto simp: pp_start_def Let_def split: if_splits)

section \<open>The contract\<close>

text \<open>
  Messages sent by the parent and messages answered by the child: at most one is open, and
  \<open>total\<close> are exchanged in all.
\<close>

inductive exchange :: "nat \<Rightarrow> nat \<times> nat \<Rightarrow> nat \<times> nat \<Rightarrow> bool" for total_msgs where
  ping: "a < total_msgs \<Longrightarrow> exchange total_msgs (a, a) (Suc a, a)"
| pong: "exchange total_msgs (Suc a, a) (Suc a, Suc a)"

inductive_simps exchange_simps: "exchange n x y"

section \<open>The processes implement it\<close>

text \<open>The contract's view of a state.\<close>

definition pp_view :: "pingpong \<Rightarrow> nat \<times> nat" where
  "pp_view s = (sent s, replied s)"

text \<open>The order of the four counters when the queue was empty at the start.\<close>

lemma pp_inv_order:
  assumes "pp_inv 0 0 P s"
  shows "answered s \<le> replied s" "replied s \<le> taken P s" "taken P s \<le> sent s" "sent s \<le> Suc (answered s)"
  using assms by (simp_all add: pp_inv_def counters)

lemma pp_simulates:
  assumes "pp_step P s t" "pp_inv 0 0 P s"
  shows "pp_view t = pp_view s \<or> exchange (pp_total P) (pp_view s) (pp_view t)"
proof -
  have inv: "idx_ok P (p_idx s)" "idx_ok P (c_idx s)" "uniform (msgsize P) (mq s)" "parent_inv 1 P s" "child_inv 1 P s"
    using assms(2) by (simp_all add: pp_inv_def)
  note order = pp_inv_order [OF assms(2)]
  show ?thesis
    using assms(1)
  proof (cases rule: pp_step.cases)
    case (p_send q start)
    have "fst (p_idx s) < runs P" using inv(4) p_send(2) by (simp add: parent_inv_def)
    with idx_ok_less [OF inv(1)] p_send order show ?thesis
      by (simp add: pp_view_def exchange_simps counters split: if_splits)
  next
    case (p_receive r q stop)
    with idx_ok_next(2) [OF inv(1) parent_running [OF inv(4)]] show ?thesis by (simp add: pp_view_def counters)
  next
    case (p_receive_short r q)
    with msgrcv_Some [OF p_receive_short(3) inv(3)] show ?thesis by simp
  next
    case (c_send q)
    with idx_ok_next(2) [OF inv(2) child_running [OF inv(5)]] order show ?thesis
      by (auto simp: pp_view_def counters exchange_simps split: if_splits)
  qed (auto simp: pp_view_def counters)
qed

lemma pp_view_queue:
  assumes "pp_inv 0 0 P s" "mq s \<noteq> []"
  shows "mq s = [(if snd (pp_view s) < fst (pp_view s) then server_message else client_message, msgsize P)]"
proof -
  have inv: "uniform (msgsize P) (mq s)" "taken P s + of_type server_message (mq s) = sent s"
    "answered s + of_type client_message (mq s) = replied s"
    using assms(1) by (simp_all add: pp_inv_def)
  note order = pp_inv_order [OF assms(1)]
  obtain m where m: "mq s = [m]"
    using assms(2) pp_inv_length(1) [OF assms(1)] by (cases "mq s") auto
  with inv(1) have "snd m = msgsize P" "fst m = client_message \<or> fst m = server_message" by auto
  then show ?thesis
  proof (elim disjE)
    assume ty: "fst m = client_message"
    with m inv(2,3) order have "replied s = sent s" by simp
    with m ty \<open>snd m = msgsize P\<close> show ?thesis by (simp add: pp_view_def prod_eq_iff)
  next
    assume ty: "fst m = server_message"
    with m inv(2) order have "replied s < sent s" by simp
    with m ty \<open>snd m = msgsize P\<close> show ?thesis by (simp add: pp_view_def prod_eq_iff)
  qed
qed

interpretation pp_refinement: simulation "\<lambda>_ :: unit. pp_step P" "pp_inv 0 0 P" pp_view "exchange (pp_total P)"
  by unfold_locales (rule pp_simulates)

lemma pp_refines:
  assumes "(pp_step P)\<^sup>*\<^sup>* (pingpong_init mem []) s" "length mem = rounds"
  shows "(exchange (pp_total P))\<^sup>*\<^sup>* (0, 0) (pp_view s)"
proof -
  obtain ls where "lrun (\<lambda>_ :: unit. pp_step P) (pingpong_init mem []) ls s"
    using rtranclp_lrun [OF assms(1)] by blast
  with pp_refinement.run_sim pp_inv_init [OF assms(2), of P "[]"]
  have "(exchange (pp_total P))\<^sup>*\<^sup>* (pp_view (pingpong_init mem [])) (pp_view s)" by simp
  then show ?thesis by (simp add: pp_view_def pingpong_init_def counters)
qed

lemma pp_finished_view:
  assumes "pp_inv 0 0 P s" "finished s"
  shows "pp_view s = (pp_total P, pp_total P)"
proof -
  have inv: "idx_ok P (p_idx s)" "idx_ok P (c_idx s)" "parent_inv 1 P s" "child_inv 1 P s"
    using assms(1) by (simp_all add: pp_inv_def)
  with assms(2) idx_ok_less [OF inv(1)] idx_ok_less [OF inv(2)] show ?thesis
    by (simp add: finished_def parent_inv_def child_inv_def pp_view_def counters idx_ok_def)
qed

section \<open>Properties\<close>

text \<open>
  C25: the two processes refine the contract. From the command line on (arguments, queue,
  buffer, \<open>fork\<close>, setup calls), if the queue of the program's key is empty, every run of the two processes,
  however they are interleaved, is a run of the counter of messages sent and answered, step
  by step: each step leaves both numbers alone, or sends when nothing is open and fewer
  than \<open>runs * 1100\<close> messages have been sent, or answers the one that is open. The queue
  holds nothing but the open message or its answer, and a finished run has sent and
  answered all.
\<close>

theorem pingpong_refines_exchange:
  assumes "pp_start argv e mem = ret (Pp_Run P s0)" "(pp_step P)\<^sup>*\<^sup>* s0 s" "length mem = rounds"
    "e_queue e (generate_key e (ascii ''pingpong'')) = []"
  defines "n \<equiv> nat (arg_or argv 3 atoi 1) * 1100"
  shows "(exchange n)\<^sup>*\<^sup>* (0, 0) (pp_view s)
    \<and> (pp_step P s t \<longrightarrow> pp_view t = pp_view s \<or> exchange n (pp_view s) (pp_view t))
    \<and> (mq s \<noteq> [] \<longrightarrow> mq s = [(if snd (pp_view s) < fst (pp_view s) then server_message else client_message,
                               unat (arg_or argv 4 strtoul 1))])
    \<and> (finished s \<longrightarrow> pp_view s = (n, n))"
proof -
  note P = pp_start_run [OF assms(1)]
  then have run: "(pp_step P)\<^sup>*\<^sup>* (pingpong_init mem []) s" using assms(2,4) by simp
  have inv: "pp_inv 0 0 P s" using pp_reach [OF run assms(3)] by simp
  have "n = pp_total P" using P by (simp add: n_def pp_total_def)
  with pp_refines [OF run assms(3)] pp_simulates [OF _ inv] pp_view_queue [OF inv] pp_finished_view [OF inv] P
  show ?thesis by auto
qed

theorem pingpong_refines_exchange_witness:
  "let e = \<lparr>e_ftok = (\<lambda>path proj. int (length path) + uint proj), e_msgget = (\<lambda>key. 0), e_malloc = (\<lambda>n. True), e_fork = 7, e_affinity = (\<lambda>c. 0), e_parent = (0, 0),
            e_child = (0, 0), e_msg_max = 8192, e_q_bytes = 16384,
            e_queue = (\<lambda>key. if key = 96 then [] else [(client_message, 1)])\<rparr>
   in \<exists>P s0 s. pp_start [ascii ''pingpong''] e (replicate 1100 0) = ret (Pp_Run P s0)
        \<and> (pp_step P)\<^sup>*\<^sup>* s0 s \<and> pp_view s = (1, 0) \<and> (exchange 1100)\<^sup>*\<^sup>* (0, 0) (1, 0)
        \<and> mq s = [(server_message, 1)]"
proof -
  let ?e = "\<lparr>e_ftok = (\<lambda>path proj. int (length path) + uint proj), e_msgget = (\<lambda>key. 0), e_malloc = (\<lambda>n. True), e_fork = 7, e_affinity = (\<lambda>c. 0), e_parent = (0, 0),
            e_child = (0, 0), e_msg_max = 8192, e_q_bytes = 16384,
            e_queue = (\<lambda>key. if key = 96 then [] else [(client_message, 1)])\<rparr>"
  let ?P = "\<lparr>runs = 1, msgsize = 1, msg_max = 8192, q_bytes = 16384, p_ok = True, c_ok = True\<rparr>"
  let ?i = "pingpong_init (replicate 1100 0) []"
  let ?s = "?i\<lparr>p_pc := Receive, p_start := 0, mq := [(server_message, 1)]\<rparr>"
  have key: "generate_key ?e (ascii ''pingpong'') = 96"
    by (simp add: generate_key_def ascii_def)
  have start: "pp_start [ascii ''pingpong''] ?e (replicate 1100 0) = ret (Pp_Run ?P ?i)"
    by (simp add: pp_start_def arg_or_def setup_ok_def word_le_nat_alt key)
  have "pp_step ?P ?i (?i\<lparr>p_pc := Send\<rparr>)"
    using p_setup [of ?i ?P] by (simp add: pingpong_init_def loop_head_def)
  moreover have "pp_step ?P (?i\<lparr>p_pc := Send\<rparr>) ?s"
    using p_send [of "?i\<lparr>p_pc := Send\<rparr>" ?P "[(server_message, 1)]" 0] by (simp add: pingpong_init_def msgsnd_def)
  ultimately have run: "(pp_step ?P)\<^sup>*\<^sup>* ?i ?s" by (meson converse_rtranclp_into_rtranclp r_into_rtranclp)
  have view: "pp_view ?s = (1, 0)" and queue: "mq ?s = [(server_message, 1)]"
    by (simp_all add: pp_view_def pingpong_init_def counters)
  have "(exchange 1100)\<^sup>*\<^sup>* (0, 0) (1, 0)"
    using pingpong_refines_exchange [OF start run] key view by (simp add: arg_or_def)
  with start run view queue show ?thesis unfolding Let_def by blast
qed

end
