(* ===== verification/Files.thy ===== *)
theory Files
  imports Posix
begin

text \<open>
  A regular file as a sequence of writes sees it: its contents and the offset of the
  descriptor. The abstract counterpart of an output channel: what the writes logged in a
  channel, with the results the kernel gave for them, make of the file.
\<close>

section \<open>Contents and offset\<close>

record ofile =
  f_data :: bytes
  f_off :: nat

text \<open>\<open>O_TRUNC\<close> empties the file when it is opened.\<close>

definition file_open :: "bool \<Rightarrow> bytes \<Rightarrow> ofile" where
  "file_open trunc old = \<lparr>f_data = (if trunc then [] else old), f_off = 0\<rparr>"

text \<open>A call of \<open>write\<close> with the result \<open>r\<close>: the first \<open>r\<close> bytes replace what was there.\<close>

definition file_write :: "int \<Rightarrow> bytes \<Rightarrow> ofile \<Rightarrow> ofile" where
  "file_write r bs f =
     (let d = take (nat r) bs
      in f\<lparr>f_data := take (f_off f) (f_data f) @ d @ drop (f_off f + length d) (f_data f),
           f_off := f_off f + length d\<rparr>)"

text \<open>The results as in \<open>outchan\<close>: once they are used up every call takes all its bytes.\<close>

fun file_writes :: "int list \<Rightarrow> bytes list \<Rightarrow> ofile \<Rightarrow> ofile" where
  "file_writes rs [] f = f"
| "file_writes [] (d # ds) f = file_writes [] ds (file_write (int (length d)) d f)"
| "file_writes (r # rs) (d # ds) f = file_writes rs ds (file_write r d f)"

text \<open>The file after a channel that started empty has been written through.\<close>

definition file_after :: "bool \<Rightarrow> bytes \<Rightarrow> int list \<Rightarrow> outchan \<Rightarrow> bytes" where
  "file_after trunc old rs out = f_data (file_writes rs (out_log out) (file_open trunc old))"

section \<open>What is accepted\<close>

text \<open>A short write drops the rest of its data, a failing one all of it.\<close>

fun accepted :: "int list \<Rightarrow> bytes list \<Rightarrow> bytes" where
  "accepted rs [] = []"
| "accepted [] (d # ds) = d @ accepted [] ds"
| "accepted (r # rs) (d # ds) = take (nat r) d @ accepted rs ds"

lemma accepted_Nil: "accepted [] ds = concat ds"
  by (induction ds) simp_all

lemma file_write_off: "f_off f \<le> length (f_data f) \<Longrightarrow> f_off (file_write r d f) \<le> length (f_data (file_write r d f))"
  by (simp add: file_write_def Let_def)

lemma file_writes_eq:
  "f_off f \<le> length (f_data f) \<Longrightarrow>
   file_writes rs ds f
     = f\<lparr>f_data := take (f_off f) (f_data f) @ accepted rs ds @ drop (f_off f + length (accepted rs ds)) (f_data f),
         f_off := f_off f + length (accepted rs ds)\<rparr>"
proof (induction rs ds f rule: file_writes.induct)
  case (2 d ds f)
  with file_write_off [OF "2.prems", of "int (length d)" d] show ?case
    by (simp add: file_write_def Let_def ac_simps)
next
  case (3 r rs d ds f)
  have "take (min (nat r) (length d)) d = take (nat r) d" by (simp add: min_def)
  with 3 file_write_off [OF "3.prems", of r d] show ?case
    by (simp add: file_write_def Let_def ac_simps)
qed simp

text \<open>Writing from the start overlays what was accepted; the rest of an old file stays.\<close>

lemma file_after_eq:
  "file_after trunc old rs out
     = accepted rs (out_log out) @ (if trunc then [] else drop (length (accepted rs (out_log out))) old)"
  by (simp add: file_after_def file_writes_eq file_open_def)

section \<open>Channels\<close>

lemma os_write_log_res:
  "os_write out d = (r, out') \<Longrightarrow> out_log out' = out_log out @ [d] \<and> out_res out' = tl (out_res out)"
  by (auto simp: os_write_def split: list.splits)

text \<open>A channel after the same buffer has been written \<open>n\<close> times.\<close>

definition chan_writes :: "nat \<Rightarrow> bytes \<Rightarrow> outchan \<Rightarrow> outchan" where
  "chan_writes n d out = out\<lparr>out_res := drop n (out_res out), out_log := out_log out @ replicate n d\<rparr>"

lemma chan_writes_0 [simp]: "chan_writes 0 d out = out"
  by (simp add: chan_writes_def)

lemma chan_writes_Suc: "chan_writes n d (snd (os_write out d)) = chan_writes (Suc n) d out"
  by (cases out) (simp add: chan_writes_def os_write_def split: list.splits)

end
