(* ===== verification/File_Apps.thy ===== *)
theory File_Apps
  imports Files Numtext Platform
begin

text \<open>
  The benchmarks \<^verbatim>\<open>apps/write/write.c\<close> and \<^verbatim>\<open>apps/read/read.c\<close>. Reads come from a script of
  the kernel, writes go to an output channel whose return values nobody looks at; what the
  file holds afterwards is what the kernel accepted.
\<close>

abbreviation buffer_size :: nat where
  "buffer_size \<equiv> 4096"

section \<open>The loops\<close>

text \<open>
  The size on the command line is an \<open>int\<close> converted to \<open>size_t\<close>. The loop may never end;
  it returns the channel.
\<close>

partial_function (option) write_loop :: "u64 \<Rightarrow> u64 \<Rightarrow> bytes \<Rightarrow> outchan \<Rightarrow> outchan option" where
  "write_loop wanted pos buf out =
     (if pos < wanted then write_loop wanted (pos + 4096) buf (snd (os_write out buf)) else Some out)"

definition write_total :: "bytes \<Rightarrow> u64" where
  "write_total arg = of_int (atoi arg)"

text \<open>The fourth argument \<open>notrunc\<close> keeps the file's contents.\<close>

definition write_trunc :: "bytes list \<Rightarrow> bool" where
  "write_trunc argv \<longleftrightarrow> length argv < 4 \<or> argv ! 3 \<noteq> ascii ''notrunc''"

lemma write_loop_ends:
  "unat wanted \<le> 2 ^ 64 - 4096 \<Longrightarrow> unat pos \<le> 2 ^ 64 - 4096 \<Longrightarrow>
   write_loop wanted pos buf out = Some (chan_writes ((unat wanted - unat pos + 4095) div 4096) buf out)"
proof (induction "unat wanted - unat pos" arbitrary: pos out rule: less_induct)
  case less
  show ?case
  proof (cases "pos < wanted")
    case False
    then have "unat wanted - unat pos = 0" by (simp add: word_less_nat_alt)
    with False show ?thesis by (simp add: write_loop.simps [of wanted pos])
  next
    case True
    let ?out = "snd (os_write out buf)"
    from True have lt: "unat pos < unat wanted" by (simp add: word_less_nat_alt)
    then have next_pos: "unat (pos + 4096) = unat pos + 4096"
      using less.prems by (simp add: unat_word_ariths)
    show ?thesis
    proof (cases "unat pos + 4096 \<le> 2 ^ 64 - 4096")
      case inside: True
      have "write_loop wanted (pos + 4096) buf ?out
          = Some (chan_writes ((unat wanted - unat (pos + 4096) + 4095) div 4096) buf ?out)"
        using inside next_pos lt less.prems(1) by (intro less.hyps) auto
      moreover have "Suc ((unat wanted - (unat pos + 4096) + 4095) div 4096)
          = (unat wanted - unat pos + 4095) div 4096"
      proof (cases "unat pos + 4096 \<le> unat wanted")
        case True
        then have "unat wanted - unat pos + 4095 = (unat wanted - (unat pos + 4096) + 4095) + 1 * 4096" by simp
        then show ?thesis by (simp only: div_mult_self1)
      next
        case False
        then have "(unat wanted - unat pos + 4095) div 4096 = 1" using lt by (intro div_nat_eqI) auto
        with False show ?thesis by simp
      qed
      ultimately show ?thesis
        using True next_pos by (simp add: write_loop.simps [of wanted pos] chan_writes_Suc)
    next
      case False
      then have "write_loop wanted (pos + 4096) buf ?out = Some (chan_writes 0 buf ?out)"
        using less.prems next_pos by (simp add: write_loop.simps [of wanted "pos + 4096"] word_less_nat_alt)
      moreover have "(unat wanted - unat pos + 4095) div 4096 = Suc 0"
        using False lt less.prems by (intro div_nat_eqI) auto
      ultimately show ?thesis using True next_pos
        by (simp only: write_loop.simps [of wanted pos] chan_writes_Suc if_True)
    qed
  qed
qed

lemma write_loop_never:
  assumes "2 ^ 64 - 4096 < unat wanted" "unat pos mod 4096 = 0"
  shows "write_loop wanted pos buf out = None"
proof (rule ccontr)
  assume "write_loop wanted pos buf out \<noteq> None"
  then obtain y where "write_loop wanted pos buf out = Some y" by blast
  then have never: "unat pos mod 4096 = 0 \<longrightarrow> 2 ^ 64 - 4096 < unat wanted \<longrightarrow> False"
  proof (rule write_loop.raw_induct [rotated])
    fix loop and wanted pos :: u64 and buf out y
    assume IH: "\<And>wanted pos buf out y. loop wanted pos buf out = Some y \<Longrightarrow>
        unat pos mod 4096 = 0 \<longrightarrow> 2 ^ 64 - 4096 < unat wanted \<longrightarrow> False"
      and body: "(if pos < wanted then loop wanted (pos + 4096) buf (snd (os_write out buf)) else Some out) = Some y"
    show "unat pos mod 4096 = 0 \<longrightarrow> 2 ^ 64 - 4096 < unat wanted \<longrightarrow> False"
    proof (intro impI)
      assume al: "unat pos mod 4096 = 0" and tot: "2 ^ 64 - 4096 < unat wanted"
      have "unat pos \<le> 2 ^ 64 - 4096"
      proof (rule ccontr)
        assume "\<not> unat pos \<le> 2 ^ 64 - 4096"
        moreover obtain q where q: "unat pos = 4096 * q" using al by auto
        moreover have "q < 4503599627370496" using unat_u64_less [of pos] q by simp
        ultimately show False by simp
      qed
      with tot body have run: "loop wanted (pos + 4096) buf (snd (os_write out buf)) = Some y"
        by (simp add: word_less_nat_alt)
      have al': "unat (pos + 4096) mod 4096 = 0"
        using al by (simp add: unat_word_ariths mod_mod_cancel)
      show False using IH [OF run] al' tot by blast
    qed
  qed
  show False using never [THEN mp, THEN mp, OF assms(2) assms(1)] .
qed

text \<open>
  \<open>write\<close> writes the size rounded up to whole 4 KiB blocks; for a size within 4095 of
  \<open>2 ^ 64\<close> the position wraps around before it reaches the size and the loop never ends.
\<close>

lemma write_loop_result:
  "write_loop sz 0 buf out
     = (if unat sz \<le> 2 ^ 64 - 4096 then Some (chan_writes ((unat sz + 4095) div 4096) buf out) else None)"
  using write_loop_ends [of sz 0] write_loop_never [of sz 0] by (cases "unat sz \<le> 2 ^ 64 - 4096") simp_all

text \<open>The loop of \<open>read\<close> only looks at the count.\<close>

function read_loop :: "read_ev list \<Rightarrow> nat \<Rightarrow> (nat \<times> read_ev list) option" where
  "read_loop es n =
     (case os_read es buffer_size of
        None \<Rightarrow> None
      | Some (count, bs, es') \<Rightarrow> if count > 0 then read_loop es' (Suc n) else Some (n, es'))"
  by pat_completeness auto
termination
  by (relation "measure (\<lambda>(es, n). script_size es)") (auto dest: os_read_progress)

declare read_loop.simps [simp del]

section \<open>The measured rounds\<close>

text \<open>
  Both programs open the file, run their loop and close it in each of 14 rounds and keep
  the times of the last ten. A round is given by the result of \<open>open\<close>, the two clock
  readings and what the kernel does with the descriptor. \<open>write\<close> asks \<open>open\<close> to create the
  file and passes no mode: a new file gets arbitrary permissions, with which the \<open>open\<close> of a
  later round may fail; the results of the rounds are arbitrary here, so that is one of
  them. The result: the times, or \<open>None\<close>
  for the exit code 1, and for \<open>write\<close> how the file was opened and what was written, for
  each round.
\<close>

fun write_rounds ::
  "u64 \<Rightarrow> bool \<Rightarrow> (int \<times> outchan \<times> u64 \<times> u64) list \<Rightarrow> nat \<Rightarrow> u64 list \<Rightarrow> (bool \<times> outchan) list
     \<Rightarrow> (u64 list option \<times> (bool \<times> outchan) list) result"
where
  "write_rounds sz trunc [] i ts outs = ret (Some ts, outs)"
| "write_rounds sz trunc ((fd, out, start, stop) # rs) i ts outs =
     (if fd = -1 then ret (None, outs)
      else case write_loop sz 0 (replicate buffer_size 0) out of
             None \<Rightarrow> never
           | Some out' \<Rightarrow>
               if i \<ge> 4 then
                 if length ts \<le> i - 4 then undef
                 else write_rounds sz trunc rs (Suc i) (ts[i - 4 := stop - start]) (outs @ [(trunc, out')])
               else write_rounds sz trunc rs (Suc i) ts (outs @ [(trunc, out')]))"

fun read_rounds :: "(int \<times> read_ev list \<times> u64 \<times> u64) list \<Rightarrow> nat \<Rightarrow> u64 list \<Rightarrow> u64 list option result" where
  "read_rounds [] i ts = ret (Some ts)"
| "read_rounds ((fd, es, start, stop) # rs) i ts =
     (if fd = -1 then ret None
      else case read_loop es 0 of
             None \<Rightarrow> never
           | Some (n, es') \<Rightarrow>
               if i \<ge> 4 then
                 if length ts \<le> i - 4 then undef
                 else read_rounds rs (Suc i) (ts[i - 4 := stop - start])
               else read_rounds rs (Suc i) ts)"

text \<open>What both print: average and deviation.\<close>

definition report_times :: "u64 list option \<Rightarrow> (int \<times> (u64 \<times> u64) option) result" where
  "report_times r =
     (case r of
        None \<Rightarrow> ret (1, None)
      | Some ts \<Rightarrow> rbind (cyc_report ts 10) (\<lambda>rep. ret (0, Some rep)))"

definition write_main ::
  "bytes list \<Rightarrow> (int \<times> outchan \<times> u64 \<times> u64) list \<Rightarrow> (int \<times> (u64 \<times> u64) option \<times> (bool \<times> outchan) list) result"
where
  "write_main argv rs =
     (if length argv < 3 then ret (1, None, [])
      else
        rbind (write_rounds (write_total (argv ! 2)) (write_trunc argv) (take 14 rs) 0 (replicate 10 0) [])
          (\<lambda>(ts, outs). rbind (report_times ts) (\<lambda>(code, rep). ret (code, rep, outs))))"

definition read_main :: "bytes list \<Rightarrow> (int \<times> read_ev list \<times> u64 \<times> u64) list \<Rightarrow> (int \<times> (u64 \<times> u64) option) result" where
  "read_main argv rs =
     (if length argv < 2 then ret (1, None)
      else rbind (read_rounds (take 14 rs) 0 (replicate 10 0)) report_times)"


section \<open>What the rounds leave\<close>

text \<open>
  The durations of the rounds that are kept go into the array in order. A round \<open>r\<close> is
  given by its duration \<open>time r\<close>.
\<close>

definition kept :: "nat \<Rightarrow> u64 list \<Rightarrow> u64 list \<Rightarrow> u64 list" where
  "kept i ds ts = write_at (i - 4) (drop (4 - i) ds) ts"

lemma kept_Nil [simp]: "kept i [] ts = ts"
  by (simp add: kept_def)

lemma kept_measured: "4 \<le> i \<Longrightarrow> i - 4 < length ts \<Longrightarrow> kept (Suc i) ds (ts[i - 4 := d]) = kept i (d # ds) ts"
  using write_at_update [of "i - 4" ts ds d] Suc_diff_le [of 4 i] by (simp add: kept_def)

lemma kept_warmup: "\<not> 4 \<le> i \<Longrightarrow> kept (Suc i) ds ts = kept i (d # ds) ts"
  by (simp add: kept_def drop_Cons' Suc_diff_Suc diff_Suc split: nat.split)

lemma kept_all: "length ds = 14 \<Longrightarrow> kept 0 ds (replicate 10 0) = drop 4 ds"
  by (simp add: kept_def write_at_all)

definition round_time :: "'a \<times> 'b \<times> u64 \<times> u64 \<Rightarrow> u64" where
  "round_time r = snd (snd (snd r)) - fst (snd (snd r))"

lemma write_rounds_good:
  assumes "list_all (\<lambda>r. fst r \<noteq> -1) rs" "unat sz \<le> 2 ^ 64 - 4096" "length ts = 10" "i + length rs \<le> 14"
  shows "write_rounds sz trunc rs i ts outs
    = ret (Some (kept i (map round_time rs) ts),
           outs @ map (\<lambda>r. (trunc, chan_writes ((unat sz + 4095) div 4096) (replicate 4096 0) (fst (snd r)))) rs)"
  using assms(1,3,4)
proof (induction rs arbitrary: i ts outs)
  case (Cons r rs)
  obtain fd out start stop where r: "r = (fd, out, start, stop)" by (cases r) auto
  with Cons.IH [of _ "Suc i"] Cons.prems assms(2) show ?case
    by (cases "4 \<le> i")
      (auto simp: write_loop_result kept_measured kept_warmup round_time_def)
qed simp

lemma read_loop_ends:
  assumes "flowing es" "e = Read_Error \<or> e = Read_Data []"
  shows "\<exists>k. read_loop (es @ e # rest) n = Some (k, rest)"
  using assms(1)
proof (induction "script_size es" arbitrary: es n rule: less_induct)
  case less
  show ?case
  proof (cases es)
    case Nil
    with assms(2) show ?thesis by (auto simp: read_loop.simps [of "e # rest"])
  next
    case (Cons a es0)
    with less.prems obtain bs where bs: "es = Read_Data bs # es0" "bs \<noteq> []" by auto
    define es' where "es' = (if length bs \<le> buffer_size then es0 else Read_Data (drop buffer_size bs) # es0)"
    have "script_size es' < script_size es" "flowing es'"
      using bs less.prems by (auto simp: es'_def script_size_def ev_size_def)
    from less.hyps [OF this, of "Suc n"] bs show ?thesis
      by (auto simp: read_loop.simps [of "Read_Data bs # es0 @ e # rest"] es'_def split: if_splits)
  qed
qed

definition readable :: "read_ev list \<Rightarrow> bool" where
  "readable es \<longleftrightarrow> (\<exists>fs e rest. es = fs @ e # rest \<and> flowing fs \<and> (e = Read_Error \<or> e = Read_Data []))"

lemma read_loop_readable: "readable es \<Longrightarrow> \<exists>k rest. read_loop es n = Some (k, rest)"
  using read_loop_ends unfolding readable_def by blast

lemma read_rounds_good:
  assumes "list_all (\<lambda>r. fst r \<noteq> -1 \<and> readable (fst (snd r))) rs" "length ts = 10" "i + length rs \<le> 14"
  shows "read_rounds rs i ts = ret (Some (kept i (map round_time rs) ts))"
  using assms
proof (induction rs arbitrary: i ts)
  case (Cons r rs)
  obtain fd es start stop where r: "r = (fd, es, start, stop)" by (cases r) auto
  with Cons.prems have "readable es" by simp
  then obtain k rest where "read_loop es 0 = Some (k, rest)" using read_loop_readable by blast
  with r Cons.IH [of _ "Suc i"] Cons.prems show ?case
    by (cases "4 \<le> i") (auto simp: kept_measured kept_warmup round_time_def)
qed simp

lemma report_times_good:
  assumes "length ts = 10" "in_range (measured ts)"
  shows "report_times (Some ts) = ret (0, Some (mean_of (measured ts), stddev_of (measured ts)))"
  using cyc_report_measured [of ts] assms by (simp add: report_times_def)

lemma read_main_good:
  assumes "2 \<le> length argv" "length rs = 14" "list_all (\<lambda>r. fst r \<noteq> -1 \<and> readable (fst (snd r))) rs"
  defines "ts \<equiv> drop 4 (map round_time rs)"
  assumes "in_range (measured ts)"
  shows "read_main argv rs = ret (0, Some (mean_of (measured ts), stddev_of (measured ts)))"
  using assms read_rounds_good [OF assms(3), of "replicate 10 0" 0] report_times_good [of ts]
  by (simp add: read_main_def kept_all)

text \<open>A negative size.\<close>

lemma write_total_negative:
  assumes "1 \<le> n" "n \<le> 4095"
  shows "2 ^ 64 - 4096 < unat (write_total (ascii ''-'' @ show_nat n))"
proof -
  have "write_total (ascii ''-'' @ show_nat n) = - of_nat n"
    using assms atoi_minus_nat [of n] by (simp add: write_total_def)
  moreover have "(of_nat (2 ^ 64 - n) :: u64) = of_nat (2 ^ 64) - of_nat n"
    using assms by (intro of_nat_diff) simp
  then have "- of_nat n = (of_nat (2 ^ 64 - n) :: u64)" by simp
  moreover have "unat (of_nat (2 ^ 64 - n) :: u64) = 2 ^ 64 - n"
    using assms by (subst unat_of_nat) simp
  ultimately show ?thesis using assms by simp
qed

section \<open>Properties\<close>

text \<open>
  C29: the write benchmark. For a size of \<open>n\<close> bytes every one of the 14 rounds writes \<open>n\<close>
  rounded up to whole blocks of 4 KiB: if the kernel takes the writes, the file then holds
  that many zeros, followed with \<open>notrunc\<close> by what an old file had beyond them; and the
  program reports the mean and deviation of the last ten rounds. For the sizes -1 to -4095
  the position wraps around before it reaches the size and the first round never ends.
\<close>

theorem write_benchmark:
  assumes "n < 2 ^ 31" "length rs = 14"
    "list_all (\<lambda>r. fst r \<noteq> -1 \<and> fst (snd r) = \<lparr>out_res = [], out_log = []\<rparr>) rs"
    "in_range (measured (drop 4 (map round_time rs)))"
  defines "ts \<equiv> measured (drop 4 (map round_time rs))"
    and "written \<equiv> (n + 4095) div 4096 * 4096"
  shows "(\<exists>outs. write_main (name # path # show_nat n # opts) rs = ret (0, Some (mean_of ts, stddev_of ts), outs)
      \<and> length outs = 14
      \<and> (\<forall>(trunc, out) \<in> set outs. file_after trunc old [] out
           = replicate written 0 @ (if take 1 opts = [ascii ''notrunc''] then drop written old else [])))
    \<and> (1 \<le> m \<and> m \<le> 4095 \<longrightarrow> write_main (name # path # (ascii ''-'' @ show_nat m) # opts) rs = never)"
proof (intro conjI impI)
  let ?argv = "name # path # show_nat n # opts"
  let ?out = "\<lparr>out_res = [], out_log = replicate ((n + 4095) div 4096) (replicate 4096 0)\<rparr>"
  have sz: "unat (write_total (show_nat n)) = n"
    using atoi_show_nat [OF assms(1)] assms(1) by (simp add: write_total_def unat_of_nat)
  have fds: "list_all (\<lambda>r. fst r \<noteq> -1) rs" using assms(3) by (simp add: list_all_iff)
  have "map (\<lambda>r. (write_trunc ?argv, chan_writes ((n + 4095) div 4096) (replicate 4096 0) (fst (snd r)))) rs
      = replicate 14 (write_trunc ?argv, ?out)"
    using assms(2,3) by (intro replicate_eqI) (auto simp: list_all_iff chan_writes_def)
  moreover note write_rounds_good [OF fds, of "write_total (show_nat n)" "replicate 10 0" 0 "write_trunc ?argv" "[]"]
  ultimately have "write_main ?argv rs
      = ret (0, Some (mean_of ts, stddev_of ts), replicate 14 (write_trunc ?argv, ?out))"
    using assms(1,2,4) sz report_times_good [of "drop 4 (map round_time rs)"]
    by (simp add: write_main_def kept_all ts_def)
  moreover have "write_trunc ?argv \<longleftrightarrow> take 1 opts \<noteq> [ascii ''notrunc'']"
    by (cases opts) (auto simp: write_trunc_def)
  ultimately show "\<exists>outs. write_main ?argv rs = ret (0, Some (mean_of ts, stddev_of ts), outs) \<and> length outs = 14
      \<and> (\<forall>(trunc, out) \<in> set outs. file_after trunc old [] out
           = replicate written 0 @ (if take 1 opts = [ascii ''notrunc''] then drop written old else []))"
    by (auto simp: file_after_eq accepted_Nil concat_replicate_replicate written_def)
  assume m: "1 \<le> m \<and> m \<le> 4095"
  obtain fd out start stop rs' where "rs = (fd, out, start, stop) # rs'" "fd \<noteq> -1"
    using assms(2,3) by (cases rs) auto
  with m write_total_negative [of m] show "write_main (name # path # (ascii ''-'' @ show_nat m) # opts) rs = never"
    by (simp add: write_main_def write_loop_result)
qed

theorem write_benchmark_witness:
  "\<exists>outs. write_main [ascii ''write'', ascii ''f'', show_nat 5000] (replicate 14 (3, \<lparr>out_res = [], out_log = []\<rparr>, 10, 25))
        = ret (0, Some (15, 0), outs)
     \<and> (\<forall>(trunc, out) \<in> set outs. file_after trunc [1, 2] [] out = replicate 8192 0)"
proof -
  let ?rs = "replicate 14 (3, \<lparr>out_res = [], out_log = []\<rparr>, 10, 25) :: (int \<times> outchan \<times> u64 \<times> u64) list"
  have "measured (drop 4 (map round_time ?rs)) = replicate 8 15" by (simp add: measured_def round_time_def map_replicate)
  with write_benchmark [of 5000 ?rs "ascii ''write''" "ascii ''f''" "[]" "[1, 2]" 1] report_replicate [of 8 15]
  show ?thesis by (simp add: list_all_iff) blast
qed

end
