(* ===== verification/Copy_Apps.thy ===== *)
theory Copy_Apps
  imports File_Apps
begin

text \<open>
  The programs that copy: \<^verbatim>\<open>apps/cat/cat.c\<close>, \<^verbatim>\<open>apps/cp/cp.c\<close> and
  \<^verbatim>\<open>apps/sendfile/sendfile.c\<close>. The first two share their loop; the last two print, for
  each round, its duration and what the patched kernel has measured.
\<close>

section \<open>The copy loop\<close>

text \<open>
  \<^verbatim>\<open>while((count = read(in, buffer, 4096)) > 0) write(out, buffer, count)\<close>: the loop of
  \<open>cp\<close> and of \<open>cat\<close>. A read that fails ends it like the end of the file.
\<close>

function cp_loop :: "read_ev list \<Rightarrow> bytes \<Rightarrow> outchan \<Rightarrow> (bytes \<times> outchan \<times> read_ev list) option" where
  "cp_loop es buf out =
     (case os_read es buffer_size of
        None \<Rightarrow> None
      | Some (count, bs, es') \<Rightarrow>
          if count > 0 then
            let buf' = write_at 0 bs buf; (_, out') = os_write out (take (nat count) buf')
            in cp_loop es' buf' out'
          else Some (write_at 0 bs buf, out, es'))"
  by pat_completeness auto
termination
  by (relation "measure (\<lambda>(es, buf, out). script_size es)") (auto dest: os_read_progress)

declare cp_loop.simps [simp del]

text \<open>\<open>cat\<close>: the exit code and what went to the standard output.\<close>

definition cat_main :: "nat \<Rightarrow> int \<Rightarrow> read_ev list \<Rightarrow> bytes \<Rightarrow> outchan \<Rightarrow> (int \<times> outchan) option" where
  "cat_main argc fd es buf out =
     (if argc > 1 \<and> fd < 0 then Some (1, out)
      else case cp_loop es buf out of None \<Rightarrow> None | Some (_, out', _) \<Rightarrow> Some (0, out'))"

section \<open>cp\<close>

text \<open>
  A round of \<open>cp\<close>: the results of the two \<open>open\<close> calls (the output truncated), the reads,
  the output channel, the two clock readings, and what the kernel does for \<open>smemcpy\<close>.
\<close>

record cp_round =
  cr_in :: int
  cr_out :: int
  cr_reads :: "read_ev list"
  cr_chan :: outchan
  cr_clock :: "u64 \<times> u64"
  cr_kern :: "sys_call \<Rightarrow> u64 option \<times> u64 option"

text \<open>What a round has printed: time, time in \<open>memcpy\<close>, bytes copied; and its two calls.\<close>

type_synonym copy_line = "sys_call list \<times> u64 \<times> u64 \<times> u64"

text \<open>
  The static buffer is passed on from round to round. The result: the exit code, and the
  output and the line of each round.
\<close>

fun cp_rounds ::
  "cp_round list \<Rightarrow> bytes \<Rightarrow> (outchan \<times> copy_line) list \<Rightarrow> (int \<times> (outchan \<times> copy_line) list) result"
where
  "cp_rounds [] buf outs = ret (0, outs)"
| "cp_rounds (r # rs) buf outs =
     (if cr_in r = -1 then ret (1, outs)
      else if cr_out r = -1 then ret (1, outs)
      else
        let (c0, _) = smemcpy (cr_kern r) None
        in case cp_loop (cr_reads r) buf (cr_chan r) of
             None \<Rightarrow> never
           | Some (buf', out', _) \<Rightarrow>
               (case smemcpy (cr_kern r) (Some ''copied'') of
                  (c1, Some memcpy_time, Some copied) \<Rightarrow>
                    cp_rounds rs buf'
                      (outs @ [(out', [c0, c1], snd (cr_clock r) - fst (cr_clock r), memcpy_time, copied)])
                | _ \<Rightarrow> undef))"

definition cp_main :: "nat \<Rightarrow> cp_round list \<Rightarrow> (int \<times> (outchan \<times> copy_line) list) result" where
  "cp_main argc rs = (if argc < 3 then ret (1, []) else cp_rounds (take 5 rs) (replicate buffer_size 0) [])"

section \<open>sendfile\<close>

text \<open>
  A round of \<open>sendfile\<close>: the results of the two \<open>open\<close> calls and of \<open>fstat\<close>, the size of
  the file, what \<open>sendfile\<close> returns for it, the two clock readings, and the kernel.
\<close>

record sendfile_round =
  sf_in :: int
  sf_out :: int
  sf_stat :: int
  sf_size :: int
  sf_send :: "int \<Rightarrow> int"
  sf_clock :: "u64 \<times> u64"
  sf_kern :: "sys_call \<Rightarrow> u64 option \<times> u64 option"

text \<open>The number of bytes really sent is not looked at.\<close>

fun sendfile_rounds :: "sendfile_round list \<Rightarrow> copy_line list \<Rightarrow> (int \<times> copy_line list) result" where
  "sendfile_rounds [] lines = ret (0, lines)"
| "sendfile_rounds (r # rs) lines =
     (if sf_in r = -1 then ret (1, lines)
      else if sf_out r = -1 then ret (1, lines)
      else
        let (c0, _) = smemcpy (sf_kern r) None
        in if sf_stat r = -1 then ret (1, lines)
           else if sf_send r (sf_size r) = -1 then ret (1, lines)
           else
             (case smemcpy (sf_kern r) (Some ''copied'') of
                (c1, Some memcpy_time, Some copied) \<Rightarrow>
                  sendfile_rounds rs
                    (lines @ [([c0, c1], snd (sf_clock r) - fst (sf_clock r), memcpy_time, copied)])
              | _ \<Rightarrow> undef))"

definition sendfile_main :: "nat \<Rightarrow> sendfile_round list \<Rightarrow> (int \<times> copy_line list) result" where
  "sendfile_main argc rs = (if argc < 3 then ret (1, []) else sendfile_rounds (take 5 rs) [])"

section \<open>What is copied\<close>

text \<open>The loop hands over exactly the bytes up to the end of the file or the first failing read.\<close>

fun until_end :: "read_ev list \<Rightarrow> bytes option" where
  "until_end [] = None"
| "until_end (Read_Error # es) = Some []"
| "until_end (Read_Data bs # es) = (if bs = [] then Some [] else map_option ((@) bs) (until_end es))"

lemma until_end_read:
  assumes "os_read es n = Some (r, bs, es')" "0 < n"
  shows "if r > 0 then until_end es = map_option ((@) bs) (until_end es') else until_end es = Some []"
proof (cases "(es, n)" rule: os_read.cases)
  case (3 bs0 es0 n0)
  with assms show ?thesis
    by (cases "length bs0 \<le> n") (auto simp: option.map_comp comp_def simp flip: append_assoc)
qed (use assms in auto)

lemma cp_loop_log:
  assumes "length buf = buffer_size"
  shows "case cp_loop es buf out of
       None \<Rightarrow> until_end es = None
     | Some (buf', out', es') \<Rightarrow> length buf' = buffer_size
         \<and> (\<exists>ds. out_log out' = out_log out @ ds \<and> until_end es = Some (concat ds)
              \<and> out_res out' = drop (length ds) (out_res out) \<and> (\<forall>d \<in> set ds. length d \<le> buffer_size))"
  using assms
proof (induction es buf out rule: cp_loop.induct)
  case (1 es buf out)
  show ?case
  proof (cases "os_read es buffer_size")
    case None
    then have "es = []" by (cases "(es, buffer_size)" rule: os_read.cases) auto
    then show ?thesis by (simp add: cp_loop.simps [of "[]" buf out])
  next
    case (Some x)
    obtain r bs es' where x: "x = (r, bs, es')" by (cases x) auto
    note rd = Some [unfolded x]
    note step = until_end_read [OF rd]
    let ?buf = "write_at 0 bs buf"
    have bs: "length bs \<le> buffer_size" "r > 0 \<Longrightarrow> r = int (length bs)" using os_read_bounds [OF rd] by auto
    have len: "length ?buf = buffer_size" using bs(1) "1.prems" by simp
    show ?thesis
    proof (cases "r > 0")
      case False
      with rd len step show ?thesis
        by (simp add: cp_loop.simps [of es buf out])
    next
      case True
      have tk: "take (nat r) ?buf = bs" using bs True "1.prems" by (simp add: write_at_def)
      obtain w out1 where w: "os_write out bs = (w, out1)" by fastforce
      note log1 = os_write_log_res [OF w]
      have run: "cp_loop es buf out = cp_loop es' ?buf out1"
        using rd True tk w by (simp add: cp_loop.simps [of es buf out])
      have ih: "case cp_loop es' ?buf out1 of
           None \<Rightarrow> until_end es' = None
         | Some (buf', out', es'') \<Rightarrow> length buf' = buffer_size
             \<and> (\<exists>ds. out_log out' = out_log out1 @ ds \<and> until_end es' = Some (concat ds)
                  \<and> out_res out' = drop (length ds) (out_res out1) \<and> (\<forall>d \<in> set ds. length d \<le> buffer_size))"
        using rd True tk w len by (intro "1.IH" [of x r "(bs, es')" bs es' ?buf "(w, out1)" w out1]) (simp_all add: x)
      show ?thesis
      proof (cases "cp_loop es' ?buf out1")
        case None
        with ih run step True show ?thesis by simp
      next
        case (Some y)
        obtain buf' out' es'' where y: "y = (buf', out', es'')" by (cases y) auto
        from ih Some y obtain ds where ds: "length buf' = buffer_size" "out_log out' = out_log out1 @ ds"
          "until_end es' = Some (concat ds)" "out_res out' = drop (length ds) (out_res out1)"
          "\<forall>d \<in> set ds. length d \<le> buffer_size" by auto
        have "out_log out' = out_log out @ (bs # ds)" "until_end es = Some (concat (bs # ds))"
          "out_res out' = drop (length (bs # ds)) (out_res out)"
          using ds log1 step True by (simp_all add: drop_Suc)
        with ds bs run Some y show ?thesis by (auto intro!: exI [of _ "bs # ds"])
      qed
    qed
  qed
qed

lemma until_end_flowing:
  "flowing es \<Longrightarrow> e = Read_Error \<or> e = Read_Data [] \<Longrightarrow> until_end (es @ e # rest) = Some (stream_of es)"
  by (induction es) auto

text \<open>
  Whatever chunks the kernel delivers, the loop ends at the end of the file or at the first
  failing read, which it does not tell apart; the writes, of at most 4 KiB each, are
  together exactly the bytes read.
\<close>

lemma cp_loop_copies:
  assumes "flowing es" "e = Read_Error \<or> e = Read_Data []" "length buf = buffer_size"
  shows "\<exists>buf' out' es' ds. cp_loop (es @ e # rest) buf out = Some (buf', out', es') \<and> length buf' = buffer_size
     \<and> out_log out' = out_log out @ ds \<and> concat ds = stream_of es \<and> (\<forall>d \<in> set ds. length d \<le> buffer_size)"
  using cp_loop_log [OF assms(3), of "es @ e # rest" out] until_end_flowing [OF assms(1,2), of rest]
  by (auto split: option.splits)

section \<open>What the rounds print\<close>

text \<open>The line of a round on a kernel with the patch.\<close>

definition patched_line :: "u64 \<times> u64 \<Rightarrow> u64 \<Rightarrow> u64 \<Rightarrow> copy_line" where
  "patched_line clock cycles copied =
     ([Sys_Call 0 [Ptr ''cycles'', Val 0], Sys_Call 0 [Ptr ''cycles'', Ptr ''copied'']],
      snd clock - fst clock, cycles, copied)"

definition cp_good :: "cp_round \<Rightarrow> bytes \<times> copy_line \<Rightarrow> bool" where
  "cp_good r l \<longleftrightarrow> cr_in r \<noteq> -1 \<and> cr_out r \<noteq> -1 \<and> out_log (cr_chan r) = []
     \<and> (\<exists>es e rest. cr_reads r = es @ e # rest \<and> flowing es \<and> (e = Read_Error \<or> e = Read_Data []) \<and> fst l = stream_of es)
     \<and> (\<exists>cycles copied. patched (cr_kern r) cycles copied \<and> snd l = patched_line (cr_clock r) cycles copied)"

text \<open>What the output of a round has received.\<close>

definition cp_written :: "cp_round \<Rightarrow> bytes \<times> copy_line \<Rightarrow> outchan \<times> copy_line \<Rightarrow> bool" where
  "cp_written r l w \<longleftrightarrow> snd w = snd l \<and> concat (out_log (fst w)) = fst l
     \<and> list_all (\<lambda>d. length d \<le> buffer_size) (out_log (fst w))"

lemma cp_round_good:
  assumes "cp_good r l" "length buf = buffer_size"
  shows "\<exists>w buf'. cp_rounds (r # rs) buf outs = cp_rounds rs buf' (outs @ [w]) \<and> length buf' = buffer_size \<and> cp_written r l w"
proof -
  from assms(1) obtain es e rest cycles copied where r: "cr_in r \<noteq> -1" "cr_out r \<noteq> -1" "out_log (cr_chan r) = []"
    "cr_reads r = es @ e # rest" "flowing es" "e = Read_Error \<or> e = Read_Data []" "fst l = stream_of es"
    "patched (cr_kern r) cycles copied" "snd l = patched_line (cr_clock r) cycles copied"
    by (auto simp: cp_good_def)
  obtain buf' out' es' ds where run: "cp_loop (cr_reads r) buf (cr_chan r) = Some (buf', out', es')"
    "length buf' = buffer_size" "out_log out' = ds" "concat ds = stream_of es" "\<forall>d \<in> set ds. length d \<le> buffer_size"
    using cp_loop_copies [OF r(5,6) assms(2), of rest "cr_chan r"] r(3,4) by auto
  then have "cp_rounds (r # rs) buf outs = cp_rounds rs buf' (outs @ [(out', snd l)])"
    using r by (simp add: smemcpy_patched patched_line_def)
  moreover have "cp_written r l (out', snd l)" using run r(7) by (simp add: cp_written_def list_all_iff)
  ultimately show ?thesis using run(2) by blast
qed

lemma cp_rounds_good:
  "list_all2 cp_good rs ls \<Longrightarrow> length buf = buffer_size \<Longrightarrow>
   \<exists>ws buf'. cp_rounds (rs @ rest) buf outs = cp_rounds rest buf' (outs @ ws)
     \<and> list_all2 (\<lambda>(r, l) w. cp_written r l w) (zip rs ls) ws"
proof (induction rs ls arbitrary: buf outs rule: list_all2_induct)
  case (Cons r rs l ls)
  obtain w buf' where w: "cp_rounds (r # rs @ rest) buf outs = cp_rounds (rs @ rest) buf' (outs @ [w])"
    "length buf' = buffer_size" "cp_written r l w"
    using cp_round_good [OF Cons(1,4), of "rs @ rest" outs] by blast
  obtain ws buf2 where "cp_rounds (rs @ rest) buf' (outs @ [w]) = cp_rounds rest buf2 ((outs @ [w]) @ ws)"
    "list_all2 (\<lambda>(r, l) w. cp_written r l w) (zip rs ls) ws"
    using Cons.IH [OF w(2)] by blast
  with w show ?case by (intro exI [of _ "w # ws"] exI [of _ buf2]) (simp del: cp_rounds.simps)
qed auto

lemma cp_written_all:
  assumes "list_all2 (\<lambda>(r, l) w. cp_written r l w) (zip rs ls) ws" "length rs = length ls"
  shows "map snd ws = map snd ls" "i < length rs \<Longrightarrow> cp_written (rs ! i) (ls ! i) (ws ! i)"
proof -
  have len: "length ws = length ls" using list_all2_lengthD [OF assms(1)] assms(2) by simp
  show at: "cp_written (rs ! i) (ls ! i) (ws ! i)" if "i < length rs" for i
    using list_all2_nthD [OF assms(1), of i] that assms(2) by simp
  then show "map snd ws = map snd ls" using len assms(2) by (intro nth_equalityI) (simp_all add: cp_written_def)
qed

text \<open>A file that cannot be opened, after any number of good rounds.\<close>

lemma cp_open_fails:
  assumes "list_all2 cp_good rs ls" "length rs < 5" "3 \<le> argc" "cr_in r = -1 \<or> cr_out r = -1"
  shows "\<exists>ws. cp_main argc (rs @ r # rs') = ret (1, ws) \<and> map snd ws = map snd ls
     \<and> (\<forall>i < length rs. concat (out_log (fst (ws ! i))) = fst (ls ! i))"
proof -
  obtain ws buf' where "cp_rounds (rs @ take (5 - length rs) (r # rs')) (replicate buffer_size 0) []
      = cp_rounds (take (5 - length rs) (r # rs')) buf' ([] @ ws)"
    and ws: "list_all2 (\<lambda>(r, l) w. cp_written r l w) (zip rs ls) ws"
    using cp_rounds_good [OF assms(1), of "replicate buffer_size 0"] by fastforce
  moreover have "take (5 - length rs) (r # rs') = r # take (4 - length rs) rs'"
    using assms(2) by (simp add: take_Cons')
  ultimately have "cp_main argc (rs @ r # rs') = ret (1, ws)" using assms(2-4) by (auto simp: cp_main_def)
  with cp_written_all [OF ws list_all2_lengthD [OF assms(1)]] show ?thesis
    by (intro exI [of _ ws]) (simp add: cp_written_def)
qed

text \<open>\<open>cat\<close> is the loop alone.\<close>

lemma cat_copies:
  assumes "flowing es" "e = Read_Error \<or> e = Read_Data []" "length buf = buffer_size" "argc \<le> 1 \<or> 0 \<le> fd"
  shows "\<exists>out' ds. cat_main argc fd (es @ e # rest) buf out = Some (0, out')
     \<and> out_log out' = out_log out @ ds \<and> concat ds = stream_of es"
  using cp_loop_copies [OF assms(1-3), of rest out] assms(4) by (auto simp: cat_main_def)

definition sf_good :: "sendfile_round \<Rightarrow> copy_line \<Rightarrow> bool" where
  "sf_good r l \<longleftrightarrow> sf_in r \<noteq> -1 \<and> sf_out r \<noteq> -1 \<and> sf_stat r \<noteq> -1 \<and> sf_send r (sf_size r) \<noteq> -1
     \<and> (\<exists>cycles copied. patched (sf_kern r) cycles copied \<and> l = patched_line (sf_clock r) cycles copied)"

lemma sendfile_good: "list_all2 sf_good rs ls \<Longrightarrow> sendfile_rounds rs lines = ret (0, lines @ ls)"
  by (induction rs ls arbitrary: lines rule: list_all2_induct) (auto simp: sf_good_def smemcpy_patched patched_line_def)

lemma sendfile_main_good: "3 \<le> argc \<Longrightarrow> length rs = 5 \<Longrightarrow> list_all2 sf_good rs ls \<Longrightarrow> sendfile_main argc rs = ret (0, ls)"
  using sendfile_good [of rs ls "[]"] by (simp add: sendfile_main_def)

text \<open>Without the patch there is nothing to print.\<close>

lemma sendfile_unpatched:
  assumes "sf_in r \<noteq> -1" "sf_out r \<noteq> -1" "sf_stat r \<noteq> -1" "sf_send r (sf_size r) \<noteq> -1"
    "\<And>c. sf_kern r c = (None, None)" "3 \<le> argc"
  shows "sendfile_main argc (r # rs) = undef"
  using assms by (simp add: sendfile_main_def smemcpy_def)

section \<open>Properties\<close>

text \<open>
  C30: \<open>cp\<close> copies. In each of its five rounds, whatever chunks the kernel delivers, the
  writes, of at most 4 KiB each, are together exactly the bytes up to the end of the input
  or to the first failing read, which it does not tell apart. The output file then holds
  what the kernel accepted of them, and so all of them if no write is short. With the
  patched kernel the program ends with code 0 and prints, for each round, its duration and
  what the kernel has measured between the two calls of \<open>smemcpy\<close>. If in the round after
  any number of good ones a file cannot be opened, it ends with code 1, with the files and the
  lines of the good rounds as they would be.
\<close>

theorem cp_copies_files:
  assumes "list_all2 cp_good rs ls" "length rs = 5" "3 \<le> argc"
  shows "(\<exists>ws. cp_main argc rs = ret (0, ws) \<and> map snd ws = map snd ls
       \<and> (\<forall>i < 5. let out = fst (ws ! i); results = out_res (cr_chan (rs ! i))
            in concat (out_log out) = fst (ls ! i) \<and> list_all (\<lambda>d. length d \<le> 4096) (out_log out)
             \<and> file_after True old results out = accepted results (out_log out)
             \<and> (results = [] \<longrightarrow> file_after True old results out = fst (ls ! i))))
     \<and> (k < 5 \<and> (cr_in r = -1 \<or> cr_out r = -1) \<longrightarrow>
          (\<exists>ws. cp_main argc (take k rs @ r # rs') = ret (1, ws) \<and> map snd ws = map snd (take k ls)
             \<and> (\<forall>i < k. concat (out_log (fst (ws ! i))) = fst (ls ! i))))"
proof -
  obtain ws where "cp_main argc rs = ret (0, ws)" "list_all2 (\<lambda>(r, l) w. cp_written r l w) (zip rs ls) ws"
    using cp_rounds_good [OF assms(1), of "replicate buffer_size 0" "[]" "[]"] assms(2,3) by (auto simp: cp_main_def)
  with cp_written_all [of rs ls ws] list_all2_lengthD [OF assms(1)] assms(2)
  have "\<exists>ws. cp_main argc rs = ret (0, ws) \<and> map snd ws = map snd ls
     \<and> (\<forall>i < 5. let out = fst (ws ! i); results = out_res (cr_chan (rs ! i))
          in concat (out_log out) = fst (ls ! i) \<and> list_all (\<lambda>d. length d \<le> 4096) (out_log out)
           \<and> file_after True old results out = accepted results (out_log out)
           \<and> (results = [] \<longrightarrow> file_after True old results out = fst (ls ! i)))"
    by (intro exI [of _ ws]) (simp add: cp_written_def file_after_eq accepted_Nil Let_def)
  moreover have "\<exists>ws. cp_main argc (take k rs @ r # rs') = ret (1, ws) \<and> map snd ws = map snd (take k ls)
      \<and> (\<forall>i < k. concat (out_log (fst (ws ! i))) = fst (ls ! i))" if "k < 5" "cr_in r = -1 \<or> cr_out r = -1"
    using cp_open_fails [OF list_all2_takeI [OF assms(1), of k] _ assms(3) that(2), of rs'] assms(2) that(1)
    by simp
  ultimately show ?thesis by blast
qed

theorem cp_copies_files_witness:
  "let r = \<lparr>cr_in = 3, cr_out = 4, cr_reads = [Read_Data [1, 2], Read_Data [3], Read_Data []],
            cr_chan = \<lparr>out_res = [], out_log = []\<rparr>, cr_clock = (10, 25), cr_kern = (\<lambda>c. (Some 7, Some 3))\<rparr>
   in \<exists>ws. cp_main 3 (replicate 5 r) = ret (0, ws) \<and> map (snd \<circ> snd) ws = replicate 5 (15, 7, 3)
        \<and> (\<forall>i < 5. file_after True [9] [] (fst (ws ! i)) = [1, 2, 3])"
proof -
  let ?r = "\<lparr>cr_in = 3, cr_out = 4, cr_reads = [Read_Data [1, 2], Read_Data [3], Read_Data []],
            cr_chan = \<lparr>out_res = [], out_log = []\<rparr>, cr_clock = (10, 25), cr_kern = (\<lambda>c. (Some 7, Some 3))\<rparr>"
  let ?l = "([1, 2, 3] :: bytes, patched_line (10, 25) 7 3)"
  have "cr_reads ?r = [Read_Data [1, 2], Read_Data [3]] @ Read_Data [] # []" by simp
  moreover have "patched (\<lambda>c. (Some 7, Some 3)) 7 3" by (simp add: patched_def)
  ultimately have "cp_good ?r ?l"
    unfolding cp_good_def
    by (intro conjI exI [of _ "[Read_Data [1, 2], Read_Data [3]]"] exI [of _ "Read_Data []"] exI [of _ "[]"]
        exI [of _ "7 :: u64"] exI [of _ "3 :: u64"]) auto
  then have "list_all2 cp_good (replicate 5 ?r) (replicate 5 ?l)" by (simp add: list_all2_conv_all_nth)
  from conjunct1 [OF cp_copies_files [OF this, of 3 "[9]"]] obtain ws where ws: "cp_main 3 (replicate 5 ?r) = ret (0, ws)"
    "map snd ws = replicate 5 (snd ?l)" "\<forall>i < 5. file_after True [9] [] (fst (ws ! i)) = [1, 2, 3]"
    by (auto simp: Let_def map_replicate)
  have "map (snd \<circ> snd) ws = map snd (map snd ws)" by simp
  also have "\<dots> = replicate 5 (15, 7, 3)" unfolding ws(2) by (simp add: patched_line_def map_replicate)
  finally show ?thesis using ws unfolding Let_def by blast
qed

end
