(* ===== verification/Micro_Apps.thy ===== *)
theory Micro_Apps
  imports Stats
begin

text \<open>
  Two microbenchmarks of the kernel: \<^verbatim>\<open>apps/syscall/syscall.c\<close> times an empty system call,
  \<^verbatim>\<open>apps/pagefault/pagefault.c\<close> the first accesses to mapped pages. Readings of the cycle
  counter and results of calls come from scripts that stand for any behaviour of the
  machine.
\<close>

section \<open>syscall\<close>

text \<open>\<open>cs\<close> are the two readings around each call; only durations below 1000 are kept.\<close>

fun syscall_loop :: "(u64 \<times> u64) list \<Rightarrow> u64 list \<Rightarrow> nat \<Rightarrow> (u64 list \<times> nat) result" where
  "syscall_loop [] ts tot = ret (ts, tot)"
| "syscall_loop ((start, stop) # cs) ts tot =
     (let duration = stop - start
      in if duration < 1000 then
           if length ts \<le> tot then undef else syscall_loop cs (ts[tot := duration]) (Suc tot)
         else syscall_loop cs ts tot)"

definition syscall_main :: "(u64 \<times> u64) list \<Rightarrow> (u64 \<times> u64) result" where
  "syscall_main cs =
     rbind (syscall_loop (take 1000 cs) (replicate 1000 0) 0) (\<lambda>(ts, tot).
     rbind (cyc_avg ts (of_nat tot)) (\<lambda>average.
     rbind (cyc_stddev ts (of_nat tot) average) (\<lambda>dev. ret (average, dev))))"

definition durations :: "(u64 \<times> u64) list \<Rightarrow> u64 list" where
  "durations cs = filter (\<lambda>d. d < 1000) (map (\<lambda>(start, stop). stop - start) cs)"

lemma syscall_loop_eq:
  "tot + length cs \<le> length ts \<Longrightarrow>
   \<exists>rest. syscall_loop cs ts tot = ret (take tot ts @ durations cs @ rest, tot + length (durations cs))
     \<and> length (take tot ts @ durations cs @ rest) = length ts"
proof (induction cs ts tot rule: syscall_loop.induct)
  case (1 ts tot)
  then show ?case by (intro exI [of _ "drop tot ts"]) (simp add: durations_def)
next
  case (2 start stop cs ts tot)
  show ?case
  proof (cases "stop - start < 1000")
    case True
    with "2.prems" have "tot < length ts" "Suc tot + length cs \<le> length (ts[tot := stop - start])" by auto
    with "2.IH"(1) [OF refl True] True obtain rest where
      "syscall_loop cs (ts[tot := stop - start]) (Suc tot)
        = ret (take (Suc tot) (ts[tot := stop - start]) @ durations cs @ rest, Suc tot + length (durations cs))"
      "length (take (Suc tot) (ts[tot := stop - start]) @ durations cs @ rest) = length ts" by auto
    with True \<open>tot < length ts\<close> show ?thesis
      by (intro exI [of _ rest]) (simp add: durations_def take_Suc_conv_app_nth)
  next
    case False
    with "2.IH"(2) [OF refl False] "2.prems" show ?thesis by (simp add: durations_def)
  qed
qed

section \<open>pagefault\<close>

text \<open>One byte is written to each of the 64 pages.\<close>

function access_loop :: "nat \<Rightarrow> bytes \<Rightarrow> bytes result" where
  "access_loop i mem =
     (if i < 64 then
        if length mem \<le> i * 4096 then undef else access_loop (Suc i) (mem[i * 4096 := of_nat i])
      else ret mem)"
  by pat_completeness auto
termination
  by (relation "measure (\<lambda>(i, mem). 64 - i)") auto

declare access_loop.simps [simp del]

definition do_access :: "bytes \<Rightarrow> bytes result" where
  "do_access mem = access_loop 0 mem"

text \<open>
  The two measuring loops of \<open>main\<close>. A round is given by what \<open>mmap\<close> returns (\<open>None\<close> for
  \<open>MAP_FAILED\<close>, otherwise the contents of the memory that can be accessed), the two clock
  readings and, in the second loop, the result of \<open>open\<close>. The inner \<open>None\<close> is exit code 1.
\<close>

fun pf_anon :: "(bytes option \<times> u64 \<times> u64) list \<Rightarrow> nat \<Rightarrow> u64 list \<Rightarrow> u64 list option result" where
  "pf_anon [] i ts = ret (Some ts)"
| "pf_anon ((data, start, stop) # rs) i ts =
     (case data of
        None \<Rightarrow> ret None
      | Some mem \<Rightarrow>
          rbind (do_access mem) (\<lambda>mem'.
            if length ts \<le> i then undef else pf_anon rs (Suc i) (ts[i := stop - start])))"

fun pf_file :: "(int \<times> bytes option \<times> u64 \<times> u64) list \<Rightarrow> nat \<Rightarrow> u64 list \<Rightarrow> u64 list option result" where
  "pf_file [] i ts = ret (Some ts)"
| "pf_file ((fd, data, start, stop) # rs) i ts =
     (if fd = -1 then ret None
      else case data of
        None \<Rightarrow> ret None
      | Some mem \<Rightarrow>
          rbind (do_access mem) (\<lambda>mem'.
            if length ts \<le> i then undef else pf_file rs (Suc i) (ts[i := stop - start])))"

text \<open>The result: exit code and, on success, all times and the two reports.\<close>

definition pf_main ::
  "(bytes option \<times> u64 \<times> u64) list \<Rightarrow> (int \<times> bytes option \<times> u64 \<times> u64) list
     \<Rightarrow> (int \<times> (u64 list \<times> u64 list \<times> (u64 \<times> u64) \<times> (u64 \<times> u64)) option) result"
where
  "pf_main anon_rounds file_rounds =
     rbind (pf_anon (take 8 anon_rounds) 0 (replicate 8 0)) (\<lambda>a.
       case a of
         None \<Rightarrow> ret (1, None)
       | Some anontimes \<Rightarrow>
           rbind (pf_file (take 8 file_rounds) 0 (replicate 8 0)) (\<lambda>f.
             case f of
               None \<Rightarrow> ret (1, None)
             | Some filetimes \<Rightarrow>
                 rbind (cyc_report anontimes 8) (\<lambda>anon.
                 rbind (cyc_report filetimes 8) (\<lambda>file_rep.
                   ret (0, Some (anontimes, filetimes, anon, file_rep))))))"

lemma access_loop_eq:
  "i \<le> 64 \<Longrightarrow> length mem = 262144 \<Longrightarrow> access_loop i mem
     = ret (map (\<lambda>a. if a mod 4096 = 0 \<and> i \<le> a div 4096 then of_nat (a div 4096) else mem ! a) [0..<262144])"
proof (induction i mem rule: access_loop.induct)
  case (1 i mem)
  show ?case
  proof (cases "i < 64")
    case True
    have inb: "\<not> length mem \<le> i * 4096" using True "1.prems" by simp
    have "(if a mod 4096 = 0 \<and> Suc i \<le> a div 4096 then of_nat (a div 4096) else mem[i * 4096 := of_nat i] ! a)
        = (if a mod 4096 = 0 \<and> i \<le> a div 4096 then of_nat (a div 4096) else mem ! a)" if "a < 262144" for a
    proof (cases "a = i * 4096")
      case True
      with inb show ?thesis by simp
    next
      case False
      then have "\<not> (a mod 4096 = 0 \<and> a div 4096 = i)" by auto
      with False show ?thesis by auto
    qed
    then show ?thesis
      using "1.IH" [OF True inb] "1.prems" True inb
      by (simp add: access_loop.simps [of i mem] cong: map_cong)
  next
    case False
    have "map (\<lambda>a. if a mod 4096 = 0 \<and> i \<le> a div 4096 then of_nat (a div 4096) else mem ! a) [0..<262144]
        = map ((!) mem) [0..<length mem]"
      using False "1.prems" by (intro map_cong) auto
    with False show ?thesis by (simp add: access_loop.simps [of i mem] map_nth del: upt_conv_Nil)
  qed
qed

lemma do_access_eq:
  assumes "length mem = 262144"
  shows "do_access mem
    = ret (map (\<lambda>a. if a mod 4096 = 0 then of_nat (a div 4096) else mem ! a) [0..<262144])"
  using access_loop_eq [of 0 mem] assms by (simp add: do_access_def)

lemma do_access_short:
  assumes "length mem \<le> 63 * 4096"
  shows "do_access mem = undef"
proof -
  have "access_loop i mem = undef" if "length mem \<le> 63 * 4096" "i \<le> 63" for i mem
    using that
  proof (induction i mem rule: access_loop.induct)
    case (1 i mem)
    show ?case
    proof (cases "length mem \<le> i * 4096")
      case False
      with "1.prems" have "i < 63" by (cases "i = 63") auto
      with "1.IH" False "1.prems" show ?thesis by (simp add: access_loop.simps [of i mem])
    qed (use "1.prems" in \<open>simp add: access_loop.simps [of i mem]\<close>)
  qed
  with assms show ?thesis by (simp add: do_access_def)
qed

text \<open>A round that works maps all 64 pages.\<close>

definition mapped :: "bytes option \<Rightarrow> bool" where
  "mapped data \<longleftrightarrow> (\<exists>mem. data = Some mem \<and> length mem = 262144)"

definition anon_times :: "(bytes option \<times> u64 \<times> u64) list \<Rightarrow> u64 list" where
  "anon_times rs = map (\<lambda>(data, start, stop). stop - start) rs"

lemma pf_anon_good:
  "list_all (\<lambda>r. mapped (fst r)) rs \<Longrightarrow> i + length rs \<le> length ts \<Longrightarrow>
   pf_anon (rs @ rest) i ts = pf_anon rest (i + length rs) (write_at i (anon_times rs) ts)"
proof (induction rs arbitrary: i ts)
  case Nil
  then show ?case by (simp add: anon_times_def)
next
  case (Cons r rs)
  obtain mem start stop where r: "r = (Some mem, start, stop)" "length mem = 262144"
    using Cons.prems(1) by (cases r) (auto simp: mapped_def)
  have "write_at (Suc i) (anon_times rs) (ts[i := stop - start]) = write_at i (anon_times (r # rs)) ts"
    using Cons.prems(2) by (simp add: write_at_def anon_times_def r take_Suc_conv_app_nth)
  with Cons.IH [of "Suc i" "ts[i := stop - start]"] Cons.prems r show ?case
    by (simp add: do_access_eq)
qed

lemma pf_anon_eq:
  "list_all (\<lambda>r. mapped (fst r)) rs \<Longrightarrow> i + length rs \<le> length ts \<Longrightarrow>
   pf_anon rs i ts = ret (Some (write_at i (anon_times rs) ts))"
  using pf_anon_good [of rs i ts "[]"] by simp

text \<open>The second loop does the same once its file is open.\<close>

lemma pf_file_good:
  "list_all (\<lambda>r. fst r \<noteq> -1 \<and> mapped (fst (snd r))) rs \<Longrightarrow> i + length rs \<le> length ts \<Longrightarrow>
   pf_file (rs @ rest) i ts = pf_file rest (i + length rs) (write_at i (anon_times (map snd rs)) ts)"
proof (induction rs arbitrary: i ts)
  case Nil
  then show ?case by (simp add: anon_times_def)
next
  case (Cons r rs)
  obtain fd mem start stop where r: "r = (fd, Some mem, start, stop)" "fd \<noteq> -1" "length mem = 262144"
    using Cons.prems(1) by (cases r) (auto simp: mapped_def)
  have "write_at (Suc i) (anon_times (map snd rs)) (ts[i := stop - start]) = write_at i (anon_times (map snd (r # rs))) ts"
    using Cons.prems(2) by (simp add: write_at_def anon_times_def r take_Suc_conv_app_nth)
  with Cons.IH [of "Suc i" "ts[i := stop - start]"] Cons.prems r show ?case
    by (simp add: do_access_eq)
qed

lemma pf_file_eq:
  "list_all (\<lambda>r. fst r \<noteq> -1) rs \<Longrightarrow> pf_file rs i ts = pf_anon (map snd rs) i ts"
  by (induction rs i ts rule: pf_file.induct) (auto split: option.split intro!: rbind_cong)

section \<open>Short durations\<close>

lemma small_sum:
  assumes "\<And>x. x \<in> set xs \<Longrightarrow> unat (x :: u64) < 1000" "length xs \<le> 1000"
  shows "sum_list (map unat xs) < 2 ^ 64"
proof -
  have "sum_list (map unat xs) \<le> 1000 * length xs"
    using assms(1) by (induction xs) (auto intro: add_mono less_imp_le)
  with assms(2) show ?thesis by simp
qed

lemma small_deviation:
  assumes "\<And>x. x \<in> set xs \<Longrightarrow> unat (x :: u64) < 1000" "unat avg < 1000"
  shows "deviation avg xs \<le> 1000000 * int (length xs)"
  using assms(1)
proof (induction xs)
  case (Cons x xs)
  have x: "unat x < 1000" using Cons.prems by simp
  have "sint x = int (unat x)" "sint avg = int (unat avg)"
    by (rule sint_small_unat, use x assms(2) in simp)+
  with x assms(2) have "\<bar>sint x - sint avg\<bar> \<le> 1000" by linarith
  then have "\<bar>sint x - sint avg\<bar> * \<bar>sint x - sint avg\<bar> \<le> 1000 * 1000" by (intro mult_mono) auto
  with Cons show ?case by simp
qed simp

lemma durations_small: "d \<in> set (durations cs) \<Longrightarrow> unat d < 1000"
  by (auto simp: durations_def word_less_nat_alt)

section \<open>Properties\<close>

lemma mean_small:
  assumes "\<And>x. x \<in> set xs \<Longrightarrow> unat (x :: u64) < 1000" "xs \<noteq> []"
  shows "sum_list (map unat xs) div length xs < 1000"
proof -
  have "sum_list (map unat xs) < 1000 * length xs"
    using assms(2,1)
  proof (induction xs rule: list_nonempty_induct)
    case (cons x xs)
    then show ?case using cons.prems [of x] by force
  qed auto
  with assms(2) show ?thesis by (simp add: div_less_iff_less_mult)
qed

lemma syscall_short:
  assumes "length (xs @ rest) = 1000" "2 < length xs" "\<And>x. x \<in> set xs \<Longrightarrow> unat (x :: u64) < 1000"
  defines "ms \<equiv> measured xs"
  defines "average \<equiv> of_nat (sum_list (map unat ms) div length ms)"
  shows "cyc_avg (xs @ rest) (of_nat (length xs)) = ret average
    \<and> cyc_stddev (xs @ rest) (of_nat (length xs)) average
       = ret (of_nat (isqrt (nat (deviation average ms) div length ms)))"
proof
  have ms: "\<And>x. x \<in> set ms \<Longrightarrow> unat x < 1000" "0 < length ms" "length ms \<le> 1000"
    using assms(1-3) by (auto simp: ms_def measured_def dest: in_set_dropD)
  show "cyc_avg (xs @ rest) (of_nat (length xs)) = ret average"
    using cyc_avg_prefix [of xs rest] small_sum [OF ms(1,3)] assms(1,2) by (simp add: average_def ms_def)
  have small: "sum_list (map unat ms) div length ms < 1000" using ms by (intro mean_small) auto
  then have "unat average < 1000" by (simp add: average_def unat_of_nat)
  with small_deviation [of ms average] ms(1,3) have dev: "deviation average ms \<le> 1000000000" by simp
  have "nat (deviation average ms) div length ms \<le> nat (deviation average ms)" by (rule div_le_dividend)
  also have "\<dots> < 2 ^ 52" using dev by simp
  finally have "nat (deviation average ms) div length ms < 2 ^ 52" .
  then have root: "sqrt_double (to_double (nat (deviation average ms) div length ms))
      = isqrt (nat (deviation average ms) div length ms)"
    using to_double_small sqrt_double_small by simp
  have "cyc_stddev xs (of_nat (length xs)) average
      = ret (of_nat (sqrt_double (to_double (nat (deviation average ms) div length ms))))"
    using cyc_stddev_measured [of xs average] assms(1,2) dev by (simp add: ms_def)
  with root cyc_stddev_prefix [of xs rest average] assms(1,2)
  show "cyc_stddev (xs @ rest) (of_nat (length xs)) average
       = ret (of_nat (isqrt (nat (deviation average ms) div length ms)))" by simp
qed

text \<open>
  C31: \<open>syscall\<close> reports mean and deviation of the short calls. With more than two
  durations below 1000 cycles nothing overflows and the report is the mean of those but
  the first two, and the integer root of their mean square deviation (the first two of the
  durations kept are dropped, not those of the first two calls); with exactly two the
  average divides by zero.
\<close>

theorem syscall_mean:
  assumes "length cs = 1000" "2 \<le> length (durations cs)"
  shows "syscall_main cs =
    (let ms = measured (durations cs); average = of_nat (sum_list (map unat ms) div length ms)
     in if ms = [] then undef else ret (average, of_nat (isqrt (nat (deviation average ms) div length ms))))"
proof -
  let ?ds = "durations cs"
  obtain rest where run: "syscall_loop (take 1000 cs) (replicate 1000 0) 0 = ret (?ds @ rest, length ?ds)"
    and len: "length (?ds @ rest) = 1000"
    using syscall_loop_eq [of 0 cs "replicate 1000 0"] assms(1) by auto
  show ?thesis
  proof (cases "length ?ds = 2")
    case True
    have "cyc_avg (?ds @ rest) 2 = undef"
      using True len by (simp add: cyc_avg_def cyc_sum_def cyc_sum_loop.simps)
    with run True show ?thesis by (simp add: syscall_main_def measured_def)
  next
    case False
    with assms(2) have "2 < length ?ds" by simp
    with syscall_short [OF len this durations_small] run show ?thesis
      by (simp add: syscall_main_def measured_def Let_def)
  qed
qed

theorem syscall_mean_witness:
  "syscall_main (replicate 1000 (5, 17)) = ret (12, 0)"
proof -
  have ds: "durations (replicate 1000 (5, 17)) = replicate 1000 12"
    by (simp add: durations_def filter_replicate)
  have "sum_list (map unat (replicate n (12 :: u64))) = 12 * n" for n by (induction n) simp_all
  moreover have "deviation 12 (replicate n 12) = 0" for n by (induction n) simp_all
  moreover have "measured (replicate 1000 (12 :: u64)) = replicate 998 12" by (simp add: measured_def)
  ultimately show ?thesis
    using syscall_mean [of "replicate 1000 (5, 17)"] by (simp add: ds Let_def isqrt.simps)
qed

text \<open>
  C38: \<open>pagefault\<close>. If every mapping covers its 64 pages and the file can be opened each
  time, all accesses are inside the mappings and the program prints the durations of the
  eight rounds of both kinds, in order, with the mean and deviation of the last six. After
  any number of good rounds of either kind, a mapping that fails or a file that cannot be
  opened ends it with code 1 and without a report, and a file without its 64th page makes
  an access behind the end of the mapping.
\<close>

theorem pagefault_reports:
  assumes "length as = 8" "length fs = 8" "list_all (\<lambda>r. mapped (fst r)) as"
    "list_all (\<lambda>r. fst r \<noteq> -1 \<and> mapped (fst (snd r))) fs"
  defines "at \<equiv> anon_times as" and "ft \<equiv> anon_times (map snd fs)"
  assumes "in_range (measured at)" "in_range (measured ft)"
  shows "pf_main as fs = ret (0, Some (at, ft, (mean_of (measured at), stddev_of (measured at)),
                                        (mean_of (measured ft), stddev_of (measured ft))))
    \<and> (k < 8 \<longrightarrow> pf_main (take k as @ (None, t0, t1) # as') fs' = ret (1, None)
        \<and> pf_main as (take k fs @ (-1, data, t0, t1) # fs') = ret (1, None)
        \<and> pf_main as (take k fs @ (fd, None, t0, t1) # fs') = ret (1, None)
        \<and> (fd \<noteq> -1 \<and> length mem \<le> 63 * 4096 \<longrightarrow>
             pf_main as (take k fs @ (fd, Some mem, t0, t1) # fs') = undef))"
proof -
  have wr: "write_at 0 xs (replicate 8 0) = xs" if "length xs = 8" for xs :: "u64 list"
    using that by (simp add: write_at_def)
  have len: "length at = 8" "length ft = 8" using assms(1,2) by (simp_all add: at_def ft_def anon_times_def)
  have a: "pf_anon as 0 (replicate 8 0) = ret (Some at)"
    using pf_anon_eq [OF assms(3), of 0 "replicate 8 0"] assms(1) wr [OF len(1)] by (simp add: at_def)
  have "list_all (\<lambda>r. mapped (fst r)) (map snd fs)" "list_all (\<lambda>r. fst r \<noteq> -1) fs"
    using assms(4) by (auto simp: list_all_iff)
  then have f: "pf_file fs 0 (replicate 8 0) = ret (Some ft)"
    using pf_anon_eq [of "map snd fs" 0 "replicate 8 0"] pf_file_eq [of fs 0 "replicate 8 0"] assms(2) wr [OF len(2)]
    by (simp add: ft_def)
  have "cyc_report at 8 = ret (mean_of (measured at), stddev_of (measured at))"
    "cyc_report ft 8 = ret (mean_of (measured ft), stddev_of (measured ft))"
    using cyc_report_measured [of at] cyc_report_measured [of ft] len assms(7,8) by simp_all
  moreover have "pf_anon (take k as @ r # take n as') 0 (replicate 8 0) = pf_anon (r # take n as') k (write_at 0 (anon_times (take k as)) (replicate 8 0))"
    if "k < 8" for r n
    using pf_anon_good [of "take k as" 0 "replicate 8 0" "r # take n as'"] assms(1,3) that
    by (auto simp: list_all_iff dest: in_set_takeD)
  moreover have "pf_file (take k fs @ r # take n fs') 0 (replicate 8 0)
      = pf_file (r # take n fs') k (write_at 0 (anon_times (map snd (take k fs))) (replicate 8 0))"
    if "k < 8" for r n
    using pf_file_good [of "take k fs" 0 "replicate 8 0" "r # take n fs'"] assms(2,4) that
    by (auto simp: list_all_iff dest: in_set_takeD)
  ultimately show ?thesis using a f assms(1,2) do_access_short [of mem] by (auto simp: pf_main_def take_Cons')
qed

theorem pagefault_reports_witness:
  "let r = (Some (replicate 262144 7), 10, 25)
   in pf_main (replicate 8 r) (replicate 8 (3, r))
      = ret (0, Some (replicate 8 15, replicate 8 15, (15, 0), (15, 0)))"
proof -
  let ?r = "(Some (replicate 262144 7), 10, 25) :: bytes option \<times> u64 \<times> u64"
  have "anon_times (replicate 8 ?r) = replicate 8 15" "map snd (replicate 8 (3 :: int, ?r)) = replicate 8 ?r"
    by (simp_all add: anon_times_def map_replicate)
  moreover have "measured (replicate 8 (15 :: u64)) = replicate 6 15" by (simp add: measured_def)
  ultimately show ?thesis
    using pagefault_reports [of "replicate 8 ?r" "replicate 8 (3, ?r)"] report_replicate [of 6 15]
    by (simp add: Let_def mapped_def list_all_iff)
qed

end
