(* ===== verification/Memload.thy ===== *)
theory Memload
  imports Numtext Platform
begin

text \<open>
  The cache benchmark \<^verbatim>\<open>apps/memload/memload.c\<close>: two buffers of 64-bit numbers summed up in
  turn, each pass timed. Shown: no access leaves its array, the sums always agree, and
  the report is the mean and deviation of the measured rounds.
\<close>

section \<open>memload\<close>

text \<open>The buffers are filled with 0, 1, 2 and so on; \<open>total\<close> is the sum.\<close>

function fill_loop :: "u64 \<Rightarrow> u64 \<Rightarrow> u64 list \<Rightarrow> u64 list \<Rightarrow> u64 \<Rightarrow> (u64 list \<times> u64 list \<times> u64) result" where
  "fill_loop elems i buf1 buf2 tot =
     (if i < elems then
        if length buf1 \<le> unat i \<or> length buf2 \<le> unat i then undef
        else fill_loop elems (i + 1) (buf1[unat i := i]) (buf2[unat i := i]) (tot + i)
      else ret (buf1, buf2, tot))"
  by pat_completeness auto
termination
  by (relation "measure (\<lambda>(elems, i, buf1, buf2, tot). unat elems - unat i)")
    (auto simp: word_less_nat_alt unat_succ_u64)

function load_loop :: "u64 \<Rightarrow> u64 \<Rightarrow> u64 list \<Rightarrow> u64 \<Rightarrow> u64 result" where
  "load_loop elems i buf acc =
     (if i < elems then
        if length buf \<le> unat i then undef else load_loop elems (i + 1) buf (acc + buf ! unat i)
      else ret acc)"
  by pat_completeness auto
termination
  by (relation "measure (\<lambda>(elems, i, buf, acc). unat elems - unat i)")
    (auto simp: word_less_nat_alt unat_succ_u64)

declare fill_loop.simps [simp del] load_loop.simps [simp del]

text \<open>
  The measuring loop; \<open>clk r\<close> gives the two readings of round \<open>r\<close>. The result is the
  array of times, or \<open>None\<close> for \<open>exit(1)\<close>.
\<close>

function memload_loop ::
  "int \<Rightarrow> int \<Rightarrow> u64 \<Rightarrow> u64 list \<Rightarrow> u64 list \<Rightarrow> u64 \<Rightarrow> (int \<Rightarrow> u64 \<times> u64) \<Rightarrow> int \<Rightarrow> u64 list \<Rightarrow> u64 list option result"
where
  "memload_loop runs warmup elems buf1 buf2 tot clk r ts =
     (if r < runs + warmup then
        rbind (load_loop elems 0 (if r mod 2 = 0 then buf1 else buf2) 0) (\<lambda>sum.
          if sum \<noteq> tot then ret None
          else if r \<ge> warmup then
            if r - warmup < 0 \<or> int (length ts) \<le> r - warmup then undef
            else memload_loop runs warmup elems buf1 buf2 tot clk (r + 1)
                   (ts[nat (r - warmup) := snd (clk r) - fst (clk r)])
          else memload_loop runs warmup elems buf1 buf2 tot clk (r + 1) ts)
      else ret (Some ts))"
  by pat_completeness auto
termination
  by (relation "measure (\<lambda>(runs, warmup, elems, buf1, buf2, tot, clk, r, ts). nat (runs + warmup - r))") auto

declare memload_loop.simps [simp del]

text \<open>
  \<open>main\<close> after the parsing of the arguments. \<open>alloc k n\<close> is the uninitialised memory that
  the \<open>k\<close>-th \<open>malloc\<close> gives for \<open>n\<close> bytes; a null pointer is an array without elements, so
  every access through it is out of bounds. The bound of the loop is a sum of two \<open>int\<close>
  values, the size of \<open>times\<close> a product of an \<open>int\<close> and a \<open>size_t\<close>.
\<close>

definition memload_main ::
  "int \<Rightarrow> int \<Rightarrow> u64 \<Rightarrow> (nat \<Rightarrow> u64 \<Rightarrow> u64 list) \<Rightarrow> (int \<Rightarrow> u64 \<times> u64) \<Rightarrow> u64 list option result"
where
  "memload_main runs warmup cache_size alloc clk =
     (if runs + warmup < - (2 ^ 31) \<or> 2 ^ 31 \<le> runs + warmup then undef
      else
      let times = alloc 0 (of_int runs * 8);
          elems = cache_size div 2 div 8
      in rbind (fill_loop elems 0 (alloc 1 (elems * 8)) (alloc 2 (elems * 8)) 0) (\<lambda>(buf1, buf2, tot).
           memload_loop runs warmup elems buf1 buf2 tot clk 0 times))"

text \<open>
  The whole program: its arguments, the affinity call (\<open>setaff\<close> gives its result for the
  core asked for), the work between the two commands to the simulator, and the report. The
  result is the exit code, the simulator's instructions and, on success, average,
  deviation and the times printed.
\<close>

definition memload_program ::
  "isa \<Rightarrow> (int \<Rightarrow> int) \<Rightarrow> bytes list \<Rightarrow> (nat \<Rightarrow> u64 \<Rightarrow> u64 list) \<Rightarrow> (int \<Rightarrow> u64 \<times> u64)
     \<Rightarrow> (int \<times> instr list \<times> (u64 \<times> u64 \<times> u64 list) option) result"
where
  "memload_program m setaff argv alloc clk =
     (let core = arg_or argv 1 atoi 0;
          runs = arg_or argv 2 atoi 1000;
          warmup = arg_or argv 3 atoi 100;
          cache_size = arg_or argv 4 strtoul (512 * 1024)
      in if setaff core = -1 then ret (1, [], None)
         else
           rbind (memload_main runs warmup cache_size alloc clk) (\<lambda>r.
             case r of
               None \<Rightarrow> ret (1, [gem5_resetstats m], None)
             | Some ts \<Rightarrow>
                 rbind (cyc_report ts (of_int runs)) (\<lambda>(average, dev).
                   ret (0, [gem5_resetstats m, gem5_dumpstats m], Some (average, dev, take (nat runs) ts)))))"

lemma fill_loop_eq:
  "unat elems \<le> length buf1 \<Longrightarrow> unat elems \<le> length buf2 \<Longrightarrow> i \<le> elems \<Longrightarrow>
   fill_loop elems i buf1 buf2 tot =
     (let fill = (\<lambda>buf. take (unat i) buf @ map of_nat [unat i..<unat elems] @ drop (unat elems) buf)
      in ret (fill buf1, fill buf2, tot + sum_list (map of_nat [unat i..<unat elems])))"
proof (induction elems i buf1 buf2 tot rule: fill_loop.induct)
  case (1 elems i buf1 buf2 tot)
  show ?case
  proof (cases "i < elems")
    case False
    with "1.prems" have "i = elems" by simp
    then show ?thesis by (simp add: fill_loop.simps [of elems elems])
  next
    case True
    then have n: "unat (i + 1) = Suc (unat i)" "unat i < unat elems" "i + 1 \<le> elems"
      by (auto simp: unat_succ_u64 word_less_nat_alt word_le_nat_alt)
    have inb: "\<not> (length buf1 \<le> unat i \<or> length buf2 \<le> unat i)" using n "1.prems" by simp
    have up: "[unat i..<unat elems] = unat i # [Suc (unat i)..<unat elems]" using n(2) by (rule upt_conv_Cons)
    have upd: "take (Suc (unat i)) (buf[unat i := i]) @ xs = take (unat i) buf @ i # xs"
      if "unat i < length buf" for buf xs
      using that by (simp add: take_Suc_conv_app_nth)
    have "fill_loop elems i buf1 buf2 tot
        = fill_loop elems (i + 1) (buf1[unat i := i]) (buf2[unat i := i]) (tot + i)"
      using True inb by (simp add: fill_loop.simps [of elems i])
    with "1.IH" [OF True inb] "1.prems" n inb show ?thesis
      by (simp add: Let_def up upd add.assoc)
  qed
qed

lemma load_loop_eq:
  "unat elems \<le> length buf \<Longrightarrow> i \<le> elems \<Longrightarrow>
   load_loop elems i buf acc = ret (acc + sum_list (bslice (unat i) (unat elems - unat i) buf))"
proof (induction elems i buf acc rule: load_loop.induct)
  case (1 elems i buf acc)
  show ?case
  proof (cases "i < elems")
    case True
    then have n: "unat (i + 1) = Suc (unat i)" "unat i < length buf" "i + 1 \<le> elems" "unat i < unat elems"
      using "1.prems"(1) by (auto simp: unat_succ_u64 word_less_nat_alt word_le_nat_alt)
    have "bslice (unat i) (unat elems - unat i) buf
        = buf ! unat i # bslice (Suc (unat i)) (unat elems - Suc (unat i)) buf"
      using n by (simp add: bslice_Cons)
    then show ?thesis
      using "1.IH" [OF True] "1.prems"(1) True n
      by (simp add: load_loop.simps [of elems i buf acc] add.assoc)
  next
    case False
    with "1.prems"(2) have "i = elems" by simp
    then show ?thesis by (simp add: load_loop.simps [of elems elems] bslice_def)
  qed
qed

lemma memload_loop_eq:
  assumes "\<And>b. load_loop elems 0 (if b then buf1 else buf2) 0 = ret tot" "0 \<le> warmup" "0 \<le> runs"
    "length ts = nat runs" "0 \<le> r" "r \<le> runs + warmup"
  shows "memload_loop runs warmup elems buf1 buf2 tot clk r ts
    = ret (Some (take (nat (r - warmup)) ts
        @ map (\<lambda>k. snd (clk (int k + warmup)) - fst (clk (int k + warmup))) [nat (r - warmup)..<nat runs]))"
  using assms(4-6)
proof (induction "nat (runs + warmup - r)" arbitrary: r ts)
  case 0
  then have "r = runs + warmup" by simp
  with 0 show ?case by (simp add: memload_loop.simps [of runs warmup _ _ _ _ _ "runs + warmup"])
next
  case (Suc n)
  then have lt: "r < runs + warmup" by simp
  show ?case
  proof (cases "r \<ge> warmup")
    case False
    then have "memload_loop runs warmup elems buf1 buf2 tot clk r ts
        = memload_loop runs warmup elems buf1 buf2 tot clk (r + 1) ts"
      using lt assms(1) by (simp add: memload_loop.simps [of runs warmup _ _ _ _ _ r])
    also have "\<dots> = ret (Some (take (nat (r + 1 - warmup)) ts
        @ map (\<lambda>k. snd (clk (int k + warmup)) - fst (clk (int k + warmup))) [nat (r + 1 - warmup)..<nat runs]))"
      using Suc by (intro Suc.hyps) auto
    finally show ?thesis using False by simp
  next
    case True
    define k where "k = nat (r - warmup)"
    have k: "r = int k + warmup" "k < nat runs" "nat (r + 1 - warmup) = Suc k" using True lt by (auto simp: k_def)
    have inb: "\<not> (r - warmup < 0 \<or> int (length ts) \<le> r - warmup)" using True lt Suc.prems(1) by auto
    let ?t = "snd (clk r) - fst (clk r)"
    have "memload_loop runs warmup elems buf1 buf2 tot clk r ts
        = memload_loop runs warmup elems buf1 buf2 tot clk (r + 1) (ts[k := ?t])"
      using lt True assms(1) inb by (simp add: memload_loop.simps [of runs warmup _ _ _ _ _ r] flip: k_def)
    also have "\<dots> = ret (Some (take (nat (r + 1 - warmup)) (ts[k := ?t])
        @ map (\<lambda>k. snd (clk (int k + warmup)) - fst (clk (int k + warmup))) [nat (r + 1 - warmup)..<nat runs]))"
      using Suc lt by (intro Suc.hyps) auto
    also have "\<dots> = ret (Some (take k ts
        @ map (\<lambda>k. snd (clk (int k + warmup)) - fst (clk (int k + warmup))) [k..<nat runs]))"
      using k Suc.prems(1) by (simp add: take_Suc_conv_app_nth upt_conv_Cons)
    finally show ?thesis by (simp add: k_def)
  qed
qed

lemma memload_loop_null:
  assumes "\<And>b. load_loop elems 0 (if b then buf1 else buf2) 0 = ret tot" "0 < runs" "r \<le> warmup"
  shows "memload_loop runs warmup elems buf1 buf2 tot clk r [] = undef"
  using assms(3)
proof (induction "nat (warmup - r)" arbitrary: r)
  case 0
  then have "r = warmup" by simp
  then show ?case using assms(1,2) by (simp add: memload_loop.simps [of runs warmup _ _ _ _ _ warmup])
next
  case (Suc n)
  then have "memload_loop runs warmup elems buf1 buf2 tot clk (r + 1) [] = undef" by (intro Suc.hyps) auto
  with Suc show ?case using assms(1,2) by (simp add: memload_loop.simps [of runs warmup _ _ _ _ _ r])
qed

text \<open>
  What is known of \<open>malloc\<close>: a null pointer or as many words as asked for. The program has
  what it needs if the times and, unless they have no elements, both buffers are there.
\<close>

definition malloc_ok :: "(nat \<Rightarrow> u64 \<Rightarrow> u64 list) \<Rightarrow> bool" where
  "malloc_ok alloc \<longleftrightarrow> (\<forall>k n. alloc k n = [] \<or> length (alloc k n) = unat n div 8)"

definition memory_there :: "(nat \<Rightarrow> u64 \<Rightarrow> u64 list) \<Rightarrow> int \<Rightarrow> u64 \<Rightarrow> bool" where
  "memory_there alloc runs cache_size \<longleftrightarrow>
     (let elems = cache_size div 2 div 8
      in alloc 0 (of_int runs * 8) \<noteq> [] \<and> (elems = 0 \<or> alloc 1 (elems * 8) \<noteq> [] \<and> alloc 2 (elems * 8) \<noteq> []))"

lemma unat_elems: "unat (c div 2 div 8 * 8 :: u64) = unat (c div 2 div 8) * 8"
proof -
  have "unat c < 2 ^ 64" using unsigned_less [of c] by simp
  then have "unat (c div 2 div 8) * 8 < 2 ^ 64" by (simp add: unat_div)
  then show ?thesis by (simp add: unat_word_ariths(2))
qed

lemma memload_times:
  assumes "malloc_ok alloc" "0 < runs" "0 \<le> warmup" "runs + warmup < 2 ^ 31"
  shows "memload_main runs warmup cache_size alloc clk
    = (if memory_there alloc runs cache_size
       then ret (Some (map (\<lambda>k. snd (clk (int k + warmup)) - fst (clk (int k + warmup))) [0..<nat runs]))
       else undef)"
proof -
  define elems where "elems = cache_size div 2 div 8"
  let ?ts = "alloc 0 (of_int runs * 8)" and ?b1 = "alloc 1 (elems * 8)" and ?b2 = "alloc 2 (elems * 8)"
  have "of_int runs * 8 = (of_nat (nat runs * 8) :: u64)" using assms by simp
  moreover have "nat runs * 8 < 2 ^ 64" using assms by simp
  ultimately have "unat (of_int runs * 8 :: u64) = nat runs * 8" by (simp only: unat_of_nat) simp
  then have ts: "?ts = [] \<or> length ?ts = nat runs" using assms(1) by (force simp: malloc_ok_def)
  have bufs: "?b1 = [] \<or> length ?b1 = unat elems" "?b2 = [] \<or> length ?b2 = unat elems"
    using assms(1) unat_elems [of cache_size, folded elems_def] by (force simp: malloc_ok_def)+
  show ?thesis
  proof (cases "elems = 0 \<or> ?b1 \<noteq> [] \<and> ?b2 \<noteq> []")
    case False
    then have "fill_loop elems 0 ?b1 ?b2 0 = undef"
      by (auto simp: fill_loop.simps [of elems 0] word_neq_0_conv)
    with False show ?thesis using assms by (simp add: memload_main_def memory_there_def Let_def flip: elems_def)
  next
    case True
    with bufs have len: "unat elems \<le> length ?b1" "unat elems \<le> length ?b2" by auto
    define buf1 buf2 tot where "buf1 = map of_nat [0..<unat elems] @ drop (unat elems) ?b1"
      and "buf2 = map of_nat [0..<unat elems] @ drop (unat elems) ?b2"
      and "tot = (sum_list (map of_nat [0..<unat elems]) :: u64)"
    have fill: "fill_loop elems 0 ?b1 ?b2 0 = ret (buf1, buf2, tot)"
      using len by (simp add: fill_loop_eq buf1_def buf2_def tot_def)
    have load: "load_loop elems 0 (if b then buf1 else buf2) 0 = ret tot" for b
      by (simp add: load_loop_eq bslice_def buf1_def buf2_def tot_def)
    have "memload_loop runs warmup elems buf1 buf2 tot clk 0 ?ts = (if ?ts = [] then undef else
        ret (Some (take (nat (0 - warmup)) ?ts
        @ map (\<lambda>k. snd (clk (int k + warmup)) - fst (clk (int k + warmup))) [nat (0 - warmup)..<nat runs])))"
      using assms ts memload_loop_null [OF load, of runs 0 warmup clk] memload_loop_eq [OF load, of warmup runs ?ts 0 clk] by auto
    with fill True show ?thesis
      using assms by (simp add: memload_main_def memory_there_def Let_def flip: elems_def)
  qed
qed

text \<open>The times of the rounds that are measured.\<close>

definition round_times :: "int \<Rightarrow> int \<Rightarrow> (int \<Rightarrow> u64 \<times> u64) \<Rightarrow> u64 list" where
  "round_times runs warmup clk = map (\<lambda>k. snd (clk (int k + warmup)) - fst (clk (int k + warmup))) [0..<nat runs]"

lemma memload_program_eq:
  assumes "malloc_ok alloc" "setaff (arg_or argv 1 atoi 0) \<noteq> -1" "arg_or argv 2 atoi 1000 = runs"
    "arg_or argv 3 atoi 100 = warmup" "arg_or argv 4 strtoul (512 * 1024) = cache_size"
    "2 < runs" "0 \<le> warmup" "runs + warmup < 2 ^ 31" "in_range (measured (round_times runs warmup clk))"
  defines "ms \<equiv> measured (round_times runs warmup clk)"
  shows "memload_program m setaff argv alloc clk
    = (if memory_there alloc runs cache_size
       then ret (0, [gem5_resetstats m, gem5_dumpstats m], Some (mean_of ms, stddev_of ms, round_times runs warmup clk))
       else undef)"
proof -
  let ?ts = "round_times runs warmup clk"
  have len: "length ?ts = nat runs" by (simp add: round_times_def)
  have run: "memload_main runs warmup cache_size alloc clk = (if memory_there alloc runs cache_size then ret (Some ?ts) else undef)"
    using assms(6-8) memload_times [OF assms(1), of runs warmup cache_size clk] by (simp add: round_times_def)
  have "of_int runs = (of_nat (length ?ts) :: u64)" using assms(6) len by simp
  moreover have "cyc_report ?ts (of_nat (length ?ts)) = ret (mean_of ms, stddev_of ms)"
    using assms(6-9) len unfolding ms_def by (intro cyc_report_measured) auto
  ultimately show ?thesis
    using assms(2-5) run len by (simp add: memload_program_def Let_def)
qed

section \<open>Properties\<close>

text \<open>
  C37: \<open>memload\<close> measures what it says. With at least three runs and a non-negative warm-up
  on the command line (or by default), whatever the cache size and the contents of the
  fresh memory, no access is outside its array, the sum read agrees with the total in
  every round, so the program does not take its \<open>exit(1)\<close>; it brackets the rounds with
  one reset and one dump of the simulator's statistics, and prints the durations of the
  rounds after the warm-up, in order, with the mean and deviation of all but the first
  two. A failing affinity call ends it before anything is measured. A failing \<open>malloc\<close> is not
  noticed: without one of the arrays it uses, it accesses memory through a null pointer.
\<close>

theorem memload_reports:
  assumes "arg_or argv 2 atoi 1000 = runs" "arg_or argv 3 atoi 100 = warmup" "arg_or argv 4 strtoul (512 * 1024) = cache_size"
    "2 < runs" "0 \<le> warmup" "runs + warmup < 2 ^ 31" "in_range (measured (round_times runs warmup clk))" "malloc_ok alloc"
  defines "ms \<equiv> measured (round_times runs warmup clk)"
  shows "memload_program m setaff argv alloc clk =
    (if setaff (arg_or argv 1 atoi 0) = -1 then ret (1, [], None)
     else if memory_there alloc runs cache_size
     then ret (0, [gem5_resetstats m, gem5_dumpstats m], Some (mean_of ms, stddev_of ms, round_times runs warmup clk))
     else undef)"
  using memload_program_eq [OF assms(8) _ assms(1-7), of setaff m]
  by (simp add: memload_program_def ms_def)

theorem memload_reports_witness:
  "let argv = [ascii ''memload'', ascii ''0'', ascii ''5'', ascii ''0'', ascii ''64''];
       prog = \<lambda>alloc. memload_program X86_64 (\<lambda>core. 0) argv alloc (\<lambda>r. (of_int r, of_int (r + 10)))
   in prog (\<lambda>k n. replicate (unat n div 8) 77)
        = ret (0, [gem5_resetstats X86_64, gem5_dumpstats X86_64], Some (10, 0, [10, 10, 10, 10, 10]))
      \<and> prog (\<lambda>k n. if k = 2 then [] else replicate (unat n div 8) 77) = undef"
proof -
  let ?argv = "[ascii ''memload'', ascii ''0'', ascii ''5'', ascii ''0'', ascii ''64'']"
  have a: "arg_or ?argv 2 atoi 1000 = 5" "arg_or ?argv 3 atoi 100 = 0" "arg_or ?argv 4 strtoul (512 * 1024) = 64"
    by (simp_all add: arg_or_def atoi_def strtoul_def ascii_def read_sign_def is_space_def is_digit_def digits_val_def)
  have t: "round_times 5 0 (\<lambda>r. (of_int r, of_int r + 10)) = [10, 10, 10, 10, 10]"
    by (simp add: round_times_def upt_rec)
  have "[10, 10, 10 :: u64] = replicate 3 10" by (simp add: numeral_3_eq_3)
  with report_replicate [of 3 10] have "mean_of [10, 10, 10] = 10" "stddev_of [10, 10, 10] = 0" "in_range [10, 10, 10]"
    by simp_all
  then show ?thesis
    using memload_reports [OF a, of "\<lambda>r. (of_int r, of_int (r + 10))" "\<lambda>k n. replicate (unat n div 8) 77" X86_64 "\<lambda>core. 0"]
      memload_reports [OF a, of "\<lambda>r. (of_int r, of_int (r + 10))" "\<lambda>k n. if k = 2 then [] else replicate (unat n div 8) 77"
        X86_64 "\<lambda>core. 0"]
    by (simp add: t measured_def malloc_ok_def memory_there_def Let_def)
qed

end
