(* ===== verification/Netlat.thy ===== *)
theory Netlat
  imports Stats
begin

text \<open>
  The network latency benchmark \<^verbatim>\<open>apps/netlat/netlat.c\<close>: finding an address to connect to,
  \<open>send_recv\<close>, warm-up, measuring loop and report. What the network does is a script of
  results of calls.
\<close>

section \<open>netlat\<close>

abbreviation EAGAIN :: int where "EAGAIN \<equiv> 11"
abbreviation EWOULDBLOCK :: int where "EWOULDBLOCK \<equiv> 11"

text \<open>
  \<open>send_recv\<close> for the results of \<open>write\<close> and \<open>read\<close> and the value of \<open>errno\<close>: the value
  returned, \<open>None\<close> for \<open>exit(1)\<close>, and \<open>errno\<close>. The condition of the source is the
  assignment \<^verbatim>\<open>errno = (EAGAIN || errno == EWOULDBLOCK)\<close>.
\<close>

definition send_recv :: "int \<Rightarrow> int \<Rightarrow> int \<Rightarrow> int option \<times> int" where
  "send_recv wr rd errno =
     (if wr \<noteq> 1 then (None, errno)
      else if rd = -1 then
        let errno' = (if EAGAIN \<noteq> 0 \<or> errno = EWOULDBLOCK then 1 else 0)
        in if errno' \<noteq> 0 then (Some 0, errno') else (None, errno')
      else (Some 1, errno))"

text \<open>
  The measuring loop over a script of calls: results of \<open>write\<close> and \<open>read\<close>, the error
  number of a failing read and the two clock readings. A script that ends is a blocked
  program; the inner \<open>None\<close> is \<open>exit(1)\<close>.
\<close>

fun netlat_loop :: "(int \<times> int \<times> int \<times> u64 \<times> u64) list \<Rightarrow> u64 list \<Rightarrow> nat \<Rightarrow> u64 list option option" where
  "netlat_loop cs ts num =
     (if num < 100 then
        (case cs of
           [] \<Rightarrow> None
         | (wr, rd, errno, start, stop) # cs' \<Rightarrow>
             (case fst (send_recv wr rd errno) of
                None \<Rightarrow> Some None
              | Some v \<Rightarrow>
                  if v \<noteq> 0 then netlat_loop cs' (ts[num := stop - start]) (Suc num)
                  else netlat_loop cs' ts num))
      else Some (Some ts))"

declare netlat_loop.simps [simp del]

text \<open>The warm-up ignores what \<open>send_recv\<close> returns.\<close>

fun netlat_warmup :: "nat \<Rightarrow> (int \<times> int \<times> int \<times> u64 \<times> u64) list \<Rightarrow> (int \<times> int \<times> int \<times> u64 \<times> u64) list option option" where
  "netlat_warmup 0 cs = Some (Some cs)"
| "netlat_warmup (Suc n) [] = None"
| "netlat_warmup (Suc n) ((wr, rd, errno, start, stop) # cs) =
     (case fst (send_recv wr rd errno) of None \<Rightarrow> Some None | Some v \<Rightarrow> netlat_warmup n cs)"

text \<open>
  The addresses are tried in turn; for each the results of \<open>socket\<close> and \<open>connect\<close>. The
  result is the socket connected, if any, and the sockets closed.
\<close>

fun connect_loop :: "(int \<times> int) list \<Rightarrow> int list \<Rightarrow> int option \<times> int list" where
  "connect_loop [] closed = (None, closed)"
| "connect_loop ((sfd, conn) # rps) closed =
     (if sfd = -1 then connect_loop rps closed
      else if conn \<noteq> -1 then (Some sfd, closed)
      else connect_loop rps (closed @ [sfd]))"

text \<open>
  \<open>main\<close>: \<open>resolve\<close> is \<open>getaddrinfo\<close>, with what happens at each of its addresses. The
  result is the exit code, the sockets closed, the receive timeout set (socket, seconds,
  microseconds) and the two numbers printed.
\<close>

definition netlat_main ::
  "(bytes \<Rightarrow> bytes \<Rightarrow> int \<times> (int \<times> int) list) \<Rightarrow> bytes list \<Rightarrow> (int \<times> int \<times> int \<times> u64 \<times> u64) list
     \<Rightarrow> (int \<times> int list \<times> (int \<times> int \<times> int) option \<times> (u64 \<times> u64) option) result"
where
  "netlat_main resolve argv cs =
     (if length argv \<noteq> 3 then ret (1, [], None, None)
      else
        let (s, addrs) = resolve (argv ! 1) (argv ! 2)
        in if s \<noteq> 0 then ret (1, [], None, None)
           else
             (case connect_loop addrs [] of
                (None, closed) \<Rightarrow> ret (1, closed, None, None)
              | (Some sfd, closed) \<Rightarrow>
                  let timeout = Some (sfd, 0, 30 * 1000)
                  in (case netlat_warmup 5 cs of
                        None \<Rightarrow> never
                      | Some None \<Rightarrow> ret (1, closed, timeout, None)
                      | Some (Some cs') \<Rightarrow>
                          (case netlat_loop cs' (replicate 100 0) 0 of
                             None \<Rightarrow> never
                           | Some None \<Rightarrow> ret (1, closed, timeout, None)
                           | Some (Some ts) \<Rightarrow>
                               rbind (cyc_report ts 100) (\<lambda>rep. ret (0, closed, timeout, Some rep))))))"

definition answered :: "(int \<times> int \<times> int \<times> u64 \<times> u64) list \<Rightarrow> u64 list" where
  "answered cs = map (\<lambda>(wr, rd, errno, start, stop). stop - start) (filter (\<lambda>(wr, rd, errno, start, stop). rd \<noteq> -1) cs)"

lemma send_recv_eq: "send_recv 1 rd errno = (if rd = -1 then (Some 0, 1) else (Some 1, errno))"
  by (simp add: send_recv_def)

lemma netlat_loop_eq:
  "list_all (\<lambda>c. fst c = 1) cs \<Longrightarrow> length ts = 100 \<Longrightarrow> num \<le> 100 \<Longrightarrow>
   netlat_loop cs ts num =
     (if 100 \<le> num + length (answered cs) then Some (Some (take num ts @ take (100 - num) (answered cs))) else None)"
proof (induction cs arbitrary: ts num)
  case Nil
  then show ?case by (simp add: netlat_loop.simps [of "[]"] answered_def)
next
  case (Cons c cs)
  obtain rd errno start stop where c: "c = (1, rd, errno, start, stop)" using Cons.prems(1) by (cases c) auto
  show ?case
  proof (cases "num < 100")
    case False
    with Cons.prems show ?thesis by (simp add: netlat_loop.simps [of "c # cs"])
  next
    case lt: True
    show ?thesis
    proof (cases "rd = -1")
      case True
      have "netlat_loop (c # cs) ts num = netlat_loop cs ts num"
        using lt True by (subst netlat_loop.simps) (simp add: c send_recv_eq)
      moreover have "answered (c # cs) = answered cs" using c True by (simp add: answered_def)
      ultimately show ?thesis using Cons.prems Cons.IH [of ts num] by simp
    next
      case False
      have ans: "answered (c # cs) = (stop - start) # answered cs" using c False by (simp add: answered_def)
      have tk: "take (Suc num) (ts[num := stop - start]) = take num ts @ [stop - start]"
        using lt Cons.prems(2) by (simp add: take_Suc_conv_app_nth)
      have "100 - num = Suc (100 - Suc num)" using lt by simp
      then have tk2: "take (100 - num) (answered (c # cs)) = (stop - start) # take (100 - Suc num) (answered cs)"
        by (simp only: ans take_Suc_Cons)
      have "netlat_loop (c # cs) ts num = netlat_loop cs (ts[num := stop - start]) (Suc num)"
        using lt False by (subst netlat_loop.simps) (simp add: c send_recv_eq)
      with Cons.IH [of "ts[num := stop - start]" "Suc num"] Cons.prems lt tk tk2 show ?thesis
        by (simp add: ans)
    qed
  qed
qed

lemma netlat_collected:
  assumes "list_all (\<lambda>c. fst c = 1) cs" "length ts = 100"
  shows "netlat_loop cs ts 0 = (if 100 \<le> length (answered cs) then Some (Some (take 100 (answered cs))) else None)"
  using netlat_loop_eq [OF assms, of 0] by simp

lemma netlat_warmup_eq:
  "list_all (\<lambda>c. fst c = 1) cs \<Longrightarrow> netlat_warmup n cs = (if n \<le> length cs then Some (Some (drop n cs)) else None)"
proof (induction n cs rule: netlat_warmup.induct)
  case (3 n wr rd errno start stop cs)
  then show ?case by (auto simp: send_recv_eq)
qed auto

lemma netlat_warmup_send_fails:
  assumes "list_all (\<lambda>c. fst c = 1) (take k cs)" "k < length cs" "fst (cs ! k) \<noteq> 1"
  shows "k < n \<Longrightarrow> netlat_warmup n cs = Some None"
  using assms
proof (induction n cs arbitrary: k rule: netlat_warmup.induct)
  case (3 n wr rd errno start stop cs)
  show ?case
  proof (cases k)
    case 0
    with "3.prems" show ?thesis by (simp add: send_recv_def)
  next
    case (Suc j)
    with "3.prems" have "wr = 1" by simp
    moreover obtain v where "fst (send_recv 1 rd errno) = Some v" by (cases "rd = -1") (simp_all add: send_recv_eq)
    ultimately show ?thesis using "3.IH" [of v j] "3.prems" Suc by simp
  qed
qed auto

text \<open>Addresses that cannot be used, and the sockets that are closed for them.\<close>

definition refused :: "(int \<times> int) list \<Rightarrow> bool" where
  "refused rps \<longleftrightarrow> list_all (\<lambda>(sfd, conn). sfd = -1 \<or> conn = -1) rps"

definition opened :: "(int \<times> int) list \<Rightarrow> int list" where
  "opened rps = filter (\<lambda>sfd. sfd \<noteq> -1) (map fst rps)"

lemma connect_loop_refused: "refused rps \<Longrightarrow> connect_loop (rps @ more) closed = connect_loop more (closed @ opened rps)"
  by (induction rps arbitrary: closed) (auto simp: refused_def opened_def)

section \<open>Properties\<close>

text \<open>
  \<open>netlat\<close> takes every failed read for a timeout. As long as the sends succeed, no
  read ever ends the program, whatever its error: the measuring loop collects the
  durations of the first 100 calls that were answered, in order, and goes on for ever if
  there are fewer.
\<close>

theorem netlat_collects:
  assumes "list_all (\<lambda>c. fst c = 1) cs" "length ts = 100"
  shows "netlat_loop cs ts 0 = (if 100 \<le> length (answered cs) then Some (Some (take 100 (answered cs))) else None)"
  using netlat_collected [OF assms] .

theorem netlat_collects_witness:
  "netlat_loop ((1, -1, 111, 3, 4) # replicate 100 (1, 1, 0, 10, 30)) (replicate 100 0) 0
    = Some (Some (replicate 100 20))"
proof -
  have "answered ((1, -1, 111, 3, 4) # replicate 100 (1, 1, 0, 10, 30)) = replicate 100 20"
    by (simp add: answered_def filter_replicate)
  then show ?thesis
    using netlat_collects [of "(1, -1, 111, 3, 4) # replicate 100 (1, 1, 0, 10, 30)" "replicate 100 0"]
    by (simp add: list_all_iff)
qed

text \<open>
  C36: the whole of \<open>netlat\<close>. The first address that can be used is used: the sockets of
  those before it are closed again, that one gets the timeout of 30 ms. If the first
  five calls and all later ones can be sent, no failing read ends the program, whatever its
  error (the condition of \<open>send_recv\<close> is always true): with 100 answers after the warm-up
  it prints the mean and deviation of the durations of the first 100, two left out; with
  fewer it goes on for ever. With no usable address it exits with code 1 and no socket open.
\<close>

theorem netlat_reports:
  assumes "length argv = 3" "resolve (argv ! 1) (argv ! 2) = (0, bad @ good)" "refused bad"
    "list_all (\<lambda>c. fst c = 1) cs" "5 \<le> length cs"
  defines "ans \<equiv> answered (drop 5 cs)"
  defines "ms \<equiv> measured (take 100 ans)"
  shows "(good = [] \<longrightarrow> netlat_main resolve argv cs = ret (1, opened bad, None, None))
    \<and> (good = (sfd, conn) # others \<and> sfd \<noteq> -1 \<and> conn \<noteq> -1 \<longrightarrow>
         (length ans < 100 \<longrightarrow> netlat_main resolve argv cs = never)
       \<and> (100 \<le> length ans \<and> in_range ms \<longrightarrow>
            netlat_main resolve argv cs
              = ret (0, opened bad, Some (sfd, 0, 30000), Some (mean_of ms, stddev_of ms))))"
proof (intro conjI impI)
  have conn: "connect_loop (bad @ good) [] = connect_loop good (opened bad)"
    using connect_loop_refused [OF assms(3), of good "[]"] by simp
  show "netlat_main resolve argv cs = ret (1, opened bad, None, None)" if "good = []"
    using assms(1,2) conn that by (simp add: netlat_main_def)
  have warm: "netlat_warmup 5 cs = Some (Some (drop 5 cs))"
    using netlat_warmup_eq [OF assms(4), of 5] assms(5) by simp
  have "list_all (\<lambda>c. fst c = 1) (drop 5 cs)"
    using assms(4) by (auto simp: list_all_iff dest: in_set_dropD)
  note run = netlat_collected [OF this, of "replicate 100 0"]
  assume "good = (sfd, conn) # others \<and> sfd \<noteq> -1 \<and> conn \<noteq> -1"
  with conn have conn: "connect_loop (bad @ good) [] = (Some sfd, opened bad)" by simp
  show "netlat_main resolve argv cs = never" if "length ans < 100"
    using assms(1,2) conn warm run that by (simp add: netlat_main_def ans_def)
  assume *: "100 \<le> length ans \<and> in_range ms"
  then have "length (take 100 ans) = 100" by simp
  with * cyc_report_measured [of "take 100 ans"] have "cyc_report (take 100 ans) 100 = ret (mean_of ms, stddev_of ms)"
    by (simp add: ms_def)
  with * show "netlat_main resolve argv cs
      = ret (0, opened bad, Some (sfd, 0, 30000), Some (mean_of ms, stddev_of ms))"
    using assms(1,2) conn warm run by (simp add: netlat_main_def ans_def)
qed

theorem netlat_reports_witness:
  "netlat_main (\<lambda>host port. (0, [(-1, 0), (3, -1)] @ [(4, 0)])) [ascii ''netlat'', ascii ''h'', ascii ''1'']
      (replicate 105 (1, 1, 0, 10, 30))
    = ret (0, [3], Some (4, 0, 30000), Some (20, 0))"
proof -
  let ?cs = "replicate 105 (1, 1, 0, 10, 30) :: (int \<times> int \<times> int \<times> u64 \<times> u64) list"
  let ?argv = "[ascii ''netlat'', ascii ''h'', ascii ''1'']"
  have ans: "answered (drop 5 ?cs) = replicate 100 20" by (simp add: answered_def filter_replicate)
  note rep = report_replicate [of 98 20]
  have "refused [(-1, 0), (3, -1)]" "opened [(-1, 0), (3, -1)] = [3]" by (simp_all add: refused_def opened_def)
  moreover have "list_all (\<lambda>c. fst c = 1) ?cs" by (simp add: list_all_iff)
  ultimately show ?thesis
    using netlat_reports [of ?argv "\<lambda>host port. (0, [(-1, 0), (3, -1)] @ [(4, 0)])" "[(-1, 0), (3, -1)]" "[(4, 0)]" ?cs 4 0 "[]"]
      ans rep by (simp add: measured_def)
qed

end
