(* ===== verification/Process_Apps.thy ===== *)
theory Process_Apps
  imports Numtext Platform Transition
begin

text \<open>
  Programs that create processes and send signals: \<^verbatim>\<open>apps/exec/exec.c\<close>,
  \<^verbatim>\<open>apps/yield/yield.c\<close>, \<^verbatim>\<open>apps/stracetime/stracetime.c\<close> and \<^verbatim>\<open>tools/ignoreint.cc\<close>.
\<close>

section \<open>exec\<close>

text \<open>
  The child runs the program, or goes on with the loop itself if \<open>execv\<close> fails; the parent
  waits for it, so that the calls of all processes happen one after the other. \<open>ev k\<close> is
  what the \<open>k\<close>-th call of \<open>fork\<close>, in this order, leads to.
\<close>

datatype fork_ev = Fork_Fails | Child_Runs | Child_Fails

datatype exec_event = Program_Run "bytes list" | Exec_Failed | Fork_Failed

text \<open>The events of a process with \<open>n\<close> rounds left and of its descendants, and the next call.\<close>

fun exec_loop :: "bytes list \<Rightarrow> (nat \<Rightarrow> fork_ev) \<Rightarrow> nat \<Rightarrow> nat \<Rightarrow> exec_event list \<times> nat" where
  "exec_loop prog ev k 0 = ([], k)"
| "exec_loop prog ev k (Suc n) =
     (case ev k of
        Child_Runs \<Rightarrow>
          let (es, k') = exec_loop prog ev (Suc k) n in (Program_Run prog # es, k')
      | Child_Fails \<Rightarrow>
          let (es1, k1) = exec_loop prog ev (Suc k) n; (es2, k2) = exec_loop prog ev k1 n
          in (Exec_Failed # es1 @ es2, k2)
      | Fork_Fails \<Rightarrow>
          let (es, k') = exec_loop prog ev (Suc k) n in (Fork_Failed # es, k'))"

text \<open>
  \<open>main\<close>: the number of rounds and the program come from the command line. The exit code
  is that of every process that gets to the end of the loop.
\<close>

definition exec_main :: "bytes list \<Rightarrow> (nat \<Rightarrow> fork_ev) \<Rightarrow> int \<times> exec_event list" where
  "exec_main argv ev =
     (if length argv < 3 then (1, [])
      else (0, fst (exec_loop (drop 2 argv) ev 0 (unat (strtoul (argv ! 1))))))"

fun fork_event :: "bytes list \<Rightarrow> fork_ev \<Rightarrow> exec_event" where
  "fork_event prog Child_Runs = Program_Run prog"
| "fork_event prog Child_Fails = Exec_Failed"
| "fork_event prog Fork_Fails = Fork_Failed"

lemma upt_parts: "i < j \<Longrightarrow> j \<le> k \<Longrightarrow> [i..<k] = i # [Suc i..<j] @ [j..<k]"
  using upt_add_eq_append [of "Suc i" j "k - j"] by (simp add: upt_conv_Cons)

lemma exec_loop_events:
  "exec_loop prog ev k n = (es, k') \<Longrightarrow>
   es = map (fork_event prog \<circ> ev) [k..<k'] \<and> k + n \<le> k' \<and> k' < k + 2 ^ n
   \<and> ((\<forall>j. k \<le> j \<and> j < k' \<longrightarrow> ev j \<noteq> Child_Fails) \<longrightarrow> k' = k + n)
   \<and> ((\<forall>j. k \<le> j \<and> j < k' \<longrightarrow> ev j = Child_Fails) \<longrightarrow> Suc k' = k + 2 ^ n)"
proof (induction n arbitrary: k es k')
  case (Suc n)
  obtain es1 k1 where l1: "exec_loop prog ev (Suc k) n = (es1, k1)" by fastforce
  note ih1 = Suc.IH [OF l1]
  show ?case
  proof (cases "ev k")
    case Child_Fails
    obtain es2 k2 where l2: "exec_loop prog ev k1 n = (es2, k2)" by fastforce
    note ih2 = Suc.IH [OF l2]
    from Suc.prems Child_Fails l1 l2 have "es = Exec_Failed # es1 @ es2" "k' = k2" by simp_all
    with ih1 ih2 Child_Fails upt_parts [of k k1 k2] show ?thesis by auto
  next
    case Child_Runs
    with Suc.prems l1 have "es = Program_Run prog # es1" "k' = k1" by simp_all
    with ih1 Child_Runs upt_parts [of k k1 k1] show ?thesis by auto
  next
    case Fork_Fails
    with Suc.prems l1 have "es = Fork_Failed # es1" "k' = k1" by simp_all
    with ih1 Fork_Fails upt_parts [of k k1 k1] show ?thesis by auto
  qed
qed simp

section \<open>ignoreint\<close>

text \<open>
  A process as far as signals and \<open>exec\<close> are concerned: the signals it blocks. \<open>Exec_As\<close> is
  the program that runs from now on, with its arguments; POSIX keeps the mask across
  \<open>exec\<close> and hands it on at \<open>fork\<close>.
\<close>

abbreviation (input) SIGINT :: int where "SIGINT \<equiv> 2"

datatype outcome = Exec_As "bytes list" "int set" | Exit int

definition ignoreint_main :: "bytes list \<Rightarrow> int set \<Rightarrow> bool \<Rightarrow> outcome" where
  "ignoreint_main argv blk execvp_ok =
     (let blk' = blk \<union> {SIGINT}
      in if length argv > 1 then (if execvp_ok then Exec_As (drop 1 argv) blk' else Exit 1) else Exit 1)"

section \<open>yield\<close>

text \<open>
  The parent yields 1000 times for warming up and 1000 times with the clock running, sends
  \<open>SIGINT\<close> to the child and prints its report; the child yields for ever. \<open>Gone\<close> is a child
  that the signal has ended.
\<close>

datatype parent = Fork | Warm nat | Measure nat | Kill | Print | Returned int

datatype child = No_Child | Yielding | Gone

record yield_state =
  y_parent :: parent
  y_child :: child
  y_times :: "u64 list"

text \<open>The label tells which process a step belongs to. \<open>blk\<close> is the signal mask inherited from the caller.\<close>

inductive yield_step :: "bool \<Rightarrow> int set \<Rightarrow> bool \<Rightarrow> yield_state \<Rightarrow> yield_state \<Rightarrow> bool" for fork_ok blk where
  fork_fails: "y_parent s = Fork \<Longrightarrow> \<not> fork_ok \<Longrightarrow> yield_step fork_ok blk True s (s\<lparr>y_parent := Returned 1\<rparr>)"
| fork: "y_parent s = Fork \<Longrightarrow> fork_ok \<Longrightarrow>
     yield_step fork_ok blk True s (s\<lparr>y_parent := Warm 0, y_child := Yielding\<rparr>)"
| warm: "y_parent s = Warm i \<Longrightarrow> i < 1000 \<Longrightarrow> yield_step fork_ok blk True s (s\<lparr>y_parent := Warm (Suc i)\<rparr>)"
| warm_done: "y_parent s = Warm i \<Longrightarrow> \<not> i < 1000 \<Longrightarrow> yield_step fork_ok blk True s (s\<lparr>y_parent := Measure 0\<rparr>)"
| measure: "y_parent s = Measure i \<Longrightarrow> i < 1000 \<Longrightarrow>
     yield_step fork_ok blk True s (s\<lparr>y_parent := Measure (Suc i), y_times := (y_times s)[i := now - before]\<rparr>)"
| measure_done: "y_parent s = Measure i \<Longrightarrow> \<not> i < 1000 \<Longrightarrow> yield_step fork_ok blk True s (s\<lparr>y_parent := Kill\<rparr>)"
| kill: "y_parent s = Kill \<Longrightarrow>
     yield_step fork_ok blk True s (s\<lparr>y_parent := Print, y_child := (if SIGINT \<in> blk then y_child s else Gone)\<rparr>)"
| print: "y_parent s = Print \<Longrightarrow> yield_step fork_ok blk True s (s\<lparr>y_parent := Returned 0\<rparr>)"
| child: "y_child s = Yielding \<Longrightarrow> yield_step fork_ok blk False s s"

definition yield_init :: yield_state where
  "yield_init = \<lparr>y_parent = Fork, y_child = No_Child, y_times = replicate 1000 0\<rparr>"

text \<open>What \<open>Print\<close> prints.\<close>

definition yield_report :: "yield_state \<Rightarrow> (u64 \<times> u64) result" where
  "yield_report s = cyc_report (y_times s) 1000"

text \<open>A run with the number of steps of the parent.\<close>

definition yield_run :: "bool \<Rightarrow> int set \<Rightarrow> nat \<Rightarrow> yield_state \<Rightarrow> yield_state \<Rightarrow> bool" where
  "yield_run fork_ok blk n s t \<longleftrightarrow> (\<exists>ls. lrun (yield_step fork_ok blk) s ls t \<and> n = count_list ls True)"

lemma yield_run_none: "yield_run fork_ok blk 0 s s"
  by (auto simp: yield_run_def intro!: exI [of _ "[]"] lrun_none)

lemma yield_run_step:
  assumes "yield_run fork_ok blk n s t" "yield_step fork_ok blk p t u"
  shows "yield_run fork_ok blk (if p then Suc n else n) s u"
proof -
  obtain ls where "lrun (yield_step fork_ok blk) s ls t" "n = count_list ls True"
    using assms(1) by (auto simp: yield_run_def)
  with lrun_step [of "yield_step fork_ok blk" s ls t p u] assms(2) show ?thesis
    unfolding yield_run_def by (intro exI [of _ "ls @ [p]"]) auto
qed

fun parent_left :: "parent \<Rightarrow> nat" where
  "parent_left Fork = 2005"
| "parent_left (Warm i) = 2004 - i"
| "parent_left (Measure i) = 1003 - i"
| "parent_left Kill = 2"
| "parent_left Print = 1"
| "parent_left (Returned c) = 0"

definition yield_inv :: "bool \<Rightarrow> int set \<Rightarrow> yield_state \<Rightarrow> bool" where
  "yield_inv fork_ok blk s \<longleftrightarrow> length (y_times s) = 1000
     \<and> (case y_parent s of
          Fork \<Rightarrow> y_child s = No_Child
        | Warm i \<Rightarrow> fork_ok \<and> i \<le> 1000 \<and> y_child s = Yielding
        | Measure i \<Rightarrow> fork_ok \<and> i \<le> 1000 \<and> y_child s = Yielding
        | Kill \<Rightarrow> fork_ok \<and> y_child s = Yielding
        | Print \<Rightarrow> fork_ok \<and> y_child s = (if SIGINT \<in> blk then Yielding else Gone)
        | Returned c \<Rightarrow> if fork_ok then c = 0 \<and> y_child s = (if SIGINT \<in> blk then Yielding else Gone)
                        else c = 1 \<and> y_child s = No_Child)"

lemma yield_inv_init: "yield_inv fork_ok blk yield_init"
  by (simp add: yield_inv_def yield_init_def)

lemma yield_inv_step: "yield_step fork_ok blk p s t \<Longrightarrow> yield_inv fork_ok blk s \<Longrightarrow> yield_inv fork_ok blk t"
  by (induction rule: yield_step.induct) (auto simp: yield_inv_def)

lemma yield_step_left:
  assumes "yield_step True blk p s t" "yield_inv True blk s"
  shows "parent_left (y_parent s) = parent_left (y_parent t) + (if p then 1 else 0)"
  using assms by cases (auto simp: yield_inv_def)

interpretation yield_steps: exact "yield_step True blk" "yield_inv True blk" "\<lambda>p. if p = True then 1 else 0"
  "parent_left \<circ> y_parent"
  by unfold_locales (auto intro: yield_inv_step dest: yield_step_left)

lemma yield_run_account:
  assumes "yield_run True blk n s t" "yield_inv True blk s"
  shows "yield_inv True blk t" "parent_left (y_parent t) + n = parent_left (y_parent s)"
  using assms yield_steps.run_inv yield_steps.run_exact
  unfolding yield_run_def sum_list_count comp_def by blast+

lemma yield_parent_moves:
  assumes "\<And>c. y_parent s \<noteq> Returned c"
  shows "\<exists>t. yield_step fork_ok blk True s t"
proof (cases "y_parent s")
  case Fork
  then show ?thesis by (cases fork_ok) (auto intro: yield_step.intros)
next
  case (Warm i)
  then show ?thesis by (cases "i < 1000") (auto intro: yield_step.intros)
next
  case (Measure i)
  then show ?thesis by (cases "i < 1000") (auto intro: yield_step.intros)
qed (use assms in \<open>auto intro: yield_step.intros\<close>)

lemma yield_run_exists:
  "k \<le> 2005 \<Longrightarrow> \<exists>t. yield_run True blk k yield_init t \<and> yield_inv True blk t \<and> parent_left (y_parent t) = 2005 - k"
proof (induction k)
  case 0
  show ?case using yield_inv_init [of True blk] by (intro exI [of _ yield_init]) (simp add: yield_run_none, simp add: yield_init_def)
next
  case (Suc k)
  then obtain t where t: "yield_run True blk k yield_init t" "yield_inv True blk t"
    "parent_left (y_parent t) = 2005 - k" by auto
  with Suc.prems obtain u where u: "yield_step True blk True t u"
    using yield_parent_moves [of t True blk] by fastforce
  from yield_run_step [OF t(1) u] yield_inv_step [OF u t(2)] yield_step_left [OF u t(2)] t(3) show ?case by auto
qed

section \<open>stracetime\<close>

text \<open>
  What the two processes do, in the order in which it happens (the parent waits for the
  child). \<open>fork_res\<close> is what \<open>fork\<close> returns in the parent, the child's number; \<open>kern\<close> is
  the patched kernel. A child whose \<open>execvp\<close> fails just returns.
\<close>

datatype strace_event = Call sys_call | Started "bytes list" | Not_Started | Waited int | Copied u64 u64

definition stracetime_child :: "(sys_call \<Rightarrow> u64 option \<times> u64 option) \<Rightarrow> int \<Rightarrow> bool \<Rightarrow> bytes list \<Rightarrow> strace_event list" where
  "stracetime_child kern pid execvp_ok argv =
     [Call (syscreset pid), Call (fst (smemcpy kern None)), if execvp_ok then Started (drop 1 argv) else Not_Started]"

definition stracetime_main ::
  "(sys_call \<Rightarrow> u64 option \<times> u64 option) \<Rightarrow> int \<Rightarrow> bool \<Rightarrow> bytes list \<Rightarrow> (int \<times> strace_event list) result"
where
  "stracetime_main kern fork_res execvp_ok argv =
     (if length argv < 2 then ret (1, [])
      else if fork_res < 0 then ret (0, [])
      else
        case smemcpy kern (Some ''copied'') of
          (c, Some cycles, Some n) \<Rightarrow>
            ret (0, stracetime_child kern fork_res execvp_ok argv
                      @ [Waited fork_res, Call c, Copied n cycles, Call sysctrace])
        | _ \<Rightarrow> undef)"

text \<open>
  With the patch, the counters of the child's own process are reset before the program is
  started in it, and read out and traced after it has ended.
\<close>

lemma stracetime_events:
  assumes "patched kern cycles n" "2 \<le> length argv" "0 < pid"
  shows "stracetime_main kern pid ok argv = ret (0,
    [Call (syscreset pid), Call (Sys_Call 0 [Ptr ''cycles'', Val 0]), if ok then Started (drop 1 argv) else Not_Started,
     Waited pid, Call (Sys_Call 0 [Ptr ''cycles'', Ptr ''copied'']), Copied n cycles, Call sysctrace])"
  using assms by (simp add: stracetime_main_def stracetime_child_def smemcpy_patched)

lemma stracetime_unpatched:
  assumes "\<And>c. kern c = (None, None)" "2 \<le> length argv" "0 < pid"
  shows "stracetime_main kern pid ok argv = undef"
  using assms by (simp add: stracetime_main_def smemcpy_def)

section \<open>Properties\<close>

text \<open>
  C35: the processes of \<open>exec\<close>. Whatever the calls of \<open>fork\<close> and \<open>execv\<close> do, with \<open>n\<close>
  rounds on the command line \<open>fork\<close> is called at least \<open>n\<close> and at most \<open>2 ^ n - 1\<close> times,
  the events are those of its calls in order, and the exit code is 0. If \<open>execv\<close> never fails
  there are exactly \<open>n\<close> calls; each failing child goes on with the loop, and if \<open>execv\<close>
  always fails there are \<open>2 ^ n - 1\<close>.
\<close>

theorem exec_processes:
  assumes "argv = name # show_nat n # prog" "prog \<noteq> []" "n < 2 ^ 64"
  shows "\<exists>calls. exec_main argv ev = (0, map (fork_event prog \<circ> ev) [0..<calls]) \<and> n \<le> calls \<and> calls < 2 ^ n
    \<and> ((\<forall>j < calls. ev j \<noteq> Child_Fails) \<longrightarrow> calls = n) \<and> ((\<forall>j < calls. ev j = Child_Fails) \<longrightarrow> calls = 2 ^ n - 1)"
proof -
  have n: "unat (strtoul (show_nat n)) = n" using assms(3) by (simp add: strtoul_show_nat unat_of_nat)
  obtain es calls where run: "exec_loop prog ev 0 n = (es, calls)" by fastforce
  from exec_loop_events [OF run] n run assms(1,2) show ?thesis
    by (intro exI [of _ calls]) (auto simp: exec_main_def Suc_le_eq)
qed

theorem exec_processes_witness:
  "\<exists>calls. exec_main [ascii ''exec'', show_nat 3, ascii ''/bin/nothing''] (\<lambda>_. Child_Fails)
     = (0, map (\<lambda>_. Exec_Failed) [0..<calls]) \<and> calls = 7"
  using exec_processes [of _ "ascii ''exec''" 3 "[ascii ''/bin/nothing'']" "\<lambda>_. Child_Fails"] by (auto simp: comp_def)

text \<open>
  C34: \<open>yield\<close> ends, its child perhaps not. However parent and child are interleaved, the
  parent can always go on and returns 0 after exactly 2005 steps of its own, with the mean
  and deviation of its 1000 times printed. The child only ends by the parent's \<open>SIGINT\<close>:
  it is gone when the parent returns, unless the signal was blocked when \<open>yield\<close> was
  started, as the tool \<open>ignoreint\<close> does for the programs it starts; then it goes on for ever.
\<close>

theorem yield_child_ends:
  assumes "yield_run True blk n yield_init s"
  shows "n \<le> 2005
    \<and> (if \<exists>c. y_parent s = Returned c
       then n = 2005 \<and> y_parent s = Returned 0 \<and> y_child s = (if SIGINT \<in> blk then Yielding else Gone)
       else \<exists>t. yield_step True blk True s t)
    \<and> (in_range (measured (y_times s)) \<longrightarrow>
         yield_report s = ret (mean_of (measured (y_times s)), stddev_of (measured (y_times s))))
    \<and> (ignoreint_main argv blk0 True = Exec_As cmd blk \<and> y_parent s = Returned 0 \<longrightarrow> y_child s = Yielding)"
proof -
  have inv: "yield_inv True blk s" and left: "parent_left (y_parent s) + n = 2005"
    using yield_run_account [OF assms yield_inv_init] by (simp_all add: yield_init_def)
  have "SIGINT \<in> blk" if "ignoreint_main argv blk0 True = Exec_As cmd blk"
    using that by (auto simp: ignoreint_main_def Let_def split: if_splits)
  moreover have "yield_report s = ret (mean_of (measured (y_times s)), stddev_of (measured (y_times s)))"
    if "in_range (measured (y_times s))"
    using cyc_report_measured [of "y_times s"] inv that by (simp add: yield_report_def yield_inv_def)
  ultimately show ?thesis
    using inv left yield_parent_moves [of s True blk] by (auto simp: yield_inv_def)
qed

theorem yield_child_ends_witness:
  "\<exists>s. ignoreint_main [ascii ''ignoreint'', ascii ''yield''] {} True = Exec_As [ascii ''yield''] {2}
     \<and> yield_run True {2} 2005 yield_init s \<and> y_parent s = Returned 0 \<and> y_child s = Yielding"
proof -
  obtain s where s: "yield_run True {2} 2005 yield_init s" "yield_inv True {2} s" "parent_left (y_parent s) = 0"
    using yield_run_exists [of 2005 "{2}"] by auto
  then have "\<exists>c. y_parent s = Returned c" by (cases "y_parent s") (auto simp: yield_inv_def)
  with yield_child_ends [OF s(1)] s(1) show ?thesis by (auto simp: ignoreint_main_def)
qed

end
