(* ===== verification/Mwait.thy ===== *)
theory Mwait
  imports Numtext Platform Transition
begin

text \<open>
  The benchmark \<^verbatim>\<open>apps/mwait/mwait.c\<close>: a thread counts as fast as it can while the main
  thread waits for changes of the counter with a system call of the patched kernel, then
  clears the flag \<open>run\<close> and joins the thread. Both threads and the two shared volatile
  variables are a state, their accesses are the steps, interleaved in any order.
\<close>

section \<open>State\<close>

text \<open>The places of the main thread; \<open>Before i\<close> is the head of the loop in round \<open>i\<close>.\<close>

datatype main_pc = Affinity | Create | Before int | Debug1 int | Wait int | Debug2 int | Stop | Join | Joined

text \<open>\<open>counter++\<close> is a load and a store; \<open>Store v\<close> has loaded \<open>v\<close>.\<close>

datatype thread_pc = Not_Created | Set_Affinity | Test | Load | Store u64 | Finished

datatype mwait_event = Debug u64 | Sys sys_call

record mwait =
  m_pc :: main_pc
  t_pc :: thread_pc
  counter :: u64
  run_flag :: int
  m_log :: "mwait_event list"
  m_exit :: "int option"

text \<open>
  The parameters: the arguments, and what \<open>pthread_setaffinity_np\<close> returns in the two threads
  and \<open>pthread_create\<close>. The tests of the source are for -1; POSIX has these functions
  return 0 or a positive error number.
\<close>

record mwait_param =
  user :: bool
  mw_runs :: int
  aff_main :: int
  created :: int
  aff_thread :: int

definition mwait_args :: "bytes list \<Rightarrow> int \<Rightarrow> int \<Rightarrow> int \<Rightarrow> mwait_param" where
  "mwait_args argv am cr at =
     \<lparr>user = arg_or argv 1 (\<lambda>a. atoi a = 1) True, mw_runs = arg_or argv 2 atoi 10,
      aff_main = am, created = cr, aff_thread = at\<rparr>"

definition mwait_init :: mwait where
  "mwait_init = \<lparr>m_pc = Affinity, t_pc = Not_Created, counter = 0, run_flag = 1, m_log = [], m_exit = None\<rparr>"

definition mwait_call :: "mwait_param \<Rightarrow> mwait_event" where
  "mwait_call P = Sys (Sys_Call 442 [Ptr ''counter'', Val (if user P then 1 else 0)])"

section \<open>Steps\<close>

datatype who = Main | Thread

text \<open>
  A process that has called \<open>exit\<close> takes no step. A thread that could not be created never
  runs, and joining it uses an uninitialised identifier: no step either.
\<close>

inductive mwait_step :: "mwait_param \<Rightarrow> who \<Rightarrow> mwait \<Rightarrow> mwait \<Rightarrow> bool" for P where
  m_affinity: "m_exit s = None \<Longrightarrow> m_pc s = Affinity \<Longrightarrow>
     mwait_step P Main s (if aff_main P = -1 then s\<lparr>m_exit := Some 1\<rparr> else s\<lparr>m_pc := Create\<rparr>)"
| m_create: "m_exit s = None \<Longrightarrow> m_pc s = Create \<Longrightarrow>
     mwait_step P Main s (if created P = -1 then s\<lparr>m_exit := Some 1\<rparr>
                          else s\<lparr>m_pc := Before 0, t_pc := (if created P = 0 then Set_Affinity else Not_Created)\<rparr>)"
| m_before: "m_exit s = None \<Longrightarrow> m_pc s = Before i \<Longrightarrow> i < mw_runs P \<Longrightarrow>
     mwait_step P Main s (s\<lparr>m_pc := (if user P then Debug1 i else Wait i)\<rparr>)"
| m_before_end: "m_exit s = None \<Longrightarrow> m_pc s = Before i \<Longrightarrow> \<not> i < mw_runs P \<Longrightarrow>
     mwait_step P Main s (s\<lparr>m_pc := Stop\<rparr>)"
| m_debug1: "m_exit s = None \<Longrightarrow> m_pc s = Debug1 i \<Longrightarrow>
     mwait_step P Main s (s\<lparr>m_pc := Wait i, m_log := m_log s @ [Debug 0xDEAD]\<rparr>)"
| m_wait: "m_exit s = None \<Longrightarrow> m_pc s = Wait i \<Longrightarrow>
     mwait_step P Main s (s\<lparr>m_pc := (if user P then Debug2 i else Before (i + 1)), m_log := m_log s @ [mwait_call P]\<rparr>)"
| m_debug2: "m_exit s = None \<Longrightarrow> m_pc s = Debug2 i \<Longrightarrow>
     mwait_step P Main s (s\<lparr>m_pc := Before (i + 1), m_log := m_log s @ [Debug 0xBEEF]\<rparr>)"
| m_stop: "m_exit s = None \<Longrightarrow> m_pc s = Stop \<Longrightarrow> mwait_step P Main s (s\<lparr>m_pc := Join, run_flag := 0\<rparr>)"
| m_join: "m_exit s = None \<Longrightarrow> m_pc s = Join \<Longrightarrow> t_pc s = Finished \<Longrightarrow>
     mwait_step P Main s (s\<lparr>m_pc := Joined, m_exit := Some 0\<rparr>)"
| t_affinity: "m_exit s = None \<Longrightarrow> t_pc s = Set_Affinity \<Longrightarrow>
     mwait_step P Thread s (if aff_thread P = -1 then s\<lparr>m_exit := Some 1\<rparr> else s\<lparr>t_pc := Test\<rparr>)"
| t_test: "m_exit s = None \<Longrightarrow> t_pc s = Test \<Longrightarrow>
     mwait_step P Thread s (s\<lparr>t_pc := (if run_flag s \<noteq> 0 then Load else Finished)\<rparr>)"
| t_load: "m_exit s = None \<Longrightarrow> t_pc s = Load \<Longrightarrow> mwait_step P Thread s (s\<lparr>t_pc := Store (counter s)\<rparr>)"
| t_store: "m_exit s = None \<Longrightarrow> t_pc s = Store v \<Longrightarrow>
     mwait_step P Thread s (s\<lparr>t_pc := Test, counter := v + 1\<rparr>)"

inductive_cases mwait_stepE: "mwait_step P w s t"

section \<open>Runs\<close>

text \<open>A run with the steps of each thread and the increments of the counter.\<close>

definition mwait_run :: "mwait_param \<Rightarrow> mwait \<Rightarrow> nat \<Rightarrow> nat \<Rightarrow> mwait \<Rightarrow> bool" where
  "mwait_run P s m t u \<longleftrightarrow>
     (\<exists>ls. lrun (mwait_step P) s ls u \<and> m = count_list ls Main \<and> t = count_list ls Thread)"

lemma mwait_run_none: "mwait_run P s 0 0 s"
  by (auto simp: mwait_run_def intro!: exI [of _ "[]"] lrun_none)

lemma mwait_run_main:
  assumes "mwait_run P s m t u" "mwait_step P Main u v"
  shows "mwait_run P s (Suc m) t v"
proof -
  obtain ls where "lrun (mwait_step P) s ls u" "m = count_list ls Main" "t = count_list ls Thread"
    using assms(1) by (auto simp: mwait_run_def)
  with lrun_step [of "mwait_step P" s ls u Main v] assms(2) show ?thesis
    unfolding mwait_run_def by (intro exI [of _ "ls @ [Main]"]) auto
qed

text \<open>What one round does, and how far the main thread is: the events up to its place.\<close>

definition round_events :: "mwait_param \<Rightarrow> mwait_event list" where
  "round_events P = (if user P then [Debug 0xDEAD, mwait_call P, Debug 0xBEEF] else [mwait_call P])"

definition rounds_done :: "mwait_param \<Rightarrow> int \<Rightarrow> mwait_event list" where
  "rounds_done P i = concat (replicate (nat i) (round_events P))"

definition rounds_of :: "mwait_param \<Rightarrow> int" where
  "rounds_of P = max 0 (mw_runs P)"

fun log_at :: "mwait_param \<Rightarrow> main_pc \<Rightarrow> mwait_event list" where
  "log_at P Affinity = []"
| "log_at P Create = []"
| "log_at P (Before i) = rounds_done P i"
| "log_at P (Debug1 i) = rounds_done P i"
| "log_at P (Wait i) = rounds_done P i @ (if user P then [Debug 0xDEAD] else [])"
| "log_at P (Debug2 i) = rounds_done P i @ [Debug 0xDEAD, mwait_call P]"
| "log_at P pc = rounds_done P (rounds_of P)"

fun index_ok :: "mwait_param \<Rightarrow> main_pc \<Rightarrow> bool" where
  "index_ok P (Before i) \<longleftrightarrow> 0 \<le> i \<and> i \<le> rounds_of P"
| "index_ok P (Debug1 i) \<longleftrightarrow> 0 \<le> i \<and> i < rounds_of P \<and> user P"
| "index_ok P (Wait i) \<longleftrightarrow> 0 \<le> i \<and> i < rounds_of P"
| "index_ok P (Debug2 i) \<longleftrightarrow> 0 \<le> i \<and> i < rounds_of P \<and> user P"
| "index_ok P pc \<longleftrightarrow> True"

definition mwait_inv :: "mwait_param \<Rightarrow> mwait \<Rightarrow> bool" where
  "mwait_inv P s \<longleftrightarrow> index_ok P (m_pc s) \<and> m_log s = log_at P (m_pc s)
     \<and> run_flag s = (if m_pc s \<in> {Join, Joined} then 0 else 1)
     \<and> (t_pc s = Not_Created \<longleftrightarrow> m_pc s \<in> {Affinity, Create} \<or> created P \<noteq> 0)
     \<and> (\<forall>v. t_pc s = Store v \<longrightarrow> v = counter s)
     \<and> (t_pc s = Finished \<longrightarrow> run_flag s = 0)
     \<and> (m_pc s = Joined \<longrightarrow> t_pc s = Finished)
     \<and> (m_exit s = Some 0 \<longleftrightarrow> m_pc s = Joined)
     \<and> (m_exit s \<noteq> None \<and> m_exit s \<noteq> Some 0 \<longrightarrow> m_exit s = Some 1 \<and> -1 \<in> {aff_main P, created P, aff_thread P})"

lemma mwait_inv_init: "mwait_inv P mwait_init"
  by (simp add: mwait_inv_def mwait_init_def)

lemma rounds_done_0 [simp]: "rounds_done P 0 = []"
  by (simp add: rounds_done_def)

lemma rounds_done_Suc: "0 \<le> i \<Longrightarrow> rounds_done P (i + 1) = rounds_done P i @ round_events P"
proof -
  assume "0 \<le> i"
  then have "nat (i + 1) = Suc (nat i)" by simp
  then show ?thesis by (simp only: rounds_done_def replicate_Suc replicate_append_same [symmetric] concat_append concat.simps append_Nil2)
qed

lemma rounds_done_end:
  "0 \<le> i \<Longrightarrow> i \<le> rounds_of P \<Longrightarrow> \<not> i < mw_runs P \<Longrightarrow> rounds_done P i = rounds_done P (rounds_of P)"
proof -
  assume "0 \<le> i" "i \<le> rounds_of P" "\<not> i < mw_runs P"
  then have "i = rounds_of P" by (auto simp: rounds_of_def)
  then show ?thesis by simp
qed

lemma mwait_inv_step:
  assumes "mwait_step P w s t" "mwait_inv P s"
  shows "mwait_inv P t"
  using assms
proof cases
  case (m_before_end i)
  with assms(2) rounds_done_end [of i P] show ?thesis by (auto simp: mwait_inv_def)
qed (auto simp: mwait_inv_def rounds_done_Suc round_events_def rounds_of_def split: if_splits)

interpretation mwait_steps: invariant "mwait_step P" "mwait_inv P"
  by unfold_locales (rule mwait_inv_step)

section \<open>Progress and bounds\<close>

fun pc_left :: "int \<Rightarrow> main_pc \<Rightarrow> nat" where
  "pc_left n Affinity = 4 * nat n + 5"
| "pc_left n Create = 4 * nat n + 4"
| "pc_left n (Before i) = 4 * nat (n - i) + 3"
| "pc_left n (Debug1 i) = 4 * nat (n - i) + 2"
| "pc_left n (Wait i) = 4 * nat (n - i) + 1"
| "pc_left n (Debug2 i) = 4 * nat (n - i)"
| "pc_left n Stop = 2"
| "pc_left n Join = 1"
| "pc_left n Joined = 0"

definition main_left :: "mwait_param \<Rightarrow> mwait \<Rightarrow> nat" where
  "main_left P s = (if m_exit s = None then pc_left (rounds_of P) (m_pc s) else 0)"

fun thread_left :: "thread_pc \<Rightarrow> nat" where
  "thread_left Set_Affinity = 2"
| "thread_left Test = 1"
| "thread_left Load = 3"
| "thread_left (Store v) = 2"
| "thread_left pc = 0"

lemma mwait_main_left:
  assumes "mwait_step P Main s t" "mwait_inv P s"
  shows "main_left P t < main_left P s"
  using assms
proof cases
  case (m_before i)
  then show ?thesis by (cases "user P") (simp_all add: main_left_def)
next
  case (m_wait i)
  with assms(2) have "nat (rounds_of P - i) = Suc (nat (rounds_of P - (i + 1)))" by (auto simp: mwait_inv_def)
  with m_wait show ?thesis by (cases "user P") (simp_all add: main_left_def)
next
  case (m_debug2 i)
  with assms(2) have "nat (rounds_of P - i) = Suc (nat (rounds_of P - (i + 1)))" by (auto simp: mwait_inv_def)
  with m_debug2 show ?thesis by (simp add: main_left_def)
qed (auto simp: main_left_def mwait_inv_def)

lemma mwait_thread_main_left: "mwait_step P Thread s t \<Longrightarrow> main_left P t \<le> main_left P s"
  by (cases rule: mwait_stepE) (auto simp: main_left_def)

interpretation main_steps: bounded "mwait_step P" "mwait_inv P" "\<lambda>w. if w = Main then 1 else 0" "main_left P"
proof
  fix w s t
  assume "mwait_step P w s t" "mwait_inv P s"
  with mwait_main_left [of P s t] mwait_thread_main_left [of P s t]
  show "main_left P t + (if w = Main then 1 else 0) \<le> main_left P s" by (cases w) auto
qed

lemma mwait_run_bounded:
  assumes "mwait_run P s m t u" "mwait_inv P s"
  shows "mwait_inv P u" "main_left P u + m \<le> main_left P s"
  using assms mwait_steps.run_inv main_steps.run_left
  unfolding mwait_run_def sum_list_count by blast+

text \<open>No increment is lost: only the thread writes, and it stores what it has loaded plus one.\<close>

lemma mwait_counts:
  assumes "mwait_step P w s t" "mwait_inv P s"
  shows "counter t = counter s + (if w = Thread \<and> t_pc s = Store (counter s) then 1 else 0)"
  using assms by cases (auto simp: mwait_inv_def)

definition stop_left :: "mwait \<Rightarrow> nat" where
  "stop_left s = (if m_exit s = None then thread_left (t_pc s) else 0)"

definition to_store :: "thread_pc \<Rightarrow> bool" where
  "to_store pc \<longleftrightarrow> pc = Load \<or> (\<exists>v. pc = Store v)"

text \<open>Once the flag is cleared the thread is about to end.\<close>

definition counter_due :: "mwait \<Rightarrow> u64" where
  "counter_due s = counter s + (if to_store (t_pc s) then 1 else 0)"

definition stopping :: "mwait_param \<Rightarrow> u64 \<Rightarrow> bool \<Rightarrow> mwait \<Rightarrow> bool" where
  "stopping P c b s \<longleftrightarrow>
     mwait_inv P s \<and> run_flag s = 0 \<and> counter_due s = c \<and> (to_store (t_pc s) \<longrightarrow> b)"

lemma stopping_step:
  assumes "mwait_step P w s t" "stopping P c b s"
  shows "stopping P c b t"
proof -
  have "mwait_inv P t" using assms mwait_inv_step by (auto simp: stopping_def)
  moreover have "mwait_inv P s" using assms(2) by (simp add: stopping_def)
  with assms have "run_flag t = 0 \<and> counter_due t = c \<and> (to_store (t_pc t) \<longrightarrow> b)"
    by cases (auto simp: stopping_def mwait_inv_def counter_due_def to_store_def split: if_splits)
  ultimately show ?thesis by (simp add: stopping_def)
qed

lemma stopping_left:
  assumes "mwait_step P w s t" "stopping P c b s"
  shows "stop_left t + (if w = Thread then 1 else 0) \<le> stop_left s"
  using assms by cases (auto simp: stop_left_def stopping_def mwait_inv_def split: if_splits)

interpretation thread_steps: bounded "mwait_step P" "stopping P c b" "\<lambda>w. if w = Thread then 1 else 0" stop_left
  by unfold_locales (fact stopping_step, fact stopping_left)

lemma mwait_stopping_run:
  assumes "mwait_run P s m t u" "mwait_inv P s" "run_flag s = 0"
  shows "stop_left u + t \<le> stop_left s" "stopping P (counter_due s) (to_store (t_pc s)) u"
proof -
  have "stopping P (counter_due s) (to_store (t_pc s)) s" using assms by (simp add: stopping_def)
  with assms(1) thread_steps.run_left thread_steps.run_inv
  show "stop_left u + t \<le> stop_left s" "stopping P (counter_due s) (to_store (t_pc s)) u"
    unfolding mwait_run_def sum_list_count by blast+
qed

lemma mwait_thread_moves:
  assumes "m_exit s = None" "t_pc s \<noteq> Not_Created" "t_pc s \<noteq> Finished"
  shows "\<exists>t. mwait_step P Thread s t"
proof (cases "t_pc s")
  case Set_Affinity
  from t_affinity [OF assms(1) this] show ?thesis by blast
next
  case Test
  from t_test [OF assms(1) this] show ?thesis by blast
next
  case Load
  from t_load [OF assms(1) this] show ?thesis by blast
next
  case (Store v)
  from t_store [OF assms(1) this] show ?thesis by blast
qed (use assms in simp_all)

lemma mwait_moves:
  assumes "mwait_inv P s" "m_exit s = None" "created P = 0"
  shows "\<exists>w t. mwait_step P w s t"
proof (cases "m_pc s")
  case (Before i)
  with assms(2) show ?thesis by (cases "i < mw_runs P") (blast intro: mwait_step.intros)+
next
  case Join
  with assms have "t_pc s \<noteq> Not_Created" by (simp add: mwait_inv_def)
  with mwait_thread_moves [OF assms(2)] m_join [OF assms(2) Join] show ?thesis by blast
next
  case Joined
  with assms show ?thesis by (simp add: mwait_inv_def)
qed (use assms(2) in \<open>blast intro: mwait_step.intros\<close>)+

section \<open>Properties\<close>

text \<open>
  C33: the two threads of \<open>mwait\<close>. However they are interleaved, the main thread takes at
  most four steps for each round and five more, and as long as the process has not ended
  some thread can go on. If it ends with code 0, exactly \<open>runs\<close> calls have been made, each
  between its two marks in user mode, and the thread has finished; code 1 needs a call
  that returned -1. Once the flag is cleared, the counting thread takes at most three more
  steps and increments at most once, and no increment is ever lost. If the thread cannot be
  created the process never ends properly, because the error number of \<open>pthread_create\<close> is
  not -1.
\<close>

theorem mwait_protocol:
  assumes "mwait_run P mwait_init m t s"
  shows "m \<le> 4 * nat (mw_runs P) + 5
    \<and> (m_exit s = None \<and> created P = 0 \<longrightarrow> (\<exists>w u. mwait_step P w s u))
    \<and> (m_exit s = Some 0 \<longrightarrow> t_pc s = Finished \<and> m_log s = concat (replicate (nat (mw_runs P)) (round_events P)))
    \<and> (m_exit s = Some 1 \<longrightarrow> -1 \<in> {aff_main P, created P, aff_thread P})
    \<and> (mwait_step P w s u \<longrightarrow> counter u = counter s + (if w = Thread \<and> t_pc s = Store (counter s) then 1 else 0))
    \<and> (run_flag s = 0 \<and> mwait_run P s m' t' u \<longrightarrow> t' \<le> 3 \<and> counter u \<in> {counter s, counter s + 1})
    \<and> (created P \<noteq> 0 \<longrightarrow> m_exit s \<noteq> Some 0)"
proof (intro conjI impI)
  have inv: "mwait_inv P s" using mwait_run_bounded(1) [OF assms mwait_inv_init] .
  have "rounds_of P = max 0 (mw_runs P)" by (simp add: rounds_of_def)
  then have nr: "nat (rounds_of P) = nat (mw_runs P)" by simp
  show "m \<le> 4 * nat (mw_runs P) + 5"
    using mwait_run_bounded(2) [OF assms mwait_inv_init] nr by (simp add: main_left_def mwait_init_def)
  show "\<exists>w u. mwait_step P w s u" if "m_exit s = None \<and> created P = 0"
    using that by (intro mwait_moves [OF inv]) simp_all
  show "t_pc s = Finished" "m_log s = concat (replicate (nat (mw_runs P)) (round_events P))" if "m_exit s = Some 0"
    using inv that nr by (auto simp: mwait_inv_def rounds_done_def)
  show "-1 \<in> {aff_main P, created P, aff_thread P}" if "m_exit s = Some 1"
    using inv that by (auto simp: mwait_inv_def)
  show "counter u = counter s + (if w = Thread \<and> t_pc s = Store (counter s) then 1 else 0)" if "mwait_step P w s u"
    using mwait_counts [OF that inv] .
  show "m_exit s \<noteq> Some 0" if "created P \<noteq> 0"
    using inv that by (auto simp: mwait_inv_def)
  assume stop: "run_flag s = 0 \<and> mwait_run P s m' t' u"
  note ended = mwait_stopping_run [OF conjunct2 [OF stop] inv conjunct1 [OF stop]]
  have "stop_left s \<le> 3" by (cases "t_pc s") (simp_all add: stop_left_def)
  with ended(1) show "t' \<le> 3" by linarith
  from ended(2) show "counter u \<in> {counter s, counter s + 1}"
    by (auto simp: stopping_def counter_due_def split: if_splits)
qed

theorem mwait_protocol_witness:
  "let P = mwait_args [ascii ''mwait'', ascii ''1'', ascii ''2''] 0 0 0
   in \<exists>s. mwait_run P mwait_init 2 0 s \<and> m_pc s = Before 0 \<and> (\<exists>w u. mwait_step P w s u)"
proof -
  define P where "P = mwait_args [ascii ''mwait'', ascii ''1'', ascii ''2''] 0 0 0"
  have P: "aff_main P = 0" "created P = 0" by (simp_all add: P_def mwait_args_def)
  let ?a = "mwait_init\<lparr>m_pc := Create\<rparr>" and ?b = "mwait_init\<lparr>m_pc := Before 0, t_pc := Set_Affinity\<rparr>"
  have "mwait_step P Main mwait_init ?a" using m_affinity [of mwait_init P] P by (simp add: mwait_init_def)
  with mwait_run_main [OF mwait_run_none] have "mwait_run P mwait_init (Suc 0) 0 ?a" by blast
  moreover have "mwait_step P Main ?a ?b" using m_create [of ?a P] P by (simp add: mwait_init_def)
  ultimately have "mwait_run P mwait_init (Suc (Suc 0)) 0 ?b" by (rule mwait_run_main)
  from mwait_protocol [OF this] this P show ?thesis
    unfolding Let_def P_def [symmetric]
    by (intro exI [of _ ?b]) (simp add: numeral_2_eq_2, simp add: mwait_init_def)
qed

end
