(* ===== verification/Sqlite.thy ===== *)
theory Sqlite
  imports Numtext Stats
begin

text \<open>
  The SQLite benchmark \<^verbatim>\<open>apps/sqlite/sqlite.c\<close>. SQLite itself is not part of the sources:
  opening a database and executing a statement are parameters. Modelled are the
  statements, down to the \<open>float\<close> arithmetic and the \<^verbatim>\<open>%f\<close> that make the last column, their
  order, and what becomes of errors.
\<close>

section \<open>Single precision\<close>

text \<open>
  Rounding to \<open>p\<close> significant bits, to nearest and ties to even; with 53 bits this is
  \<open>to_double\<close>. A \<open>float\<close> between 0 and 128 is a multiple of \<open>2 ^ -22\<close> here, and is given by
  that multiple.
\<close>

definition round_half :: "nat \<Rightarrow> nat \<Rightarrow> nat" where
  "round_half n d = (if 2 * (n mod d) < d \<or> 2 * (n mod d) = d \<and> even (n div d) then n div d else n div d + 1)"

definition round_to :: "nat \<Rightarrow> nat \<Rightarrow> nat" where
  "round_to n d = round_half n d * d"

definition round_sig :: "nat \<Rightarrow> nat \<Rightarrow> nat" where
  "round_sig p n = round_to n (2 ^ (bit_len n - p))"

lemma to_double_round_sig: "to_double n = round_sig 53 n"
  by (simp add: to_double_def round_sig_def round_to_def round_half_def Let_def)

text \<open>The constant \<^verbatim>\<open>3.4f\<close> (the nearest multiple, see below), and \<^verbatim>\<open>i * 3.4f\<close>: \<open>i\<close> becomes a \<open>float\<close>, the product is rounded.\<close>

definition float_3_4 :: nat where
  "float_3_4 = 14260634"

definition times_3_4 :: "nat \<Rightarrow> nat" where
  "times_3_4 i = round_sig 24 (round_sig 24 i * float_3_4)"

section \<open>Formatting\<close>

text \<open>\<^verbatim>\<open>%f\<close> of a multiple of \<open>2 ^ -22\<close>: the millionths, rounded to nearest and ties to even, and the text.\<close>

definition millionths :: "nat \<Rightarrow> nat" where
  "millionths m = round_half (m * 10 ^ 6) (2 ^ 22)"

definition fmt_f :: "nat \<Rightarrow> bytes" where
  "fmt_f m =
     (let n = millionths m; frac = show_nat (n mod 10 ^ 6)
      in show_nat (n div 10 ^ 6) @ ascii ''.'' @ replicate (6 - length frac) 48 @ frac)"

text \<open>\<open>snprintf\<close> into 256 bytes.\<close>

definition snprintf_256 :: "bytes \<Rightarrow> bytes" where
  "snprintf_256 s = take 255 s"

section \<open>The program\<close>

definition create_sql :: bytes where
  "create_sql = ascii (''CREATE TABLE TEST ('' @ ''ID INT PRIMARY KEY NOT NULL,'' @ ''T_TEXT         TEXT,''
     @ ''T_INT          INT,'' @ ''T_CHAR         CHAR(50),'' @ ''T_REAL         REAL'' @ '');'')"

definition select_sql :: bytes where
  "select_sql = ascii ''SELECT * from TEST''"

definition insert_text :: "nat \<Rightarrow> bytes" where
  "insert_text i =
     ascii (''INSERT INTO TEST (ID, T_TEXT, T_INT, T_CHAR, T_REAL)'' @ ''VALUES ('') @ show_nat (i + 1)
     @ ascii '', 'My text', '' @ show_nat (i * 12) @ ascii '', 'My char', '' @ fmt_f (times_3_4 i) @ ascii '');''"

definition insert_sql :: "nat \<Rightarrow> bytes" where
  "insert_sql i = snprintf_256 (insert_text i)"

text \<open>
  \<open>execute\<close>: \<open>exec\<close> is \<open>sqlite3_exec\<close> (return code, error message, database); an error is
  only printed. The state is the database and the messages printed.
\<close>

definition sql_execute ::
  "('db \<Rightarrow> bytes \<Rightarrow> int \<times> bytes \<times> 'db) \<Rightarrow> bytes \<Rightarrow> 'db \<times> bytes list \<Rightarrow> 'db \<times> bytes list"
where
  "sql_execute exec sql st =
     (case exec (fst st) sql of (rc, err, db') \<Rightarrow> (db', if rc \<noteq> 0 then snd st @ [err] else snd st))"

definition sqlite_inserts :: "('db \<Rightarrow> bytes \<Rightarrow> int \<times> bytes \<times> 'db) \<Rightarrow> 'db \<times> bytes list \<Rightarrow> 'db \<times> bytes list" where
  "sqlite_inserts exec st = fold (\<lambda>i. sql_execute exec (insert_sql i)) [0..<32] st"

text \<open>\<open>main\<close>: the exit code and, once the database is open, the final state. A failing open exits with 0.\<close>

definition sqlite_main ::
  "(bytes \<Rightarrow> int \<times> 'db) \<Rightarrow> ('db \<Rightarrow> bytes \<Rightarrow> int \<times> bytes \<times> 'db) \<Rightarrow> bytes list \<Rightarrow> int \<times> ('db \<times> bytes list) option"
where
  "sqlite_main opn exec argv =
     (if length argv < 2 then (1, None)
      else case opn (argv ! 1) of
        (rc, db) \<Rightarrow>
          if rc \<noteq> 0 then (0, None)
          else (0, Some (sql_execute exec select_sql (sqlite_inserts exec (sql_execute exec create_sql (db, []))))))"

section \<open>The statements\<close>

definition sqlite_script :: "bytes list" where
  "sqlite_script = [create_sql] @ map insert_text [0..<32] @ [select_sql]"

lemma bit_len_eval:
  "bit_len 0 = 0" "bit_len (Suc 0) = 1" "bit_len 1 = 1" "bit_len (numeral k) = Suc (bit_len (numeral k div 2))"
  by (simp_all add: bit_len.simps [of 0] bit_len.simps [of "Suc 0"] bit_len.simps [of "numeral k"])

lemma upt_32: "[0..<32] = [0, 1, 2, 3, 4, 5, 6, 7, 8, 9, 10, 11, 12, 13, 14, 15, 16, 17, 18, 19, 20, 21, 22, 23,
    24, 25, 26, 27, 28, 29, 30, 31]"
  by (simp add: upt_rec)

lemma float_3_4_nearest: "2 * \<bar>10 * int float_3_4 - 34 * 2 ^ 22\<bar> \<le> 10 * 1"
  by (simp add: float_3_4_def)

text \<open>The number printed in row \<open>i\<close> is \<open>3.4 i\<close> up to 6 millionths.\<close>

definition near :: "nat \<Rightarrow> bool" where
  "near i \<longleftrightarrow> \<bar>int (millionths (times_3_4 i)) - 3400000 * int i\<bar> \<le> 6"

lemma near_rows:
  "near 0" "near 1" "near 2" "near 3" "near 4" "near 5" "near 6" "near 7"
  "near 8" "near 9" "near 10" "near 11" "near 12" "near 13" "near 14" "near 15"
  "near 16" "near 17" "near 18" "near 19" "near 20" "near 21" "near 22" "near 23"
  "near 24" "near 25" "near 26" "near 27" "near 28" "near 29" "near 30" "near 31"
  by (simp_all add: near_def times_3_4_def millionths_def round_sig_def round_to_def round_half_def float_3_4_def bit_len_eval)

lemma times_3_4_near: "i < 32 \<Longrightarrow> \<bar>int (millionths (times_3_4 i)) - 3400000 * int i\<bar> \<le> 6"
proof -
  have "list_all near [0..<32]" by (simp only: upt_32 list.pred_inject near_rows simp_thms)
  moreover assume "i < 32"
  ultimately show ?thesis by (simp add: list_all_iff near_def)
qed

lemma length_show_nat: "n < 10 ^ k \<Longrightarrow> 0 < k \<Longrightarrow> length (show_nat n) \<le> k"
proof (induction n arbitrary: k rule: show_nat.induct)
  case (1 n)
  show ?case
  proof (cases "n < 10")
    case True
    with "1.prems"(2) show ?thesis by (simp add: show_nat.simps [of n])
  next
    case False
    then obtain j where j: "k = Suc j" "0 < j" using "1.prems" by (cases k; cases "k - 1") auto
    with "1.prems"(1) have "n div 10 < 10 ^ j" by simp
    with "1.IH" [OF False this j(2)] False j show ?thesis by (simp add: show_nat.simps [of n])
  qed
qed

lemma length_fmt_f: "millionths m < 10 ^ 9 \<Longrightarrow> length (fmt_f m) \<le> 10"
  using length_show_nat [of "millionths m div 10 ^ 6" 3] length_show_nat [of "millionths m mod 10 ^ 6" 6]
  by (simp add: fmt_f_def Let_def ascii_def)

lemma insert_text_fits: "i < 32 \<Longrightarrow> length (insert_text i) < 256"
proof -
  assume i: "i < 32"
  with times_3_4_near [OF i] have "millionths (times_3_4 i) < 10 ^ 9" by simp
  then have "length (fmt_f (times_3_4 i)) \<le> 10" by (rule length_fmt_f)
  moreover have "length (show_nat (Suc i)) \<le> 2" "length (show_nat (i * 12)) \<le> 3"
    using i by (intro length_show_nat; simp)+
  ultimately show ?thesis by (simp add: insert_text_def ascii_def)
qed

lemma insert_sql_eq: "i < 32 \<Longrightarrow> insert_sql i = insert_text i"
  using insert_text_fits [of i] by (simp add: insert_sql_def snprintf_256_def)

text \<open>The key of a row can be read off its statement.\<close>

lemma insert_text_inj: "insert_text i = insert_text j \<Longrightarrow> i = j"
proof -
  assume "insert_text i = insert_text j"
  moreover have split: "takeWhile is_digit (show_nat n @ ascii '', 'My text', '' @ r) = show_nat n" for n r
  proof -
    have "\<not> is_digit 44" by (simp add: is_digit_def)
    then show ?thesis using show_nat_digits [of n] by (simp add: takeWhile_append list_all_iff ascii_def)
  qed
  ultimately have "takeWhile is_digit (show_nat (i + 1) @ ascii '', 'My text', '' @ show_nat (i * 12)
        @ ascii '', 'My char', '' @ fmt_f (times_3_4 i) @ ascii '');'')
      = takeWhile is_digit (show_nat (j + 1) @ ascii '', 'My text', '' @ show_nat (j * 12)
        @ ascii '', 'My char', '' @ fmt_f (times_3_4 j) @ ascii '');'')"
    unfolding insert_text_def by (metis same_append_eq)
  then have "show_nat (i + 1) = show_nat (j + 1)" by (simp only: split)
  then have "digits_val (show_nat (i + 1)) = digits_val (show_nat (j + 1))" by (rule arg_cong)
  then show ?thesis by simp
qed

lemma sqlite_main_eq:
  assumes "2 \<le> length argv" "opn (argv ! 1) = (0, db)"
  shows "sqlite_main opn exec argv = (0, Some (fold (sql_execute exec) sqlite_script (db, [])))"
proof -
  have "sqlite_inserts exec st = fold (sql_execute exec) (map insert_text [0..<32]) st" for st
  proof -
    have "fold (\<lambda>i. sql_execute exec (insert_sql i)) [0..<32] st = fold (\<lambda>i. sql_execute exec (insert_text i)) [0..<32] st"
      by (intro fold_cong) (auto simp: insert_sql_eq)
    then show ?thesis by (simp add: sqlite_inserts_def fold_map comp_def)
  qed
  with assms show ?thesis by (simp add: sqlite_main_def sqlite_script_def)
qed

section \<open>Properties\<close>

text \<open>
  C39: what SQLite is asked to do. Whatever the library answers, a database that can be
  opened is given exactly the 34 statements of the script, in order: errors are printed and
  otherwise ignored, and the exit code is 0 (also when the database cannot be opened). No
  statement is cut off by its 256-byte buffer, no two rows have the same statement, and the
  last column, computed in single precision, is within 6 millionths of \<open>3.4 i\<close>.
\<close>

theorem sqlite_statements:
  assumes "2 \<le> length argv" "opn (argv ! 1) = (rc, db)"
  shows "sqlite_main opn exec argv
      = (0, if rc = 0 then Some (fold (sql_execute exec) sqlite_script (db, [])) else None)
    \<and> length sqlite_script = 34
    \<and> (\<forall>i < 32. length (insert_text i) < 256 \<and> insert_sql i = sqlite_script ! Suc i
         \<and> \<bar>int (millionths (times_3_4 i)) - 3400000 * int i\<bar> \<le> 6)
    \<and> distinct (map insert_text [0..<32])"
proof (intro conjI)
  show "sqlite_main opn exec argv
      = (0, if rc = 0 then Some (fold (sql_execute exec) sqlite_script (db, [])) else None)"
    using assms sqlite_main_eq [of argv opn db exec] by (auto simp: sqlite_main_def)
  show "length sqlite_script = 34" by (simp add: sqlite_script_def)
  show "\<forall>i < 32. length (insert_text i) < 256 \<and> insert_sql i = sqlite_script ! Suc i
         \<and> \<bar>int (millionths (times_3_4 i)) - 3400000 * int i\<bar> \<le> 6"
    using insert_text_fits times_3_4_near by (auto simp: sqlite_script_def nth_append insert_sql_eq simp del: upt_Suc)
  show "distinct (map insert_text [0..<32])"
    by (simp add: distinct_map inj_on_def insert_text_inj)
qed

theorem sqlite_statements_witness:
  "let logger = (\<lambda>db sql. (1, ascii ''locked'', db @ [sql]))
   in \<exists>errs. sqlite_main (\<lambda>path. (0, [])) logger [ascii ''sqlite'', ascii ''x''] = (0, Some (sqlite_script, errs))
        \<and> length errs = 34"
proof -
  let ?logger = "\<lambda>db sql. (1, ascii ''locked'', db @ [sql])"
  have log: "fold (sql_execute ?logger) sqls (db, errs) = (db @ sqls, errs @ replicate (length sqls) (ascii ''locked''))"
    for sqls db errs
    by (induction sqls arbitrary: db errs) (simp_all add: sql_execute_def replicate_app_Cons_same)
  show ?thesis
    using sqlite_statements [of "[ascii ''sqlite'', ascii ''x'']" "\<lambda>path. (0, [])" 0 "[]" ?logger]
    by (simp add: log Let_def)
qed

end
