(* ===== verification/Leveldb_Bench.thy ===== *)
theory Leveldb_Bench
  imports Kv_Store Numtext Platform
begin

text \<open>
  The LevelDB benchmark \<^verbatim>\<open>apps/leveldb/leveldb.cc\<close> on a store that keeps the contract of
  \<open>kv_store\<close>: 512 insertions, one pass over the store, five look-ups with deletion.
\<close>

definition bench_key :: "nat \<Rightarrow> bytes" where
  "bench_key i = ascii ''Key'' @ show_nat i"

definition bench_value :: bytes where
  "bench_value = replicate 1024 (of_char (CHR ''x''))"

definition bench_insert :: "('db, 'it) leveldb \<Rightarrow> 'db \<Rightarrow> 'db" where
  "bench_insert L db = fold (\<lambda>i d. db_put L d (bench_key i) bench_value) [0..<512] db"

text \<open>The pass reads every value; the result lists them.\<close>

partial_function (option) bench_scan :: "('db, 'it) leveldb \<Rightarrow> 'it \<Rightarrow> bytes list \<Rightarrow> bytes list option" where
  "bench_scan L it vals =
     (if it_valid L it then bench_scan L (it_next L it) (vals @ [it_value L it]) else Some vals)"

text \<open>The keys that are not found are reported.\<close>

fun bench_delete :: "('db, 'it) leveldb \<Rightarrow> bytes list \<Rightarrow> 'db \<Rightarrow> bytes list \<Rightarrow> 'db \<times> bytes list" where
  "bench_delete L [] db missing = (db, missing)"
| "bench_delete L (k # ks) db missing =
     (case db_get L db k of
        Some v \<Rightarrow> bench_delete L ks (db_delete L db k) missing
      | None \<Rightarrow> bench_delete L ks db (missing @ [k]))"

definition bench_deleted :: "bytes list" where
  "bench_deleted = map ascii [''Key1'', ''Key40'', ''Key12'', ''Key16'', ''_Key77_'']"

text \<open>
  \<open>main\<close> with the number of its process and the two clock readings: exit code, the system
  calls and the time printed, the values seen, the keys reported as missing and the final
  store. The status of the iterator and of the deletions only decides about messages.
\<close>

datatype bench_event = Bench_Call sys_call | Took u64

definition bench_main ::
  "('db, 'it) leveldb \<Rightarrow> nat \<Rightarrow> int \<Rightarrow> u64 \<times> u64 \<Rightarrow> bool \<Rightarrow> 'db
     \<Rightarrow> (int \<times> bench_event list \<times> bytes list \<times> bytes list \<times> 'db) option"
where
  "bench_main L argc pid clk open_ok db =
     (if argc < 2 then Some (1, [], [], [], db)
      else if \<not> open_ok then Some (-1, [Bench_Call (syscreset pid)], [], [], db)
      else
        let db1 = bench_insert L db
        in case bench_scan L (it_first L db1) [] of
             None \<Rightarrow> None
           | Some vals \<Rightarrow>
               (case bench_delete L bench_deleted db1 [] of (db2, missing) \<Rightarrow>
                  Some (0, [Bench_Call (syscreset pid), Took (snd clk - fst clk), Bench_Call sysctrace],
                        vals, missing, db2)))"

section \<open>Keys\<close>

lemma bench_key_inj [simp]: "bench_key i = bench_key j \<longleftrightarrow> i = j"
  by (metis bench_key_def digits_val_show_nat same_append_eq)

lemma bench_deleted_keys:
  "bench_deleted = [bench_key 1, bench_key 40, bench_key 12, bench_key 16, ascii ''_Key77_'']"
  by (simp add: bench_deleted_def bench_key_def ascii_def show_nat.simps)

lemma odd_key [simp]: "ascii ''_Key77_'' \<noteq> bench_key i" "bench_key i \<noteq> ascii ''_Key77_''"
  by (simp_all add: bench_key_def ascii_def)

section \<open>What the benchmark leaves\<close>

definition bench_map :: "nat set \<Rightarrow> bytes \<rightharpoonup> bytes" where
  "bench_map I = (\<lambda>k. if k \<in> bench_key ` I then Some bench_value else None)"

lemma bench_map_key [simp]: "bench_map I (bench_key i) = (if i \<in> I then Some bench_value else None)"
  by (auto simp: bench_map_def)

lemma bench_map_odd [simp]: "bench_map I (ascii ''_Key77_'') = None"
  by (auto simp: bench_map_def)

lemma bench_map_put: "(bench_map I)(bench_key i \<mapsto> bench_value) = bench_map (insert i I)"
  by (auto simp: bench_map_def fun_eq_iff)

lemma bench_map_delete: "(bench_map I)(bench_key i := None) = bench_map (I - {i})"
  by (auto simp: bench_map_def fun_eq_iff)

context kv_store
begin

lemma bench_insert_abs:
  assumes "inv db" "abs db = Map.empty"
  shows "inv (bench_insert L db) \<and> abs (bench_insert L db) = bench_map {..<512}"
proof -
  let ?f = "\<lambda>i d. db_put L d (bench_key i) bench_value"
  have "inv (fold ?f [0..<n] db) \<and> abs (fold ?f [0..<n] db) = bench_map {..<n}" for n
    using assms by (induction n) (simp_all add: put put_inv bench_map_put lessThan_Suc, simp add: bench_map_def)
  then show ?thesis unfolding bench_insert_def .
qed

lemma bench_scan_list: "bench_scan L it vals = Some (vals @ map snd (todo it))"
proof (induction "todo it" arbitrary: it vals)
  case Nil
  then show ?case by (simp add: bench_scan.simps [of L it] valid)
next
  case (Cons e es)
  from Cons(2) [symmetric] show ?case
    by (subst bench_scan.simps) (simp add: valid key val nxt Cons(1))
qed

lemma bench_delete_hit:
  "inv db \<Longrightarrow> abs db = bench_map I \<Longrightarrow> i \<in> I \<Longrightarrow>
   bench_delete L (bench_key i # ks) db missing = bench_delete L ks (db_delete L db (bench_key i)) missing
   \<and> inv (db_delete L db (bench_key i)) \<and> abs (db_delete L db (bench_key i)) = bench_map (I - {i})"
  by (simp add: get delete delete_inv bench_map_delete)

lemma bench_main_result:
  assumes "inv db" "abs db = Map.empty" "2 \<le> argc"
  shows "\<exists>db'. bench_main L argc pid clk True db = Some (0,
         [Bench_Call (syscreset pid), Took (snd clk - fst clk), Bench_Call sysctrace],
         replicate 512 bench_value, [ascii ''_Key77_''], db')
     \<and> inv db' \<and> abs db' = bench_map ({..<512} - {1, 12, 16, 40})"
proof -
  define db1 where "db1 = bench_insert L db"
  have db1: "inv db1" "abs db1 = bench_map {..<512}" using bench_insert_abs [OF assms(1,2)] by (simp_all add: db1_def)
  let ?es = "todo (it_first L db1)"
  have keys: "fst ` set ?es = bench_key ` {..<512}"
    using first_keys [OF db1(1)] db1(2) by (auto simp: bench_map_def dom_def split: if_splits)
  have "length ?es = card (fst ` set ?es)"
    using first_distinct [OF db1(1)] by (metis distinct_card length_map list.set_map)
  also have "\<dots> = 512" unfolding keys by (subst card_image) (auto intro: inj_onI)
  finally have len: "length ?es = 512" .
  have "snd e = bench_value" if "e \<in> set ?es" for e
  proof -
    have "abs db1 (fst e) = Some (snd e)" using first_entries [OF db1(1), of "fst e" "snd e"] that by simp
    then show ?thesis using db1(2) by (auto simp: bench_map_def split: if_splits)
  qed
  then have vals: "map snd ?es = replicate 512 bench_value"
    using len by (intro replicate_eqI) auto
  define a where "a = db_delete L db1 (bench_key 1)"
  define b where "b = db_delete L a (bench_key 40)"
  define c where "c = db_delete L b (bench_key 12)"
  define d where "d = db_delete L c (bench_key 16)"
  note hit = bench_delete_hit
  have a: "inv a" "abs a = bench_map ({..<512} - {1})"
    and da: "bench_delete L bench_deleted db1 [] = bench_delete L (tl bench_deleted) a []"
    using hit [OF db1, of 1] by (simp_all add: a_def bench_deleted_keys)
  have b: "inv b" "abs b = bench_map ({..<512} - {1} - {40})"
    and dab: "bench_delete L (tl bench_deleted) a [] = bench_delete L (tl (tl bench_deleted)) b []"
    using hit [OF a, of 40] by (simp_all add: b_def bench_deleted_keys)
  have c: "inv c" "abs c = bench_map ({..<512} - {1} - {40} - {12})"
    and dbc: "bench_delete L (tl (tl bench_deleted)) b [] = bench_delete L (tl (tl (tl bench_deleted))) c []"
    using hit [OF b, of 12] by (simp_all add: c_def bench_deleted_keys)
  have d: "inv d" "abs d = bench_map ({..<512} - {1} - {40} - {12} - {16})"
    and dcd: "bench_delete L (tl (tl (tl bench_deleted))) c [] = (d, [ascii ''_Key77_''])"
    using hit [OF c, of 16] by (simp_all add: d_def bench_deleted_keys get)
  have "bench_delete L bench_deleted db1 [] = (d, [ascii ''_Key77_''])"
    using da dab dbc dcd by simp
  moreover have "{..<512 :: nat} - {1} - {40} - {12} - {16} = {..<512} - {1, 12, 16, 40}" by auto
  ultimately show ?thesis
    using assms(3) d vals by (simp add: bench_main_def bench_scan_list flip: db1_def)
qed

end

text \<open>
  C32: the LevelDB benchmark. On an empty database that keeps its contract the program
  terminates with exit code 0, having reset the counters of its process before it looks at
  the clock and traced them after printing its time; the pass over the store sees all 512 values; of the five
  keys to delete exactly \<open>_Key77_\<close> is reported missing; and what is left are the other
  508 keys, each with its kilobyte of \<open>x\<close>. If the database cannot be opened the program
  ends with \<open>-1\<close> after resetting the counters, without a time and without tracing them; with
  no argument it ends with 1 and does nothing. Neither touches the database.
\<close>

theorem leveldb_benchmark:
  assumes "kv_store L dbinv view todo" "dbinv db" "view db = Map.empty" "2 \<le> argc"
  shows "(\<exists>db'. bench_main L argc pid clk True db = Some (0,
         [Bench_Call (syscreset pid), Took (snd clk - fst clk), Bench_Call sysctrace],
         replicate 512 bench_value, [ascii ''_Key77_''], db')
       \<and> dbinv db' \<and> view db' = bench_map ({..<512} - {1, 12, 16, 40}))
     \<and> bench_main L argc pid clk False db = Some (-1, [Bench_Call (syscreset pid)], [], [], db)
     \<and> bench_main L 1 pid clk open_ok db = Some (1, [], [], [], db)"
  using kv_store.bench_main_result [OF assms] assms(4) by (simp_all add: bench_main_def)

theorem leveldb_benchmark_witness:
  "(\<exists>db'. bench_main ol_ops 2 77 (10, 90) True [] = Some (0,
         [Bench_Call (syscreset 77), Took 80, Bench_Call sysctrace], replicate 512 bench_value, [ascii ''_Key77_''], db')
     \<and> ol_inv db' \<and> map_of db' = bench_map ({..<512} - {1, 12, 16, 40}))
     \<and> bench_main ol_ops 2 77 (10, 90) False [] = Some (-1, [Bench_Call (syscreset 77)], [], [], [])"
  using leveldb_benchmark [OF ol.kv_store_axioms, of "[]" 2 77 "(10, 90)"] by (simp add: ol_inv_def)

end
