(* ===== verification/Spec2Isabelle.thy ===== *)
theory Spec2Isabelle
  imports Ycsb_Spec Server_Robust Handler_Types Memcpy Pingpong_Spec Copy_Apps Micro_Apps Memload Netlat Process_Apps Mwait
    Sqlite Leveldb_Bench
begin

text \<open>
  A verification development for \<^verbatim>\<open>bench-lx\<close>, the benchmark programs of the
  Barkhausen-Institut for Linux: a YCSB server on LevelDB and about a dozen small
  programs that measure system calls, memory, files, message queues and processes.

  The programs. The largest is the YCSB server (\<^verbatim>\<open>apps/ycsbserver\<close>): a handler delivers
  packages, from a TCP connection or from a workload file replayed with UDP output; the
  executor runs them on LevelDB and measures them; \<^verbatim>\<open>main\<close> connects the two and answers
  each package with as many bytes as the operation produced. The other programs share the
  header files \<^verbatim>\<open>include/common.h\<close>, \<^verbatim>\<open>cycles.h\<close> and \<^verbatim>\<open>profile.h\<close> for reading the cycle
  counter and for statistics, and are otherwise independent of each other.

  The theories, and the code each models:

  \<^item> \<^verbatim>\<open>Prelude\<close>: machine integers as words, results with undefined behaviour (\<open>Undefined\<close>),
    exceptions (\<open>Throw\<close>) and calls that never return (\<open>never\<close>), buffers, big-endian numbers.
  \<^item> \<^verbatim>\<open>Wire\<close>: \<open>Package\<close> of \<^verbatim>\<open>ops.h\<close>, \<open>read_u64\<close> and \<open>from_bytes\<close> of \<^verbatim>\<open>handler.cc\<close>. The
    specification is an encoder: the decoder inverts it (C5), accepts nothing else (C6),
    reports packages that are cut short (C12) and stays inside its buffer (C13), except
    that the header is not checked (lemma \<open>from_bytes_header_unchecked\<close>).
  \<^item> \<^verbatim>\<open>Posix\<close>: \<open>read\<close> and \<open>write\<close> as scripts of what the kernel does, and the loop that fills
    a buffer, with its wrapping counter.
  \<^item> \<^verbatim>\<open>Op_Handler\<close>: the abstract class \<open>OpHandler\<close> of \<^verbatim>\<open>handler.h\<close> as the locales
    \<open>op_handler\<close> (what every handler keeps), \<open>op_feed\<close> (a handler with packages to
    deliver) and \<open>op_link\<close> (one whose sends are taken in full), with \<open>respond\<close> of
    \<^verbatim>\<open>handler.cc\<close> verified once against them, and the handlers reachable by any calls.
  \<^item> \<^verbatim>\<open>Tcp_Handler\<close> and \<^verbatim>\<open>Udp_Handler\<close>: the classes of \<^verbatim>\<open>tcp_handler.cc\<close> and
    \<^verbatim>\<open>udp_handler.cc\<close>, state, constructor, \<open>send\<close>, \<open>receive\<close> and \<open>reset\<close>; both interpret all
    three locales. Framing over any chunks (C7), the stop messages (C14), memory safety (\<open>tcp_receive_safe\<close>),
    bad connections (C20), workload replay (C8). \<^verbatim>\<open>Handler_Types\<close>: what holds of both from
    their construction on, whatever is called (C9).
  \<^item> \<^verbatim>\<open>Numtext\<close>: decimal numbers as \<open>operator<<\<close>, \<open>std::stoll\<close>, \<open>operator>>\<close>, \<open>atoi\<close> and
    \<open>strtoul\<close> print and read them, and arguments with a default.
  \<^item> \<^verbatim>\<open>Kv_Store\<close>: LevelDB is a git submodule without sources here; its operations are the
    parameter \<open>L\<close>, and what the callers rely on (a map; iterators over a snapshot in
    bytewise order of the keys) is the locale \<open>kv_store\<close>, met by an ordered list.
  \<^item> \<^verbatim>\<open>Executor\<close>: \<open>LevelDBExecutor\<close> of \<^verbatim>\<open>ops.cc\<close>: keys (C15), insertion and reading (C10,
    C16), scans (C11 for records that start with a wanted field, the lemma \<open>scan_unlimited\<close> for
    the other ones, \<open>scan_seek_skips\<close> for what a scan for one field misses), totality
    (\<open>execute_total\<close>) and statistics (C17).
  \<^item> \<^verbatim>\<open>Server\<close>: \<^verbatim>\<open>leveldb.cc\<close>: argument handling (database, port, address and workload are
    taken from the command line), the main loop, the report, the descriptors closed and the
    database left behind. Whole TCP and
    UDP sessions (\<open>server_tcp_session\<close>, \<open>server_udp_session\<close>), the accounting of the loop for
    every handler (C18), elapsed times (C40), and two ways for a client to end
    the server (C19, \<open>server_idle_undefined\<close>).
  \<^item> \<^verbatim>\<open>Ycsb_Spec\<close>: the contract of the server, a table of records with the answers allowed
    for each operation. The executor refines it on every store with LevelDB's contract
    (C2), and so do whole sessions of the server (C1).
  \<^item> \<^verbatim>\<open>Server_Robust\<close>: the server with any input. The abstract class \<open>Executor\<close> of \<^verbatim>\<open>ops.h\<close>
    is the locale \<open>executor\<close>, a handler that is safe for any input \<open>op_safe\<close>, one with a
    bounded number of packages \<open>op_countdown\<close>; against them the main loop is shown to have no
    undefined behaviour and to end. So no TCP client makes the server undefined but by
    stopping it before its first operation (C3), and every UDP run ends (C4).
  \<^item> \<^verbatim>\<open>Stats\<close>: \<^verbatim>\<open>include/common.h\<close>, \<^verbatim>\<open>cycles.h\<close>, \<^verbatim>\<open>profile.h\<close>: average and standard
    deviation with its \<open>double\<close> square root (C21), the busy loop, and the report
    (\<open>cyc_report\<close>) with what it is meant to show (\<open>mean_of\<close>, \<open>stddev_of\<close>).
  \<^item> \<^verbatim>\<open>Platform\<close>: the \<^verbatim>\<open>gem5\<close> instructions of \<^verbatim>\<open>common.h\<close> on both instruction sets, and
    the system calls of \<^verbatim>\<open>smemcpy.h\<close> and \<^verbatim>\<open>sysctrace.h\<close>.
  \<^item> \<^verbatim>\<open>Memcpy\<close>: \<^verbatim>\<open>apps/memcpy/memcpy.c\<close> on a flat memory, its copy routine (C22, C23) and
    the benchmark around it, with the simulator's instructions (C24).
  \<^item> \<^verbatim>\<open>Transition\<close>: runs of labelled steps and the contracts of programs of several
    processes, the locales \<open>invariant\<close>, \<open>bounded\<close>, \<open>exact\<close> and \<open>simulation\<close>, interpreted
    for \<open>pingpong\<close>, \<open>yield\<close> and \<open>mwait\<close>.
  \<^item> \<^verbatim>\<open>Pingpong\<close>: \<^verbatim>\<open>apps/pingpong/pingpong.c\<close> as a step relation of two processes and a
    message queue, which has limits and may hold messages of earlier runs: invariant (C26),
    termination without deadlock (C27), and what happens when a process gives up (C28).
    \<^verbatim>\<open>Pingpong_Spec\<close>: the program up to \<open>fork\<close> with the key of its queue, and the refinement
    of a counter of messages sent and answered (C25).
  \<^item> \<^verbatim>\<open>Files\<close>: what a sequence of writes makes of a file's contents. On it \<^verbatim>\<open>File_Apps\<close>:
    \<^verbatim>\<open>apps/write\<close> (C29) and \<^verbatim>\<open>read\<close>; \<^verbatim>\<open>Copy_Apps\<close>: \<^verbatim>\<open>apps/cp\<close> (C30), \<^verbatim>\<open>cat\<close> and \<^verbatim>\<open>sendfile\<close>.
  \<^item> \<^verbatim>\<open>Micro_Apps\<close>: \<^verbatim>\<open>apps/syscall\<close> (C31) and \<^verbatim>\<open>apps/pagefault\<close> (C38); \<^verbatim>\<open>Memload\<close>:
    \<^verbatim>\<open>apps/memload\<close> (C37); \<^verbatim>\<open>Netlat\<close>: \<^verbatim>\<open>apps/netlat\<close> (C36).
  \<^item> \<^verbatim>\<open>Process_Apps\<close>: \<^verbatim>\<open>apps/exec\<close> (C35), \<^verbatim>\<open>apps/yield\<close> and \<^verbatim>\<open>tools/ignoreint.cc\<close> (C34), and
    \<^verbatim>\<open>apps/stracetime\<close>; \<^verbatim>\<open>Mwait\<close>: the two threads of \<^verbatim>\<open>apps/mwait\<close> (C33).
  \<^item> \<^verbatim>\<open>Leveldb_Bench\<close>: \<^verbatim>\<open>apps/leveldb/leveldb.cc\<close> (C32); \<^verbatim>\<open>Sqlite\<close>: \<^verbatim>\<open>apps/sqlite/sqlite.c\<close>
    with SQLite as a parameter (C39).

  Conventions. Integers have the width of the source, except \<open>int\<close> and \<open>long\<close> values whose
  overflow is undefined in C: those are unbounded, with the overflow tested where it can
  happen. What a program gets from outside (results of system calls, data, clock readings,
  uninitialised memory) is an argument, so that a theorem that does not restrict it holds
  for every behaviour. Loops that end for every input are total functions with a measure;
  the others (\<open>server_loop\<close>, the loops over an iterator, \<open>write_loop\<close>) are partial functions,
  and that they return is part of the theorems about them. No fuel is used.

  Bounds in the theorems: a package body fits the 8 KiB \<open>package_buffer\<close> of the TCP handler,
  a workload file the 4 MiB \<open>wl_buffer\<close> of the UDP handler, a session has fewer than
  \<open>2 ^ 64\<close> packages; the sessions of C1 and the totality of the executor have keys
  below \<open>2 ^ 63\<close>, because \<open>std::stoll\<close> throws above (C11, C15 and C19 say what happens then).

  Assumptions of the concurrent models. The two processes of \<^verbatim>\<open>pingpong\<close> and \<^verbatim>\<open>yield\<close> and the
  threads of \<^verbatim>\<open>mwait\<close> are step relations with any interleaving; an access to a volatile
  variable of \<^verbatim>\<open>mwait\<close> is one step, in program order, and so is its system call, which
  must return for the main thread to go on: that is up to the patched kernel. The calls of
  \<open>fork\<close> in \<^verbatim>\<open>exec\<close> succeed or fail in any pattern, which is an argument.

  Not modelled: the destructor of the executor (it deletes LevelDB's object, and \<^verbatim>\<open>main\<close>
  never calls it) and the fixed texts of messages; what the simulator does with its
  instructions and a patched kernel with its system calls (both are parameters); the
  host-side scripts in Python, awk and shell, the build system, the
  configurations, and the sources of Linux, Buildroot, LevelDB, SQLite and the other
  submodules.
\<close>

end
